(* ===== verification/Prelude.thy ===== *)
theory Prelude
  imports Main "HOL-Library.Word"
begin

unbundle bit_operations_syntax

text \<open>
  Shared vocabulary of the development.

  \<^item> the C integer types of the kernel as words, and the helpers of
    \<^verbatim>\<open>src/kernel-src/include/util.h\<close>: \<open>ROUND_DOWN\<close>, \<open>ROUND_UP\<close>, the
    signed \<open>min\<close> and the FNV-1a hash;
  \<^item> the error numbers of \<^verbatim>\<open>src/kernel-src/include/errno.h\<close> the modelled code
    returns, with \<open>E_OK\<close> for 0;
  \<^item> generic facts on words and lists that the component theories share, in the
    collections \<open>word_nat\<close> (a word operation read through \<open>unat\<close>) and
    \<open>ptr_simps\<close> (field updates of a heap of structures).
\<close>

named_theorems word_nat \<open>word operations read as natural numbers\<close>

named_theorems ptr_simps \<open>reads after writes of structure fields in a heap\<close>

type_synonym u8 = "8 word"
type_synonym u64 = "64 word"
type_synonym addr = "64 word"

datatype errno =
    E_OK | EPERM | ENOENT | ESRCH | EINTR | ENXIO | EBADF | ECHILD | EAGAIN | ENOMEM | EACCES | EFAULT | EINVAL | EMFILE

subsection \<open>Helpers of util.h\<close>

definition PAGE_SIZE :: u64 where
  "PAGE_SIZE = 4096"

definition ROUND_DOWN :: "u64 \<Rightarrow> u64 \<Rightarrow> u64" where
  "ROUND_DOWN v n = v - v mod n"

definition ROUND_UP :: "u64 \<Rightarrow> u64 \<Rightarrow> u64" where
  "ROUND_UP v n = ROUND_DOWN (v + n - 1) n"

text \<open>
  \<open>static inline long min(long x, long y)\<close> compares its arguments as signed numbers, so a
  \<open>size_t\<close> of at least \<open>2 ^ 63\<close> counts as negative.
\<close>

definition min_long :: "u64 \<Rightarrow> u64 \<Rightarrow> u64" where
  "min_long x y = (if sint x > sint y then y else x)"

definition FNV1PRIME :: u64 where
  "FNV1PRIME = 0x100000001b3"

definition FNV1OFFSET :: u64 where
  "FNV1OFFSET = 0xcbf29ce484222325"

fun fnv1a_loop :: "u64 \<Rightarrow> u8 list \<Rightarrow> u64" where
  "fnv1a_loop h [] = h"
| "fnv1a_loop h (b # bs) = fnv1a_loop ((h XOR ucast b) * FNV1PRIME) bs"

definition fnv1ahash :: "u8 list \<Rightarrow> u64" where
  "fnv1ahash buffer = fnv1a_loop FNV1OFFSET buffer"

subsection \<open>Words as natural numbers\<close>

lemma unat_PAGE_SIZE [simp]: "unat PAGE_SIZE = 4096"
  by (simp add: PAGE_SIZE_def)

lemma unat_lt_64 [simp]: "unat (x :: u64) < 2 ^ 64"
  using unsigned_less [of x] by simp

lemma unat_lt_64' [simp]: "unat (x :: u64) < 18446744073709551616"
  using unat_lt_64 [of x] by simp

lemma sint_small:
  assumes "unat (x :: u64) < 2 ^ 63"
  shows "sint x = int (unat x)"
proof -
  have "int (unat x) < 2 ^ 63"
    using assms by (metis of_nat_less_iff of_nat_numeral of_nat_power)
  then have "uint x < 2 ^ 63"
    by simp
  then have "signed_take_bit 63 (uint x) = uint x"
    by (intro signed_take_bit_int_eq_self) (simp_all add: order_trans [OF _ uint_ge_0])
  then show ?thesis
    by (simp add: sint_uint)
qed

lemma unat_min_long [word_nat]:
  assumes "unat x < 2 ^ 63" and "unat y < 2 ^ 63"
  shows "unat (min_long x y) = min (unat x) (unat y)"
proof -
  have "sint x > sint y \<longleftrightarrow> unat x > unat y"
    using assms by (simp only: sint_small of_nat_less_iff)
  then show ?thesis
    by (simp add: min_long_def min_def)
qed

lemma unat_sub_le [word_nat]: "unat y \<le> unat x \<Longrightarrow> unat (x - y :: u64) = unat x - unat y"
  by (simp add: unat_sub word_le_nat_alt)

lemma unat_add_small [word_nat]:
  "unat x + unat y < 2 ^ 64 \<Longrightarrow> unat (x + y :: u64) = unat x + unat y"
  by (simp add: unat_word_ariths)

lemma unat_of_nat_small [word_nat]: "n < 2 ^ 64 \<Longrightarrow> unat (of_nat n :: u64) = n"
  by (simp add: unat_of_nat take_bit_nat_eq_self)

lemma unat_mod_u64 [word_nat]: "unat (x mod y :: u64) = unat x mod unat y"
  by (simp add: unat_mod)

lemma unat_div_u64 [word_nat]: "unat (x div y :: u64) = unat x div unat y"
  by (simp add: unat_div)

lemma unat_ROUND_DOWN [word_nat]:
  "unat (ROUND_DOWN v n) = unat v - unat v mod unat n"
  by (simp add: ROUND_DOWN_def word_nat)

lemma ROUND_DOWN_le: "unat (ROUND_DOWN v n) \<le> unat v"
  by (simp add: unat_ROUND_DOWN)

lemma ROUND_DOWN_dvd: "unat n dvd unat (ROUND_DOWN v n)"
  by (simp add: unat_ROUND_DOWN dvd_minus_mod)

lemma of_nat_inj_u64:
  "i < 2 ^ 64 \<Longrightarrow> j < 2 ^ 64 \<Longrightarrow> (of_nat i :: u64) = of_nat j \<longleftrightarrow> i = j"
  by (metis unat_of_nat_small)

lemma addr_split: "a = b + of_nat (unat (a - b :: addr))"
  by simp

subsection \<open>Searching a list\<close>

lemma find_append: "find P (xs @ ys) = (case find P xs of None \<Rightarrow> find P ys | Some x \<Rightarrow> Some x)"
  by (induction xs) auto

lemma find_cong': "(\<And>x. x \<in> set xs \<Longrightarrow> P x = Q x) \<Longrightarrow> find P xs = find Q xs"
  by (induction xs) auto

lemma find_map_distinct: "distinct (map f xs) \<Longrightarrow> e \<in> set xs \<Longrightarrow> find (\<lambda>x. f x = f e) xs = Some e"
  by (induction xs) auto

lemma find_key_None: "find (\<lambda>e. f e = k) xs = None \<longleftrightarrow> k \<notin> f ` set xs"
  by (auto simp: find_None_iff)

lemma find_key_SomeD: "find (\<lambda>e. f e = k) xs = Some e \<Longrightarrow> e \<in> set xs \<and> f e = k"
  by (auto simp: find_Some_iff)

lemma find_unique:
  assumes "x \<in> set xs" and "P x" and "\<And>y. y \<in> set xs \<Longrightarrow> P y \<Longrightarrow> y = x"
  shows "find P xs = Some x"
proof -
  have "find P xs \<noteq> None" using assms(1,2) by (auto simp: find_None_iff)
  then obtain y where y: "find P xs = Some y" by auto
  then have "y \<in> set xs" "P y" by (auto simp: find_Some_iff)
  with assms(3) y show ?thesis by blast
qed

end
