(* ===== verification/Memory.thy ===== *)
theory Memory
  imports Prelude
begin

text \<open>
  Byte memory, the copy routines of \<^verbatim>\<open>src/kernel-src/lib/string.c\<close> and the user-copy
  layer of \<^verbatim>\<open>src/kernel-src/mm/usercopy.c\<close>.

  An address is a 64-bit word. \<open>readable\<close> and \<open>writable\<close> say where an access succeeds, at once or
  after the page-fault handler resolved it; elsewhere the access faults. \<open>memcpy\<close> and \<open>memset\<close> are
  the \<open>rep movsb\<close> and \<open>rep stosb\<close> loops: one byte at a time, upwards, stopping at the first
  fault. What a fault does depends on the caller (\<open>pfisr\<close> of
  \<^verbatim>\<open>src/kernel-src/arch/x86-64/mmu.c\<close>): under a user copy the routine returns \<open>EFAULT\<close>,
  a plain kernel access panics, which is the value \<open>None\<close>.

  The lemmas describe copies between regions that do not overlap: \<open>load\<close> reads a region as a list
  of bytes, \<open>store\<close> writes a list to a region.
\<close>

record memory =
  bytes :: "addr \<Rightarrow> u8"
  readable :: "addr \<Rightarrow> bool"
  writable :: "addr \<Rightarrow> bool"

subsection \<open>memcpy, memset, memcmp\<close>

fun memcpy_loop :: "nat \<Rightarrow> addr \<Rightarrow> addr \<Rightarrow> memory \<Rightarrow> bool \<times> memory" where
  "memcpy_loop 0 d s m = (True, m)"
| "memcpy_loop (Suc c) d s m =
     (if readable m s \<and> writable m d
      then memcpy_loop c (d + 1) (s + 1) (m\<lparr>bytes := (bytes m)(d := bytes m s)\<rparr>)
      else (False, m))"

definition memcpy :: "memory \<Rightarrow> addr \<Rightarrow> addr \<Rightarrow> u64 \<Rightarrow> bool \<times> memory" where
  "memcpy m d s c = memcpy_loop (unat c) d s m"

fun memset_loop :: "nat \<Rightarrow> addr \<Rightarrow> u8 \<Rightarrow> memory \<Rightarrow> bool \<times> memory" where
  "memset_loop 0 p v m = (True, m)"
| "memset_loop (Suc c) p v m =
     (if writable m p
      then memset_loop c (p + 1) v (m\<lparr>bytes := (bytes m)(p := v)\<rparr>)
      else (False, m))"

definition memset :: "memory \<Rightarrow> addr \<Rightarrow> u8 \<Rightarrow> u64 \<Rightarrow> bool \<times> memory" where
  "memset m p v c = memset_loop (unat c) p v m"

text \<open>\<open>memcmp\<close> over the bytes of its two buffers; the loop stops at the first difference.\<close>

fun memcmp_loop :: "int \<Rightarrow> u8 list \<Rightarrow> u8 list \<Rightarrow> nat \<Rightarrow> int" where
  "memcmp_loop diff (a # as) (b # bs) (Suc s) =
     (if diff = 0 then memcmp_loop (diff + (uint a - uint b)) as bs s else diff)"
| "memcmp_loop diff as bs s = diff"

definition memcmp :: "u8 list \<Rightarrow> u8 list \<Rightarrow> nat \<Rightarrow> int" where
  "memcmp a b s = memcmp_loop 0 a b s"

subsection \<open>The user-copy layer\<close>

definition USERSPACE_END :: addr where
  "USERSPACE_END = 0x0000800000000000"

definition IS_USER_ADDRESS :: "addr \<Rightarrow> bool" where
  "IS_USER_ADDRESS a \<longleftrightarrow> a < USERSPACE_END"

text \<open>
  \<open>arch_context_saveandcall(memcpyinternal, ...)\<close>: the copy runs with \<open>usercopyctx\<close> set, so a
  fault resumes after the call with \<open>EFAULT\<close>; what was copied before the fault stays.
\<close>

definition guarded :: "bool \<times> memory \<Rightarrow> errno \<times> memory" where
  "guarded r = (if fst r then E_OK else EFAULT, snd r)"

definition usercopy_touser :: "memory \<Rightarrow> addr \<Rightarrow> addr \<Rightarrow> u64 \<Rightarrow> errno \<times> memory" where
  "usercopy_touser m user kern sz =
     (if \<not> IS_USER_ADDRESS user then (EFAULT, m)
      else guarded (memcpy m user kern sz))"

definition usercopy_fromuser :: "memory \<Rightarrow> addr \<Rightarrow> addr \<Rightarrow> u64 \<Rightarrow> errno \<times> memory" where
  "usercopy_fromuser m kern user sz =
     (if \<not> IS_USER_ADDRESS user then (EFAULT, m)
      else guarded (memcpy m kern user sz))"

definition usercopy_memset :: "memory \<Rightarrow> addr \<Rightarrow> u8 \<Rightarrow> u64 \<Rightarrow> errno \<times> memory" where
  "usercopy_memset m user byte sz =
     (if \<not> IS_USER_ADDRESS user then (EFAULT, m)
      else guarded (memset m user byte sz))"

definition unguarded :: "bool \<times> memory \<Rightarrow> (errno \<times> memory) option" where
  "unguarded r = (if fst r then Some (E_OK, snd r) else None)"

definition usercopy_memcpy_wrapper :: "memory \<Rightarrow> addr \<Rightarrow> addr \<Rightarrow> u64 \<Rightarrow> (errno \<times> memory) option" where
  "usercopy_memcpy_wrapper m dst src sz = unguarded (memcpy m dst src sz)"

definition usercopy_memset_wrapper :: "memory \<Rightarrow> addr \<Rightarrow> u8 \<Rightarrow> u64 \<Rightarrow> (errno \<times> memory) option" where
  "usercopy_memset_wrapper m dst byte sz = unguarded (memset m dst byte sz)"

definition USERCOPY_POSSIBLY_FROM_USER :: "memory \<Rightarrow> addr \<Rightarrow> addr \<Rightarrow> u64 \<Rightarrow> (errno \<times> memory) option" where
  "USERCOPY_POSSIBLY_FROM_USER m kern user sz =
     (if IS_USER_ADDRESS user then Some (usercopy_fromuser m kern user sz)
      else usercopy_memcpy_wrapper m kern user sz)"

definition USERCOPY_POSSIBLY_TO_USER :: "memory \<Rightarrow> addr \<Rightarrow> addr \<Rightarrow> u64 \<Rightarrow> (errno \<times> memory) option" where
  "USERCOPY_POSSIBLY_TO_USER m user kern sz =
     (if IS_USER_ADDRESS user then Some (usercopy_touser m user kern sz)
      else usercopy_memcpy_wrapper m user kern sz)"

definition USERCOPY_POSSIBLY_MEMSET_TO_USER :: "memory \<Rightarrow> addr \<Rightarrow> u8 \<Rightarrow> u64 \<Rightarrow> (errno \<times> memory) option" where
  "USERCOPY_POSSIBLY_MEMSET_TO_USER m user byte sz =
     (if IS_USER_ADDRESS user then Some (usercopy_memset m user byte sz)
      else usercopy_memset_wrapper m user byte sz)"

subsection \<open>Regions\<close>

definition load :: "memory \<Rightarrow> addr \<Rightarrow> nat \<Rightarrow> u8 list" where
  "load m a n = map (\<lambda>i. bytes m (a + of_nat i)) [0..<n]"

definition store :: "memory \<Rightarrow> addr \<Rightarrow> u8 list \<Rightarrow> memory" where
  "store m a xs =
     m\<lparr>bytes := \<lambda>b. if unat (b - a) < length xs then xs ! unat (b - a) else bytes m b\<rparr>"

definition rd_region :: "memory \<Rightarrow> addr \<Rightarrow> nat \<Rightarrow> bool" where
  "rd_region m a n \<longleftrightarrow> (\<forall>i<n. readable m (a + of_nat i))"

definition wr_region :: "memory \<Rightarrow> addr \<Rightarrow> nat \<Rightarrow> bool" where
  "wr_region m a n \<longleftrightarrow> (\<forall>i<n. writable m (a + of_nat i))"

definition apart :: "addr \<Rightarrow> nat \<Rightarrow> addr \<Rightarrow> nat \<Rightarrow> bool" where
  "apart a n b k \<longleftrightarrow> (\<forall>i<n. \<forall>j<k. a + of_nat i \<noteq> b + of_nat j)"

lemma length_load [simp]: "length (load m a n) = n"
  by (simp add: load_def)

lemma nth_load [simp]: "i < n \<Longrightarrow> load m a n ! i = bytes m (a + of_nat i)"
  by (simp add: load_def)

lemma load_0 [simp]: "load m a 0 = []"
  by (simp add: load_def)

lemma load_Suc: "load m a (Suc n) = bytes m a # load m (a + 1) n"
  unfolding load_def upt_conv_Cons [OF zero_less_Suc] list.map map_Suc_upt [symmetric]
  by (simp add: comp_def add.assoc)

lemma load_add: "load m a (n + k) = load m a n @ load m (a + of_nat n) k"
  by (rule nth_equalityI) (auto simp: nth_append add.assoc simp flip: of_nat_add)

lemma take_load: "take n (load m a k) = load m a (min n k)"
  by (simp add: load_def take_map take_upt min_def)

lemma store_access [simp]:
  "readable (store m a xs) = readable m" "writable (store m a xs) = writable m"
  by (simp_all add: store_def)

lemma rd_region_store [simp]: "rd_region (store m a xs) b n = rd_region m b n"
  by (simp add: rd_region_def)

lemma wr_region_store [simp]: "wr_region (store m a xs) b n = wr_region m b n"
  by (simp add: wr_region_def)

lemma store_Nil [simp]: "store m a [] = m"
  by (simp add: store_def)

lemma rd_region_Suc: "rd_region m a (Suc n) \<longleftrightarrow> readable m a \<and> rd_region m (a + 1) n"
proof -
  have "(\<forall>i<n. readable m (a + 1 + of_nat i)) = (\<forall>i<n. readable m (a + of_nat (Suc i)))"
    by (simp add: add.assoc)
  then show ?thesis
    by (auto simp: rd_region_def less_Suc_eq_0_disj)
qed

lemma wr_region_Suc: "wr_region m a (Suc n) \<longleftrightarrow> writable m a \<and> wr_region m (a + 1) n"
proof -
  have "(\<forall>i<n. writable m (a + 1 + of_nat i)) = (\<forall>i<n. writable m (a + of_nat (Suc i)))"
    by (simp add: add.assoc)
  then show ?thesis
    by (auto simp: wr_region_def less_Suc_eq_0_disj)
qed

lemma rd_region_sub: "rd_region m a n \<Longrightarrow> k + j \<le> n \<Longrightarrow> rd_region m (a + of_nat k) j"
  by (auto simp: rd_region_def add.assoc simp flip: of_nat_add)

lemma wr_region_sub: "wr_region m a n \<Longrightarrow> k + j \<le> n \<Longrightarrow> wr_region m (a + of_nat k) j"
  by (auto simp: wr_region_def add.assoc simp flip: of_nat_add)

lemma apart_sub:
  "apart a n b k \<Longrightarrow> i + n' \<le> n \<Longrightarrow> j + k' \<le> k \<Longrightarrow> apart (a + of_nat i) n' (b + of_nat j) k'"
  by (auto simp: apart_def add.assoc simp flip: of_nat_add)

lemma apart_sym: "apart a n b k \<longleftrightarrow> apart b k a n"
  by (auto simp: apart_def eq_commute)

lemma apartD: "apart a n b k \<Longrightarrow> i < n \<Longrightarrow> j < k \<Longrightarrow> a + of_nat i \<noteq> b + of_nat j"
  unfolding apart_def by blast

lemma apart_offset:
  assumes "apart a n b k" and "i < n"
  shows "\<not> unat (a + of_nat i - b) < k"
proof
  assume "unat (a + of_nat i - b) < k"
  from apartD [OF assms this] show False by simp
qed

lemma unat_region: "i < n \<Longrightarrow> unat a + n \<le> 2 ^ 64 \<Longrightarrow> unat (a + of_nat i :: addr) = unat a + i"
  by (simp add: unat_add_small unat_of_nat_small)

lemma apart_above:
  assumes "unat b + k \<le> unat a" and "unat a + n \<le> 2 ^ 64"
  shows "apart a n b k"
proof -
  have "a + of_nat i \<noteq> b + of_nat j" if "i < n" "j < k" for i j
  proof -
    have "unat (a + of_nat i) = unat a + i"
      using that assms by (intro unat_region)
    moreover have "unat (b + of_nat j) = unat b + j"
      using that assms by (intro unat_region) auto
    ultimately show ?thesis using assms(1) that(2) by auto
  qed
  then show ?thesis by (simp add: apart_def)
qed

lemma kernel_region:
  assumes "unat USERSPACE_END \<le> unat a" and "unat a + n \<le> 2 ^ 64"
  shows "\<forall>i<n. \<not> IS_USER_ADDRESS (a + of_nat i)"
  using assms unat_region [of _ n a] by (auto simp: IS_USER_ADDRESS_def word_less_nat_alt)

lemma load_store_apart:
  assumes "apart a n b (length xs)"
  shows "load (store m b xs) a n = load m a n"
  using apart_offset [OF assms]
  by (auto simp: load_def store_def)

lemma bytes_store:
  "bytes (store m a xs) b = (if unat (b - a) < length xs then xs ! unat (b - a) else bytes m b)"
  by (simp add: store_def)

lemma store_Cons:
  assumes "length xs < 2 ^ 64"
  shows "store (m\<lparr>bytes := (bytes m)(a := x)\<rparr>) (a + 1) xs = store m a (x # xs)"
proof -
  have "bytes (store (m\<lparr>bytes := (bytes m)(a := x)\<rparr>) (a + 1) xs) b = bytes (store m a (x # xs)) b" for b
  proof (cases "b = a")
    case True
    moreover have "unat (- 1 :: u64) = 2 ^ 64 - 1"
      by (simp add: unsigned_minus_1_eq_mask mask_eq_exp_minus_1)
    ultimately show ?thesis using assms by (simp add: bytes_store)
  next
    case False
    then have "unat (b - a) \<noteq> 0" by (simp add: unat_eq_0)
    then have "unat (b - (a + 1)) = unat (b - a) - 1"
      using unat_sub_le [of 1 "b - a"] by (simp add: diff_diff_eq)
    with False \<open>unat (b - a) \<noteq> 0\<close> show ?thesis
      by (cases "unat (b - a)") (auto simp: bytes_store)
  qed
  then have "bytes (store (m\<lparr>bytes := (bytes m)(a := x)\<rparr>) (a + 1) xs) = bytes (store m a (x # xs))"
    by (rule ext)
  then show ?thesis
    by (intro memory.equality) simp_all
qed

lemma rd_region_bytes [simp]: "rd_region (m\<lparr>bytes := f\<rparr>) a n = rd_region m a n"
  by (simp add: rd_region_def)

lemma wr_region_bytes [simp]: "wr_region (m\<lparr>bytes := f\<rparr>) a n = wr_region m a n"
  by (simp add: wr_region_def)

lemma memcpy_loop_store:
  assumes "rd_region m s n" and "wr_region m d n" and "apart d n s n" and "n < 2 ^ 64"
  shows "memcpy_loop n d s m = (True, store m d (load m s n))"
  using assms
proof (induction n arbitrary: d s m)
  case (Suc n)
  let ?m = "m\<lparr>bytes := (bytes m)(d := bytes m s)\<rparr>"
  have ap: "apart (d + 1) n (s + 1) n"
    using apart_sub [OF Suc.prems(3), of 1 n 1 n] by simp
  have dne: "s + of_nat i \<noteq> d" if "i < Suc n" for i
    using apartD [OF Suc.prems(3) zero_less_Suc that] by simp
  have ld: "load ?m (s + 1) n = load m (s + 1) n"
  proof (rule nth_equalityI, goal_cases)
    case (2 i)
    with dne [of "Suc i"] show ?case by (simp add: add.assoc)
  qed simp
  have "rd_region ?m (s + 1) n" "wr_region ?m (d + 1) n" "readable m s" "writable m d"
    using Suc.prems by (simp_all add: rd_region_Suc wr_region_Suc)
  with Suc.IH [of ?m "s + 1" "d + 1"] ap Suc.prems(4)
  have "memcpy_loop (Suc n) d s m = (True, store ?m (d + 1) (load m (s + 1) n))"
    by (simp add: ld)
  also have "store ?m (d + 1) (load m (s + 1) n) = store m d (load m s (Suc n))"
    using Suc.prems(4) by (subst store_Cons) (simp_all add: load_Suc)
  finally show ?case .
qed simp

lemma memcpy_store:
  assumes "rd_region m s (unat n)" and "wr_region m d (unat n)" and "apart d (unat n) s (unat n)"
  shows "memcpy m d s n = (True, store m d (load m s (unat n)))"
  unfolding memcpy_def using assms by (intro memcpy_loop_store) simp_all

text \<open>A copy writes nothing outside its destination, whether or not it faults.\<close>

lemma memcpy_loop_frame:
  "n \<le> 2 ^ 64 \<Longrightarrow> \<not> unat (a - d) < n \<Longrightarrow>
   bytes (snd (memcpy_loop n d s m)) a = bytes m a
   \<and> readable (snd (memcpy_loop n d s m)) = readable m \<and> writable (snd (memcpy_loop n d s m)) = writable m"
proof (induction n arbitrary: d s m)
  case (Suc n)
  then have "a \<noteq> d" by auto
  then have "unat (a - d) \<noteq> 0" by (simp add: unat_eq_0)
  then have "unat (a - (d + 1)) = unat (a - d) - 1"
    using unat_sub_le [of 1 "a - d"] by (simp add: diff_diff_eq)
  with Suc.prems have "\<not> unat (a - (d + 1)) < n" by simp
  with Suc.IH [of "d + 1"] Suc.prems \<open>a \<noteq> d\<close> show ?case by simp
qed simp

lemma FROM_USER_frame:
  assumes "USERCOPY_POSSIBLY_FROM_USER m d s n = Some (e, m')" and "\<not> unat (a - d) < unat n"
  shows "bytes m' a = bytes m a"
proof -
  have "m' = m \<or> m' = snd (memcpy m d s n)"
    using assms(1) by (auto simp: USERCOPY_POSSIBLY_FROM_USER_def usercopy_fromuser_def guarded_def
        usercopy_memcpy_wrapper_def unguarded_def split: if_splits)
  moreover have "bytes (snd (memcpy m d s n)) a = bytes m a"
    using memcpy_loop_frame [OF _ assms(2)] by (simp add: memcpy_def order_less_imp_le)
  ultimately show ?thesis by auto
qed

text \<open>A copy to or from memory that does not fault succeeds, whichever side is the user's.\<close>

lemma FROM_USER_store:
  assumes "rd_region m s (unat n)" and "wr_region m d (unat n)" and "apart d (unat n) s (unat n)"
  shows "USERCOPY_POSSIBLY_FROM_USER m d s n = Some (E_OK, store m d (load m s (unat n)))"
  by (simp add: USERCOPY_POSSIBLY_FROM_USER_def usercopy_fromuser_def usercopy_memcpy_wrapper_def
      guarded_def unguarded_def memcpy_store [OF assms])

lemma TO_USER_store:
  assumes "rd_region m s (unat n)" and "wr_region m d (unat n)" and "apart d (unat n) s (unat n)"
  shows "USERCOPY_POSSIBLY_TO_USER m d s n = Some (E_OK, store m d (load m s (unat n)))"
  by (simp add: USERCOPY_POSSIBLY_TO_USER_def usercopy_touser_def usercopy_memcpy_wrapper_def
      guarded_def unguarded_def memcpy_store [OF assms])

text \<open>
  The contract of a copy routine: between readable and writable regions that do not overlap it
  succeeds. Both user-copy macros keep it.
\<close>

locale copy_routine =
  fixes cp :: "memory \<Rightarrow> addr \<Rightarrow> addr \<Rightarrow> u64 \<Rightarrow> (errno \<times> memory) option"
  assumes copies: "rd_region m s (unat n) \<Longrightarrow> wr_region m d (unat n) \<Longrightarrow> apart d (unat n) s (unat n)
    \<Longrightarrow> cp m d s n = Some (E_OK, store m d (load m s (unat n)))"
begin

lemma copies_nat:
  assumes "k < 2 ^ 64" and "rd_region m s k" and "wr_region m d k" and "apart d k s k"
  shows "cp m d s (of_nat k) = Some (E_OK, store m d (load m s k))"
  using copies [of m s "of_nat k" d] assms by (simp add: unat_of_nat_small)

end

interpretation from_user: copy_routine USERCOPY_POSSIBLY_FROM_USER
  by unfold_locales (rule FROM_USER_store)

interpretation to_user: copy_routine USERCOPY_POSSIBLY_TO_USER
  by unfold_locales (rule TO_USER_store)

lemma memcmp_loop_nz: "diff \<noteq> 0 \<Longrightarrow> memcmp_loop diff as bs s = diff"
  by (cases "(diff, as, bs, s)" rule: memcmp_loop.cases) auto

lemma memcmp_eq_0_iff:
  assumes "s \<le> length as" and "s \<le> length bs"
  shows "memcmp as bs s = 0 \<longleftrightarrow> take s as = take s bs"
proof -
  have "memcmp_loop 0 as bs s = 0 \<longleftrightarrow> take s as = take s bs"
    using assms
  proof (induction s arbitrary: as bs)
    case (Suc s)
    then obtain a as' b bs' where [simp]: "as = a # as'" "bs = b # bs'"
      by (cases as; cases bs) auto
    show ?case
    proof (cases "a = b")
      case False
      then have "uint a - uint b \<noteq> 0" by (simp add: word_uint_eq_iff)
      then show ?thesis using False by (simp add: memcmp_loop_nz)
    qed (use Suc in simp)
  qed (cases as; cases bs; simp)
  then show ?thesis by (simp add: memcmp_def)
qed

end
