(* ===== verification/Ringbuffer.thy ===== *)
theory Ringbuffer
  imports Memory
begin

text \<open>
  The byte ring buffer of \<^verbatim>\<open>src/kernel-src/lib/ringbuffer.c\<close>, used by pipes, terminals,
  sockets and device queues.

  The structure holds free-running \<open>write\<close> and \<open>read\<close> counters; byte number \<open>k\<close> of the stream is
  kept in cell \<open>k mod size\<close> of the data area, and an operation copies at most two runs of cells.
  \<open>contents\<close> reads the queued bytes as a list. The lemmas show that \<open>ringbuffer_write\<close> appends,
  that \<open>ringbuffer_read\<close> takes from the front, what \<open>ringbuffer_peek\<close> delivers, and that a copy
  that faults leaves the queue as it was.
\<close>

record ringbuffer =
  rb_size :: u64
  rb_write :: u64
  rb_read :: u64
  rb_data :: addr

definition RINGBUFFER_USER_COPY_FAILED :: u64 where
  "RINGBUFFER_USER_COPY_FAILED = - 1"

definition RINGBUFFER_DATACOUNT :: "ringbuffer \<Rightarrow> u64" where
  "RINGBUFFER_DATACOUNT rb = rb_write rb - rb_read rb"

definition RINGBUFFER_FREESPACE :: "ringbuffer \<Rightarrow> u64" where
  "RINGBUFFER_FREESPACE rb = rb_size rb - RINGBUFFER_DATACOUNT rb"

text \<open>\<open>vmm_map\<close> stands for the kernel mapping call: the rounded size to the mapped address, 0 for NULL.\<close>

definition ringbuffer_init :: "(u64 \<Rightarrow> addr) \<Rightarrow> ringbuffer \<Rightarrow> u64 \<Rightarrow> errno \<times> ringbuffer" where
  "ringbuffer_init vmm_map rb sz =
     (let rb = rb\<lparr>rb_data := vmm_map (ROUND_UP sz PAGE_SIZE)\<rparr>
      in if rb_data rb = 0 then (ENOMEM, rb)
         else (E_OK, rb\<lparr>rb_size := sz, rb_write := 0, rb_read := 0\<rparr>))"

definition ringbuffer_truncate :: "ringbuffer \<Rightarrow> u64 \<Rightarrow> u64 \<times> ringbuffer" where
  "ringbuffer_truncate rb count =
     (let truecount = min_long (RINGBUFFER_DATACOUNT rb) count
      in (truecount, rb\<lparr>rb_read := rb_read rb + truecount\<rparr>))"

definition ringbuffer_remove :: "ringbuffer \<Rightarrow> u64 \<Rightarrow> u64 \<times> ringbuffer" where
  "ringbuffer_remove rb count =
     (let true_count = min_long (RINGBUFFER_DATACOUNT rb) count
      in (true_count, rb\<lparr>rb_write := rb_write rb - true_count\<rparr>))"

definition ringbuffer_read ::
    "memory \<Rightarrow> ringbuffer \<Rightarrow> addr \<Rightarrow> u64 \<Rightarrow> (u64 \<times> ringbuffer \<times> memory) option" where
  "ringbuffer_read m rb buffer count =
     (let datacount = RINGBUFFER_DATACOUNT rb;
          count = min_long count datacount;
          firstpassoffset = rb_read rb mod rb_size rb;
          firstpassremaining = rb_size rb - firstpassoffset;
          firstpasscount = min_long count firstpassremaining
      in case USERCOPY_POSSIBLY_FROM_USER m buffer (rb_data rb + firstpassoffset) firstpasscount of
           None \<Rightarrow> None
         | Some (e, m) \<Rightarrow>
             if e \<noteq> E_OK then Some (RINGBUFFER_USER_COPY_FAILED, rb, m)
             else if firstpasscount = count
             then Some (count, rb\<lparr>rb_read := rb_read rb + count\<rparr>, m)
             else case USERCOPY_POSSIBLY_FROM_USER m (buffer + firstpasscount) (rb_data rb)
                         (count - firstpasscount) of
                    None \<Rightarrow> None
                  | Some (e, m) \<Rightarrow>
                      if e \<noteq> E_OK then Some (RINGBUFFER_USER_COPY_FAILED, rb, m)
                      else Some (count, rb\<lparr>rb_read := rb_read rb + count\<rparr>, m))"

definition ringbuffer_peek ::
    "memory \<Rightarrow> ringbuffer \<Rightarrow> addr \<Rightarrow> u64 \<Rightarrow> u64 \<Rightarrow> (u64 \<times> memory) option" where
  "ringbuffer_peek m rb buffer offset count =
     (let datacount = RINGBUFFER_DATACOUNT rb;
          freespace = rb_size rb - datacount
      in if offset \<ge> datacount then Some (0, m)
         else
           let read = rb_read rb + min_long offset freespace;
               offsetdatacount = datacount - offset;
               count = min_long count offsetdatacount;
               firstpassoffset = read mod rb_size rb;
               firstpassremaining = rb_size rb - firstpassoffset;
               firstpasscount = min_long count firstpassremaining
           in case USERCOPY_POSSIBLY_TO_USER m buffer (rb_data rb + firstpassoffset) firstpasscount of
                None \<Rightarrow> None
              | Some (e, m) \<Rightarrow>
                  if e \<noteq> E_OK then Some (RINGBUFFER_USER_COPY_FAILED, m)
                  else if firstpasscount = count then Some (count, m)
                  else case USERCOPY_POSSIBLY_TO_USER m (buffer + firstpasscount) (rb_data rb)
                              (count - firstpasscount) of
                         None \<Rightarrow> None
                       | Some (e, m) \<Rightarrow>
                           if e \<noteq> E_OK then Some (RINGBUFFER_USER_COPY_FAILED, m)
                           else Some (count, m))"

definition ringbuffer_write ::
    "memory \<Rightarrow> ringbuffer \<Rightarrow> addr \<Rightarrow> u64 \<Rightarrow> (u64 \<times> ringbuffer \<times> memory) option" where
  "ringbuffer_write m rb buffer count =
     (let freespace = rb_size rb - RINGBUFFER_DATACOUNT rb;
          count = min_long count freespace;
          firstpassoffset = rb_write rb mod rb_size rb;
          firstpassremaining = rb_size rb - firstpassoffset;
          firstpasscount = min_long count firstpassremaining
      in case USERCOPY_POSSIBLY_FROM_USER m (rb_data rb + firstpassoffset) buffer firstpasscount of
           None \<Rightarrow> None
         | Some (e, m) \<Rightarrow>
             if e \<noteq> E_OK then Some (RINGBUFFER_USER_COPY_FAILED, rb, m)
             else if firstpasscount = count
             then Some (count, rb\<lparr>rb_write := rb_write rb + count\<rparr>, m)
             else case USERCOPY_POSSIBLY_FROM_USER m (rb_data rb) (buffer + firstpasscount)
                         (count - firstpasscount) of
                    None \<Rightarrow> None
                  | Some (e, m) \<Rightarrow>
                      if e \<noteq> E_OK then Some (RINGBUFFER_USER_COPY_FAILED, rb, m)
                      else Some (count, rb\<lparr>rb_write := rb_write rb + count\<rparr>, m))"

subsection \<open>Well-formed buffers and their contents\<close>

definition rb_ok :: "ringbuffer \<Rightarrow> bool" where
  "rb_ok rb \<longleftrightarrow> 0 < unat (rb_size rb) \<and> unat (rb_size rb) < 2 ^ 63
     \<and> unat (rb_read rb) \<le> unat (rb_write rb)
     \<and> unat (rb_write rb) - unat (rb_read rb) \<le> unat (rb_size rb)"

definition rb_mem :: "memory \<Rightarrow> ringbuffer \<Rightarrow> bool" where
  "rb_mem m rb \<longleftrightarrow> rd_region m (rb_data rb) (unat (rb_size rb)) \<and> wr_region m (rb_data rb) (unat (rb_size rb))"

definition rb_len :: "ringbuffer \<Rightarrow> nat" where
  "rb_len rb = unat (rb_write rb) - unat (rb_read rb)"

definition rb_free :: "ringbuffer \<Rightarrow> nat" where
  "rb_free rb = unat (rb_size rb) - rb_len rb"

definition cell :: "memory \<Rightarrow> ringbuffer \<Rightarrow> nat \<Rightarrow> u8" where
  "cell m rb k = bytes m (rb_data rb + of_nat (k mod unat (rb_size rb)))"

definition contents :: "memory \<Rightarrow> ringbuffer \<Rightarrow> u8 list" where
  "contents m rb = map (\<lambda>i. cell m rb (unat (rb_read rb) + i)) [0..<rb_len rb]"

lemma length_contents [simp]: "length (contents m rb) = rb_len rb"
  by (simp add: contents_def)

lemma nth_contents: "i < rb_len rb \<Longrightarrow> contents m rb ! i = cell m rb (unat (rb_read rb) + i)"
  by (simp add: contents_def)

lemma unat_DATACOUNT [word_nat]: "rb_ok rb \<Longrightarrow> unat (RINGBUFFER_DATACOUNT rb) = rb_len rb"
  by (simp add: rb_ok_def RINGBUFFER_DATACOUNT_def rb_len_def word_nat)

lemma rb_len_le: "rb_ok rb \<Longrightarrow> rb_len rb \<le> unat (rb_size rb)"
  by (simp add: rb_ok_def rb_len_def)

lemma unat_freespace [word_nat]: "rb_ok rb \<Longrightarrow> unat (rb_size rb - RINGBUFFER_DATACOUNT rb) = rb_free rb"
  by (simp add: word_nat rb_free_def rb_len_le)

lemma rb_len_free: "rb_ok rb \<Longrightarrow> rb_len rb + rb_free rb = unat (rb_size rb)"
  by (simp add: rb_free_def rb_len_le)

subsection \<open>Cells\<close>

text \<open>The cell of stream position \<open>w + d\<close>, for \<open>d\<close> less than the size: the run from \<open>w mod n\<close>, wrapped.\<close>

lemma mod_once: "v < n \<Longrightarrow> d < (n :: nat) \<Longrightarrow> (v + d) mod n = (if v + d < n then v + d else v + d - n)"
  by (simp add: le_mod_geq)

lemma wrap_mod:
  assumes "d < (n :: nat)"
  shows "(w + d) mod n = (if w mod n + d < n then w mod n + d else w mod n + d - n)"
  using mod_once [of "w mod n" n d] assms by (simp add: mod_add_left_eq)

lemma unat_diff_of_nat:
  assumes "i < 2 ^ 63" and "j < 2 ^ 63"
  shows "unat (of_nat j - of_nat i :: u64) = (if i \<le> j then j - i else 2 ^ 64 - (i - j))"
  using assms by (auto simp: unat_sub_if_size word_size word_nat)

lemma bytes_store_run:
  assumes "off + length xs \<le> n" and "j < n" and "n < 2 ^ 63"
  shows "bytes (store m (a + of_nat off) xs) (a + of_nat j) =
     (if off \<le> j \<and> j < off + length xs then xs ! (j - off) else bytes m (a + of_nat j))"
proof -
  have "unat (a + of_nat j - (a + of_nat off)) = unat (of_nat j - of_nat off :: u64)"
    by simp
  with assms unat_diff_of_nat [of off j] show ?thesis
    by (auto simp: bytes_store)
qed

lemma two_runs:
  fixes v d n L :: nat
  assumes "v < n" and "d < n" and "L \<le> n" and j: "j = (if v + d < n then v + d else v + d - n)"
  shows "(if j < L - (n - v) then X (n - v + j)
          else if v \<le> j \<and> j < v + min L (n - v) then X (j - v) else y) = (if d < L then X d else y)"
proof (cases "v + d < n")
  case True
  then have "\<not> j < L - (n - v)" and "j - v = d" and "v \<le> j \<and> j < v + min L (n - v) \<longleftrightarrow> d < L"
    using assms by auto
  then show ?thesis by simp
next
  case False
  then have "j < L - (n - v) \<longleftrightarrow> d < L" and "n - v + j = d" and "\<not> v \<le> j"
    using assms by auto
  then show ?thesis by simp
qed

text \<open>
  Writing \<open>xs\<close> at stream position \<open>w\<close> in two runs: the cells of positions \<open>w\<close> to
  \<open>w + length xs\<close> hold \<open>xs\<close>, the others are unchanged.
\<close>

definition ring_store :: "memory \<Rightarrow> ringbuffer \<Rightarrow> nat \<Rightarrow> u8 list \<Rightarrow> memory" where
  "ring_store m rb w xs =
     (let n = unat (rb_size rb); f = n - w mod n
      in store (store m (rb_data rb + of_nat (w mod n)) (take f xs)) (rb_data rb) (drop f xs))"

lemma cell_ring_store:
  assumes ok: "0 < unat (rb_size rb)" "unat (rb_size rb) < 2 ^ 63"
    and len: "length xs \<le> unat (rb_size rb)" and d: "d < unat (rb_size rb)"
  shows "cell (ring_store m rb w xs) rb (w + d) = (if d < length xs then xs ! d else cell m rb (w + d))"
proof -
  define n where "n = unat (rb_size rb)"
  define f where "f = n - w mod n"
  define j where "j = (w + d) mod n"
  have n: "0 < n" "n < 2 ^ 63" "length xs \<le> n" "d < n"
    using assms by (simp_all add: n_def)
  then have w: "w mod n < n" by simp
  have j: "j = (if w mod n + d < n then w mod n + d else w mod n + d - n)"
    using wrap_mod [OF n(4), of w] by (simp add: j_def)
  have jn: "j < n" using n by (simp add: j_def)
  have run2: "bytes (store m' (rb_data rb) (drop f xs)) (rb_data rb + of_nat j) =
      (if j < length xs - f then xs ! (f + j) else bytes m' (rb_data rb + of_nat j))" for m'
    using bytes_store_run [of 0 "drop f xs" n j m' "rb_data rb"] n jn by auto
  have fits: "w mod n + length (take f xs) \<le> n"
  proof -
    have "length (take f xs) \<le> n - w mod n" by (simp add: f_def)
    with w show ?thesis by linarith
  qed
  have run1: "bytes (store m (rb_data rb + of_nat (w mod n)) (take f xs)) (rb_data rb + of_nat j) =
      (if w mod n \<le> j \<and> j < w mod n + length (take f xs) then xs ! (j - w mod n)
       else bytes m (rb_data rb + of_nat j))"
    using bytes_store_run [of "w mod n" "take f xs" n j m "rb_data rb", OF fits jn n(2)] by auto
  have "cell (ring_store m rb w xs) rb (w + d) =
      (if j < length xs - f then xs ! (f + j)
       else if w mod n \<le> j \<and> j < w mod n + length (take f xs) then xs ! (j - w mod n)
       else bytes m (rb_data rb + of_nat j))"
    by (simp only: cell_def ring_store_def Let_def n_def [symmetric] f_def [symmetric]
        j_def [symmetric] run2 run1)
  also have "\<dots> = (if d < length xs then xs ! d else bytes m (rb_data rb + of_nat j))"
    unfolding f_def length_take by (rule two_runs [OF w n(4,3) j])
  finally show ?thesis
    by (simp only: cell_def n_def [symmetric] j_def [symmetric])
qed

lemma ring_store_frame:
  assumes ok: "0 < unat (rb_size rb)" "unat (rb_size rb) < 2 ^ 63"
    and len: "length xs \<le> unat (rb_size rb)" and out: "\<not> unat (a - rb_data rb) < unat (rb_size rb)"
  shows "bytes (ring_store m rb w xs) a = bytes m a"
proof -
  define n where "n = unat (rb_size rb)"
  define v where "v = w mod n"
  have v: "v < n" "n < 2 ^ 63" "length xs \<le> n" and u: "n \<le> unat (a - rb_data rb)"
    using assms by (simp_all add: v_def n_def)
  have "unat (a - (rb_data rb + of_nat v)) = unat (a - rb_data rb) - v"
    using v u by (simp add: unat_sub_le unat_of_nat_small flip: diff_diff_eq)
  moreover have "length (take (n - v) xs) \<le> n - v" "length (drop (n - v) xs) \<le> n"
    using v by simp_all
  ultimately show ?thesis
    using u v unfolding ring_store_def Let_def bytes_store n_def [symmetric] v_def [symmetric]
    by auto
qed

lemma ring_store_access [simp]:
  "readable (ring_store m rb w xs) = readable m" "writable (ring_store m rb w xs) = writable m"
  by (simp_all add: ring_store_def Let_def)

lemma drop_load: "drop k (load m a n) = load m (a + of_nat k) (n - k)"
  by (rule nth_equalityI) (auto simp: add.assoc simp flip: of_nat_add)

lemma load_two_runs:
  assumes ok: "0 < unat (rb_size rb)" and k: "k \<le> unat (rb_size rb)"
    and f: "f = min k (unat (rb_size rb) - r mod unat (rb_size rb))"
  shows "load m (rb_data rb + of_nat (r mod unat (rb_size rb))) f @ load m (rb_data rb) (k - f)
     = map (\<lambda>i. cell m rb (r + i)) [0..<k]"
proof (rule nth_equalityI)
  fix i
  define n where "n = unat (rb_size rb)"
  define v where "v = r mod n"
  have v: "v < n" using ok by (simp add: v_def n_def)
  assume "i < length (load m (rb_data rb + of_nat (r mod unat (rb_size rb))) f @ load m (rb_data rb) (k - f))"
  then have i: "i < k" using f by simp
  with k have "i < n" by (simp add: n_def)
  then have "(r + i) mod n = (if v + i < n then v + i else v + i - n)"
    using wrap_mod [of i n r] by (simp add: v_def)
  moreover have "f = min k (n - v)" using f by (simp add: n_def v_def)
  ultimately show "(load m (rb_data rb + of_nat (r mod unat (rb_size rb))) f @ load m (rb_data rb) (k - f)) ! i
      = map (\<lambda>i. cell m rb (r + i)) [0..<k] ! i"
    using i v by (auto simp: nth_append cell_def n_def [symmetric] v_def [symmetric] add.assoc
        add.commute [of i v] not_less le_diff_conv simp flip: of_nat_add)
qed (use f in simp)

lemma store_append:
  assumes "length xs + length ys \<le> 2 ^ 64"
  shows "store (store m a xs) (a + of_nat (length xs)) ys = store m a (xs @ ys)"
proof -
  have "bytes (store (store m a xs) (a + of_nat (length xs)) ys) b = bytes (store m a (xs @ ys)) b" for b
  proof (cases "ys = []")
    case False
    then have L: "unat (of_nat (length xs) :: u64) = length xs"
      using assms by (intro unat_of_nat_small) (cases ys; simp)
    have "unat (b - (a + of_nat (length xs))) = unat (b - a - of_nat (length xs))"
      by (simp add: diff_diff_eq)
    also have "\<dots> = (if length xs \<le> unat (b - a) then unat (b - a) - length xs
        else unat (b - a) + 2 ^ 64 - length xs)"
      unfolding unat_sub_if_size word_size L by simp
    finally show ?thesis
      using assms by (auto simp: bytes_store nth_append)
  qed simp
  then have "bytes (store (store m a xs) (a + of_nat (length xs)) ys) = bytes (store m a (xs @ ys))"
    by (rule ext)
  then show ?thesis
    by (intro memory.equality) simp_all
qed

subsection \<open>What the operations do\<close>

text \<open>The counts the operations compute, as numbers.\<close>

lemma word_eq_of_nat: "unat (x :: u64) = n \<Longrightarrow> x = of_nat n"
  by auto

lemma read_count:
  assumes "rb_ok rb" and "unat count < 2 ^ 63"
  shows "min_long count (RINGBUFFER_DATACOUNT rb) = of_nat (min (unat count) (rb_len rb))"
  using assms rb_len_le [of rb] by (intro word_eq_of_nat) (simp add: rb_ok_def word_nat)

lemma write_count:
  assumes "rb_ok rb" and "unat count < 2 ^ 63"
  shows "min_long count (rb_size rb - RINGBUFFER_DATACOUNT rb) = of_nat (min (unat count) (rb_free rb))"
proof (rule word_eq_of_nat)
  have "rb_free rb < 2 ^ 63" using assms by (auto simp: rb_ok_def rb_free_def)
  with assms show "unat (min_long count (rb_size rb - RINGBUFFER_DATACOUNT rb)) =
      min (unat count) (rb_free rb)"
    by (simp add: unat_min_long unat_freespace)
qed

lemma first_run:
  assumes "0 < unat n" and "unat n < 2 ^ 63" and "k \<le> unat n"
  shows "min_long (of_nat k) (n - w mod n) = of_nat (min k (unat n - unat w mod unat n))"
proof (rule word_eq_of_nat)
  have "unat w mod unat n < unat n" using assms(1) by simp
  then have "unat (n - w mod n) = unat n - unat w mod unat n"
    by (simp add: word_nat)
  moreover have "unat (of_nat k :: u64) = k" using assms by (simp add: word_nat)
  ultimately show "unat (min_long (of_nat k) (n - w mod n)) = min k (unat n - unat w mod unat n)"
    using assms by (simp add: unat_min_long)
qed

lemma mod_as_nat: "w mod n = of_nat (unat w mod unat (n :: u64))"
  by (rule word_eq_of_nat) (simp add: word_nat)

text \<open>
  The two runs of cells that hold \<open>k\<close> bytes from stream position \<open>w\<close> of a ring of \<open>n\<close> cells: \<open>f\<close>
  cells from offset \<open>v\<close>, and the rest from offset 0. Stated as the code computes them.
\<close>

lemma runs:
  assumes n: "0 < unat n" "unat n < 2 ^ 63" "k \<le> unat n"
  obtains v f where "v = unat w mod unat n" "f = min k (unat n - v)" "v < unat n" "v + f \<le> unat n"
    "f \<le> k" "k - f \<le> unat n" "f < 2 ^ 64" "k < 2 ^ 63" "w mod n = of_nat v"
    "min_long (of_nat k) (n - of_nat v) = of_nat f" "(of_nat f :: u64) = of_nat k \<longleftrightarrow> f = k"
proof -
  define v where "v = unat w mod unat n"
  define f where "f = min k (unat n - v)"
  have v: "v < unat n" using n by (simp add: v_def)
  have off: "w mod n = of_nat v" by (simp add: mod_as_nat v_def)
  have "min_long (of_nat k) (n - of_nat v) = of_nat f"
    using first_run [OF n, of w] by (simp add: f_def v_def off)
  moreover have "v + f \<le> unat n" "f \<le> k" "k - f \<le> unat n" "f < 2 ^ 64" "k < 2 ^ 63"
    using n v by (auto simp: f_def)
  moreover from this have "(of_nat f :: u64) = of_nat k \<longleftrightarrow> f = k"
    by (intro of_nat_inj_u64) auto
  ultimately show thesis
    using that [OF v_def f_def v] off by blast
qed

text \<open>Copying \<open>k\<close> bytes from a buffer into the two runs that start at position \<open>w\<close>.\<close>

lemma ringbuffer_write_eq:
  assumes ok: "rb_ok rb" and mem: "rb_mem m rb" and c: "unat count < 2 ^ 63"
    and k: "k = min (unat count) (rb_free rb)"
    and rd: "rd_region m buffer k" and ap: "apart (rb_data rb) (unat (rb_size rb)) buffer k"
  shows "ringbuffer_write m rb buffer count =
     Some (of_nat k, rb\<lparr>rb_write := rb_write rb + of_nat k\<rparr>,
           ring_store m rb (unat (rb_write rb)) (load m buffer k))"
proof -
  have n: "0 < unat (rb_size rb)" "unat (rb_size rb) < 2 ^ 63" "k \<le> unat (rb_size rb)"
    using ok k by (auto simp: rb_ok_def rb_free_def)
  from runs [OF n, of "rb_write rb"] obtain v f where v: "v = unat (rb_write rb) mod unat (rb_size rb)"
    and f: "f = min k (unat (rb_size rb) - v)" "v < unat (rb_size rb)"
    and fk: "v + f \<le> unat (rb_size rb)" "f \<le> k" "k - f \<le> unat (rb_size rb)" "f < 2 ^ 64" "k < 2 ^ 63"
    and off: "rb_write rb mod rb_size rb = of_nat v"
    and run: "min_long (of_nat k) (rb_size rb - of_nat v) = of_nat f"
    and eq: "(of_nat f :: u64) = of_nat k \<longleftrightarrow> f = k" .
  let ?m1 = "store m (rb_data rb + of_nat v) (load m buffer f)"
  have "rd_region m buffer f" "wr_region m (rb_data rb + of_nat v) f"
    "apart (rb_data rb + of_nat v) f buffer f"
    using rd_region_sub [OF rd, of 0 f] wr_region_sub [of m "rb_data rb" "unat (rb_size rb)" v f]
      apart_sub [OF ap, of v f 0 f] mem fk by (simp_all add: rb_mem_def)
  then have copy1: "USERCOPY_POSSIBLY_FROM_USER m (rb_data rb + of_nat v) buffer (of_nat f)
      = Some (E_OK, ?m1)"
    using fk by (intro from_user.copies_nat)
  have "apart (buffer + of_nat f) (k - f) (rb_data rb + of_nat v) f"
    using apart_sub [OF ap, of v f f "k - f"] fk by (simp add: apart_sym)
  then have ld: "load ?m1 (buffer + of_nat f) (k - f) = load m (buffer + of_nat f) (k - f)"
    by (simp add: load_store_apart)
  have "rd_region ?m1 (buffer + of_nat f) (k - f)" "wr_region ?m1 (rb_data rb) (k - f)"
    "apart (rb_data rb) (k - f) (buffer + of_nat f) (k - f)"
    using rd_region_sub [OF rd, of f "k - f"] wr_region_sub [of m "rb_data rb" "unat (rb_size rb)" 0 "k - f"]
      apart_sub [OF ap, of 0 "k - f" f "k - f"] mem fk by (simp_all add: rb_mem_def)
  then have copy2: "USERCOPY_POSSIBLY_FROM_USER ?m1 (rb_data rb) (buffer + of_nat f) (of_nat k - of_nat f)
      = Some (E_OK, store ?m1 (rb_data rb) (load m (buffer + of_nat f) (k - f)))"
    using from_user.copies_nat [of "k - f" ?m1 "buffer + of_nat f" "rb_data rb"] ld fk(2,5) by simp
  have rs: "ring_store m rb (unat (rb_write rb)) (load m buffer k)
      = store ?m1 (rb_data rb) (load m (buffer + of_nat f) (k - f))"
    using f fk by (auto simp: ring_store_def Let_def v [symmetric] take_load drop_load min_def)
  show ?thesis
    unfolding ringbuffer_write_def Let_def write_count [OF ok c] k [symmetric] off run copy1
    using rs by (auto simp: eq copy2)
qed

text \<open>With a copy routine, copying \<open>k\<close> bytes from stream position \<open>r\<close> to a buffer is two calls.\<close>

context copy_routine
begin

lemma copy_out:
  assumes n: "0 < unat (rb_size rb)" "unat (rb_size rb) < 2 ^ 63" "k \<le> unat (rb_size rb)"
    and mem: "rb_mem m rb" and wr: "wr_region m buffer k"
    and ap: "apart (rb_data rb) (unat (rb_size rb)) buffer k"
    and f: "f = min k (unat (rb_size rb) - r mod unat (rb_size rb))"
    and m1: "m1 = store m buffer (load m (rb_data rb + of_nat (r mod unat (rb_size rb))) f)"
  shows "cp m buffer (rb_data rb + of_nat (r mod unat (rb_size rb))) (of_nat f) = Some (E_OK, m1)"
    and "cp m1 (buffer + of_nat f) (rb_data rb) (of_nat k - of_nat f)
       = Some (E_OK, store m buffer (map (\<lambda>i. cell m rb (r + i)) [0..<k]))"
    and "f = k \<Longrightarrow> m1 = store m buffer (map (\<lambda>i. cell m rb (r + i)) [0..<k])"
proof -
  define v where "v = r mod unat (rb_size rb)"
  have v: "v < unat (rb_size rb)" using n by (simp add: v_def)
  have fk: "f \<le> k" "v + f \<le> unat (rb_size rb)" "k - f \<le> unat (rb_size rb)" "f < 2 ^ 64" "k < 2 ^ 64"
    using n v f by (auto simp: v_def)
  have "rd_region m (rb_data rb + of_nat v) f" "wr_region m buffer f"
    "apart buffer f (rb_data rb + of_nat v) f"
    using rd_region_sub [of m "rb_data rb" "unat (rb_size rb)" v f] wr_region_sub [OF wr, of 0 f]
      apart_sub [OF ap, of v f 0 f] mem fk by (simp_all add: rb_mem_def apart_sym)
  then show "cp m buffer (rb_data rb + of_nat (r mod unat (rb_size rb))) (of_nat f) = Some (E_OK, m1)"
    using fk unfolding m1 v_def by (intro copies_nat)
  have both: "store m1 (buffer + of_nat f) (load m (rb_data rb) (k - f))
      = store m buffer (map (\<lambda>i. cell m rb (r + i)) [0..<k])"
    using store_append [of "load m (rb_data rb + of_nat v) f" "load m (rb_data rb) (k - f)" m buffer]
      load_two_runs [OF n(1,3) f, of m] fk by (simp add: m1 v_def)
  have "apart (rb_data rb) (k - f) buffer f"
    using apart_sub [OF ap, of 0 "k - f" 0 f] fk by simp
  then have ld: "load m1 (rb_data rb) (k - f) = load m (rb_data rb) (k - f)"
    by (simp add: m1 load_store_apart)
  have "rd_region m1 (rb_data rb) (k - f)" "wr_region m1 (buffer + of_nat f) (k - f)"
    "apart (buffer + of_nat f) (k - f) (rb_data rb) (k - f)"
    using rd_region_sub [of m "rb_data rb" "unat (rb_size rb)" 0 "k - f"] wr_region_sub [OF wr, of f "k - f"]
      apart_sub [OF ap, of 0 "k - f" f "k - f"] mem fk by (simp_all add: rb_mem_def apart_sym m1)
  with copies_nat [of "k - f" m1 "rb_data rb" "buffer + of_nat f"]
  show "cp m1 (buffer + of_nat f) (rb_data rb) (of_nat k - of_nat f)
       = Some (E_OK, store m buffer (map (\<lambda>i. cell m rb (r + i)) [0..<k]))"
    using fk(1,5) by (simp add: ld both)
  show "f = k \<Longrightarrow> m1 = store m buffer (map (\<lambda>i. cell m rb (r + i)) [0..<k])"
    using both by simp
qed

end

lemma ringbuffer_read_eq:
  assumes ok: "rb_ok rb" and mem: "rb_mem m rb" and c: "unat count < 2 ^ 63"
    and k: "k = min (unat count) (rb_len rb)"
    and wr: "wr_region m buffer k" and ap: "apart (rb_data rb) (unat (rb_size rb)) buffer k"
  shows "ringbuffer_read m rb buffer count =
     Some (of_nat k, rb\<lparr>rb_read := rb_read rb + of_nat k\<rparr>, store m buffer (take k (contents m rb)))"
proof -
  have n: "0 < unat (rb_size rb)" "unat (rb_size rb) < 2 ^ 63" "k \<le> unat (rb_size rb)"
    using ok k rb_len_le [OF ok] by (auto simp: rb_ok_def)
  from runs [OF n, of "rb_read rb"] obtain v f where v: "v = unat (rb_read rb) mod unat (rb_size rb)"
    and f: "f = min k (unat (rb_size rb) - v)" and off: "rb_read rb mod rb_size rb = of_nat v"
    and run: "min_long (of_nat k) (rb_size rb - of_nat v) = of_nat f"
    and eq: "(of_nat f :: u64) = of_nat k \<longleftrightarrow> f = k" .
  have tk: "map (\<lambda>i. cell m rb (unat (rb_read rb) + i)) [0..<k] = take k (contents m rb)"
    using k by (simp add: contents_def take_map take_upt)
  note copy = from_user.copy_out [OF n mem wr ap f [unfolded v] refl, folded v, unfolded tk]
  show ?thesis
    unfolding ringbuffer_read_def Let_def read_count [OF ok c] k [symmetric] off run
    using copy(3) by (auto simp: eq copy(1,2))
qed

lemma ringbuffer_peek_eq:
  assumes ok: "rb_ok rb" and mem: "rb_mem m rb" and c: "unat count < 2 ^ 63"
    and off: "unat offset < rb_len rb" and nowrap: "unat (rb_read rb) + rb_len rb < 2 ^ 64"
    and k: "k = min (unat count) (rb_len rb - unat offset)"
    and wr: "wr_region m buffer k" and ap: "apart (rb_data rb) (unat (rb_size rb)) buffer k"
  shows "ringbuffer_peek m rb buffer offset count =
     Some (of_nat k, store m buffer (take k (drop (min (unat offset) (rb_free rb)) (contents m rb))))"
proof -
  define s where "s = min (unat offset) (rb_free rb)"
  define r where "r = unat (rb_read rb) + s"
  have n: "0 < unat (rb_size rb)" "unat (rb_size rb) < 2 ^ 63" "k \<le> unat (rb_size rb)"
    using ok k rb_len_le [OF ok] by (auto simp: rb_ok_def)
  have free: "rb_free rb < 2 ^ 63" "unat offset < 2 ^ 63"
    using n off rb_len_le [OF ok] by (auto simp: rb_free_def)
  then have "unat (min_long offset (rb_size rb - RINGBUFFER_DATACOUNT rb)) = s"
    by (simp add: unat_min_long unat_freespace [OF ok] s_def)
  then have read: "rb_read rb + min_long offset (rb_size rb - RINGBUFFER_DATACOUNT rb) = of_nat r"
    using nowrap off by (intro word_eq_of_nat) (simp add: unat_add_small r_def s_def)
  have "r < 2 ^ 64" using nowrap off by (simp add: r_def s_def)
  then have "unat (of_nat r :: u64) = r" by (rule unat_of_nat_small)
  with runs [OF n, of "of_nat r"] obtain v f where v: "v = r mod unat (rb_size rb)"
    and f: "f = min k (unat (rb_size rb) - v)" and modr: "(of_nat r :: u64) mod rb_size rb = of_nat v"
    and run: "min_long (of_nat k) (rb_size rb - of_nat v) = of_nat f"
    and eq: "(of_nat f :: u64) = of_nat k \<longleftrightarrow> f = k" by metis
  have ge: "\<not> RINGBUFFER_DATACOUNT rb \<le> offset"
    using off by (simp add: word_le_nat_alt unat_DATACOUNT [OF ok])
  have cnt: "min_long count (RINGBUFFER_DATACOUNT rb - offset) = of_nat k"
  proof (rule word_eq_of_nat)
    have "unat (RINGBUFFER_DATACOUNT rb - offset) = rb_len rb - unat offset"
      using off by (simp add: unat_sub_le unat_DATACOUNT [OF ok])
    with c n rb_len_le [OF ok] show "unat (min_long count (RINGBUFFER_DATACOUNT rb - offset)) = k"
      by (simp add: unat_min_long k)
  qed
  have tk: "map (\<lambda>i. cell m rb (r + i)) [0..<k] = take k (drop s (contents m rb))"
    using k off by (intro nth_equalityI) (auto simp: nth_contents r_def s_def add.assoc)
  note copy = to_user.copy_out [OF n mem wr ap f [unfolded v] refl, folded v, unfolded tk]
  show ?thesis
    unfolding ringbuffer_peek_def Let_def read cnt modr run s_def [symmetric]
    using copy(3) ge by (auto simp: eq copy(1,2))
qed

subsection \<open>Example state of the witnesses\<close>

text \<open>Three bytes queued in a ring of four cells that wraps, and memory that never faults.\<close>

definition ex_mem :: memory where
  "ex_mem = \<lparr>bytes = ucast, readable = \<lambda>_. True, writable = \<lambda>_. True\<rparr>"

definition ex_rb :: ringbuffer where
  "ex_rb = \<lparr>rb_size = 4, rb_write = 6, rb_read = 3, rb_data = 0xffff800000000000\<rparr>"

lemma ex_rb_ok: "rb_ok ex_rb" "rb_mem ex_mem ex_rb" "rb_len ex_rb = 3" "rb_free ex_rb = 1"
  by (simp_all add: rb_ok_def rb_mem_def rb_len_def rb_free_def rd_region_def wr_region_def ex_rb_def ex_mem_def)

lemma ex_regions: "rd_region ex_mem a n" "wr_region ex_mem a n"
  by (simp_all add: rd_region_def wr_region_def ex_mem_def)

lemma ex_apart: "k \<le> 4 \<Longrightarrow> apart (rb_data ex_rb) (unat (rb_size ex_rb)) 0x1000 k"
  by (intro apart_above) (simp_all add: ex_rb_def)

lemma ex_kernel: "\<forall>i<unat (rb_size ex_rb). \<not> IS_USER_ADDRESS (rb_data ex_rb + of_nat i)"
  by (intro kernel_region) (simp_all add: ex_rb_def USERSPACE_END_def)

subsection \<open>Properties\<close>

lemma contents_eqI:
  assumes "rb_data rb' = rb_data rb" and "rb_size rb' = rb_size rb" and "rb_len rb' = n" and "length xs = n"
    and "\<And>i. i < n \<Longrightarrow> cell m' rb (unat (rb_read rb') + i) = xs ! i"
  shows "contents m' rb' = xs"
  using assms by (intro nth_equalityI) (auto simp: nth_contents cell_def)

text \<open>Stream position \<open>r + i\<close>, counted from the write position: it lies \<open>d\<close> cells further around the ring.\<close>

lemma cell_behind:
  assumes "rb_ok rb" and "i < rb_len rb"
  shows "cell m rb (unat (rb_read rb) + i) =
      cell m rb (unat (rb_write rb) + (unat (rb_size rb) - rb_len rb + i))"
proof -
  have "unat (rb_write rb) + (unat (rb_size rb) - rb_len rb + i) = unat (rb_read rb) + i + unat (rb_size rb)"
    using assms rb_len_le [OF assms(1)] by (auto simp: rb_len_def rb_ok_def)
  then show ?thesis by (simp only: cell_def mod_add_self2)
qed

text \<open>
  C15: a write of \<open>count\<close> bytes queues as many as there is room for, in order, behind what is
  queued already, reports how many, keeps the buffer well-formed and touches no other memory.
\<close>

theorem ringbuffer_write_appends:
  assumes "rb_ok rb" and "rb_mem m rb" and "unat count < 2 ^ 63"
    and k: "k = min (unat count) (rb_free rb)"
    and "rd_region m buffer k" and "apart (rb_data rb) (unat (rb_size rb)) buffer k"
    and nowrap: "unat (rb_write rb) + k < 2 ^ 64"
  shows "\<exists>rb' m'. ringbuffer_write m rb buffer count = Some (of_nat k, rb', m') \<and> rb_ok rb'
     \<and> contents m' rb' = contents m rb @ load m buffer k
     \<and> (\<forall>a. \<not> unat (a - rb_data rb) < unat (rb_size rb) \<longrightarrow> bytes m' a = bytes m a)"
proof -
  let ?rb = "rb\<lparr>rb_write := rb_write rb + of_nat k\<rparr>"
  let ?m = "ring_store m rb (unat (rb_write rb)) (load m buffer k)"
  have n: "0 < unat (rb_size rb)" "unat (rb_size rb) < 2 ^ 63" "k + rb_len rb \<le> unat (rb_size rb)"
    "k \<le> unat (rb_size rb)"
    using assms(1) k rb_len_free [OF assms(1)] by (auto simp: rb_ok_def)
  have w: "unat (rb_write rb + of_nat k) = unat (rb_write rb) + k"
    using nowrap by (simp add: unat_add_small unat_of_nat_small)
  have le: "unat (rb_read rb) \<le> unat (rb_write rb)"
    using assms(1) by (simp add: rb_ok_def)
  have ok: "rb_ok ?rb" and len: "rb_len ?rb = rb_len rb + k"
    using assms(1) n(3) w le by (auto simp: rb_ok_def rb_len_def)
  have cells: "cell ?m rb (unat (rb_write rb) + d) =
      (if d < k then load m buffer k ! d else cell m rb (unat (rb_write rb) + d))"
    if "d < unat (rb_size rb)" for d
    using cell_ring_store [OF n(1,2) _ that, of "load m buffer k"] n(4) by simp
  have "contents ?m ?rb = contents m rb @ load m buffer k"
  proof (rule contents_eqI [where n = "rb_len rb + k" and rb = rb])
    fix i assume i: "i < rb_len rb + k"
    show "cell ?m rb (unat (rb_read ?rb) + i) = (contents m rb @ load m buffer k) ! i"
    proof (cases "i < rb_len rb")
      case True
      define d where "d = unat (rb_size rb) - rb_len rb + i"
      have d: "d < unat (rb_size rb)" "\<not> d < k"
        using True n(3) by (auto simp: d_def)
      have "cell m' rb (unat (rb_read rb) + i) = cell m' rb (unat (rb_write rb) + d)" for m'
        using cell_behind [OF assms(1) True] by (simp add: d_def)
      with cells [OF d(1)] d(2) True show ?thesis
        by (simp add: nth_append nth_contents)
    next
      case False
      define d where "d = i - rb_len rb"
      have d: "d < k" "d < unat (rb_size rb)"
        using i False n(3) by (auto simp: d_def)
      have "unat (rb_read rb) + i = unat (rb_write rb) + d"
        using le False by (auto simp: rb_len_def d_def)
      with cells [OF d(2)] d(1) False show ?thesis
        by (simp add: nth_append d_def [symmetric])
    qed
  qed (use len in simp_all)
  moreover have "bytes ?m a = bytes m a" if "\<not> unat (a - rb_data rb) < unat (rb_size rb)" for a
    using ring_store_frame [OF n(1,2) _ that] n(4) by simp
  ultimately show ?thesis
    using ringbuffer_write_eq [OF assms(1-6)] ok by blast
qed

theorem ringbuffer_write_appends_witness:
  "\<exists>rb' m'. ringbuffer_write ex_mem ex_rb 0x1000 2 = Some (of_nat 1, rb', m') \<and> rb_ok rb'
     \<and> contents m' rb' = contents ex_mem ex_rb @ load ex_mem 0x1000 1
     \<and> (\<forall>a. \<not> unat (a - rb_data ex_rb) < unat (rb_size ex_rb) \<longrightarrow> bytes m' a = bytes ex_mem a)"
  by (rule ringbuffer_write_appends) (simp_all add: ex_rb_ok ex_regions ex_apart, simp add: ex_rb_def)

text \<open>
  C16: a read of \<open>count\<close> bytes into writable memory delivers the oldest queued bytes, as many as
  asked for and available, and removes exactly those from the queue.
\<close>

theorem ringbuffer_read_takes:
  assumes "rb_ok rb" and "rb_mem m rb" and "unat count < 2 ^ 63"
    and k: "k = min (unat count) (rb_len rb)"
    and "wr_region m buffer k" and ap: "apart (rb_data rb) (unat (rb_size rb)) buffer k"
  shows "\<exists>rb' m'. ringbuffer_read m rb buffer count = Some (of_nat k, rb', m') \<and> rb_ok rb'
     \<and> load m' buffer k = take k (contents m rb) \<and> contents m' rb' = drop k (contents m rb)"
proof -
  let ?rb = "rb\<lparr>rb_read := rb_read rb + of_nat k\<rparr>"
  let ?m = "store m buffer (take k (contents m rb))"
  have n: "unat (rb_size rb) < 2 ^ 63" "k \<le> rb_len rb" "rb_len rb \<le> unat (rb_size rb)" "k < 2 ^ 63"
    using assms(1,3) k rb_len_le [OF assms(1)] by (auto simp: rb_ok_def)
  have r: "unat (rb_read rb + of_nat k) = unat (rb_read rb) + k"
  proof -
    have "unat (rb_read rb) + k \<le> unat (rb_write rb)"
      using assms(1) n(2) by (auto simp: rb_ok_def rb_len_def)
    with unat_lt_64 [of "rb_write rb"] have "unat (rb_read rb) + k < 2 ^ 64" by linarith
    with n show ?thesis by (simp add: unat_add_small unat_of_nat_small)
  qed
  have ok: "rb_ok ?rb" and len: "rb_len ?rb = rb_len rb - k"
    using assms(1) n(2) r by (auto simp: rb_ok_def rb_len_def)
  have "load ?m buffer k = take k (contents m rb)"
    using n by (intro nth_equalityI) (auto simp: bytes_store unat_of_nat_small)
  moreover have "contents ?m ?rb = drop k (contents m rb)"
  proof (rule contents_eqI [where n = "rb_len rb - k" and rb = rb])
    fix i assume i: "i < rb_len rb - k"
    have "cell ?m rb j = cell m rb j" for j
    proof -
      have "j mod unat (rb_size rb) < unat (rb_size rb)"
        using assms(1) by (simp add: rb_ok_def)
      from apart_offset [OF ap this] have
        "\<not> unat (rb_data rb + of_nat (j mod unat (rb_size rb)) - buffer) < length (take k (contents m rb))"
        using n(2) by simp
      then show ?thesis
        by (simp only: cell_def bytes_store if_False)
    qed
    with i r show "cell ?m rb (unat (rb_read ?rb) + i) = drop k (contents m rb) ! i"
      by (simp add: nth_contents add.assoc)
  qed (use len in simp_all)
  ultimately show ?thesis
    using ringbuffer_read_eq [OF assms] ok by blast
qed

theorem ringbuffer_read_takes_witness:
  "\<exists>rb' m'. ringbuffer_read ex_mem ex_rb 0x1000 2 = Some (of_nat 2, rb', m') \<and> rb_ok rb'
     \<and> load m' 0x1000 2 = take 2 (contents ex_mem ex_rb) \<and> contents m' rb' = drop 2 (contents ex_mem ex_rb)"
  by (rule ringbuffer_read_takes) (simp_all add: ex_rb_ok ex_regions ex_apart)

text \<open>
  C40: what \<open>ringbuffer_peek\<close> delivers for an offset inside the queued data. The bytes come from
  offset \<open>min offset (free space)\<close> of the queue, which is the requested offset only while at least
  that many cells are free; on a full buffer every offset reads from the front.
\<close>

theorem ringbuffer_peek_delivers:
  assumes "rb_ok rb" and "rb_mem m rb" and "unat count < 2 ^ 63" and "unat offset < rb_len rb"
    and k: "k = min (unat count) (rb_len rb - unat offset)"
    and "wr_region m buffer k" and "apart (rb_data rb) (unat (rb_size rb)) buffer k"
  shows "\<exists>m'. ringbuffer_peek m rb buffer offset count = Some (of_nat k, m')
     \<and> load m' buffer k = take k (drop (min (unat offset) (rb_free rb)) (contents m rb))"
proof -
  have "unat (rb_read rb) + rb_len rb = unat (rb_write rb)"
    using assms(1) by (simp add: rb_ok_def rb_len_def)
  then have nowrap: "unat (rb_read rb) + rb_len rb < 2 ^ 64" by simp
  let ?xs = "take k (drop (min (unat offset) (rb_free rb)) (contents m rb))"
  have "k < 2 ^ 63" "length ?xs = k"
    using assms(3,4) k by auto
  then have "load (store m buffer ?xs) buffer k = ?xs"
    by (intro nth_equalityI) (auto simp: bytes_store unat_of_nat_small)
  with ringbuffer_peek_eq [OF assms(1-4) nowrap assms(5-7)] show ?thesis by blast
qed

theorem ringbuffer_peek_delivers_witness:
  "\<exists>m'. ringbuffer_peek ex_mem ex_rb 0x1000 2 1 = Some (of_nat 1, m')
     \<and> load m' 0x1000 1 = take 1 (drop (min (unat (2 :: u64)) (rb_free ex_rb)) (contents ex_mem ex_rb))"
  by (rule ringbuffer_peek_delivers) (simp_all add: ex_rb_ok ex_regions ex_apart)

text \<open>The cells a faulting write may have touched: none further than \<open>k\<close> from the write position.\<close>

lemma outside_runs:
  assumes "v = w mod n" and "f = min k (n - v)" and "v < n" and "k \<le> n" and d: "d < (n :: nat)" "k \<le> d"
  shows "\<not> (w + d) mod n < k - f \<and> \<not> (v \<le> (w + d) mod n \<and> (w + d) mod n < v + f)"
proof -
  have "(w + d) mod n = (if v + d < n then v + d else v + d - n)"
    using wrap_mod [OF d(1), of w] assms(1) by simp
  from two_runs [OF assms(3) d(1) assms(4) this, of "\<lambda>_. True" False] d(2)
  show ?thesis by (auto simp: assms(2) min_def split: if_splits)
qed

lemma runs_frame:
  assumes copy1: "USERCOPY_POSSIBLY_FROM_USER m (a + of_nat v) buffer (of_nat f) = Some (e, m1)"
    and copy2: "m' = m1 \<or> USERCOPY_POSSIBLY_FROM_USER m1 a (buffer + of_nat f) (of_nat k - of_nat f) = Some (e', m')"
    and b: "v < n" "n < 2 ^ 63" "v + f \<le> n" "f \<le> k" "k < 2 ^ 63"
    and j: "j < n" "\<not> j < k - f" "\<not> (v \<le> j \<and> j < v + f)"
  shows "bytes m' (a + of_nat j) = bytes m (a + of_nat j)"
proof -
  have "unat (of_nat f :: u64) = f" "unat (of_nat k - of_nat f :: u64) = k - f"
    using b unat_diff_of_nat [of f k] by (simp_all add: unat_of_nat_small)
  moreover have "unat (a + of_nat j - (a + of_nat v)) = (if v \<le> j then j - v else 2 ^ 64 - (v - j))"
    using j b unat_diff_of_nat [of v j] by simp
  moreover have "unat (a + of_nat j - a) = j"
    using j b by (simp add: unat_of_nat_small)
  ultimately have "\<not> unat (a + of_nat j - (a + of_nat v)) < unat (of_nat f :: u64)"
    "\<not> unat (a + of_nat j - a) < unat (of_nat k - of_nat f :: u64)"
    using j b by (auto simp del: add_diff_cancel_left)
  with copy1 copy2 show ?thesis
    by (metis FROM_USER_frame)
qed

lemma of_nat_not_failed: "k < 2 ^ 63 \<Longrightarrow> (of_nat k :: u64) \<noteq> RINGBUFFER_USER_COPY_FAILED"
proof
  assume "k < 2 ^ 63" and "(of_nat k :: u64) = RINGBUFFER_USER_COPY_FAILED"
  then have "unat (of_nat k :: u64) = 2 ^ 64 - 1"
    by (simp add: RINGBUFFER_USER_COPY_FAILED_def unsigned_minus_1_eq_mask mask_eq_exp_minus_1)
  with \<open>k < 2 ^ 63\<close> show False by (simp add: unat_of_nat_small)
qed



text \<open>
  A read whose destination faults does not report \<open>RINGBUFFER_USER_COPY_FAILED\<close>. The copy
  macro tests the ring's own address, which is a kernel address, so the user's page is written
  without protection and the fault is fatal.
\<close>

theorem ringbuffer_read_fault_panics:
  assumes ok: "rb_ok rb" and c: "unat count < 2 ^ 63" and pos: "0 < unat count" "0 < rb_len rb"
    and kern: "\<forall>i<unat (rb_size rb). \<not> IS_USER_ADDRESS (rb_data rb + of_nat i)"
    and fault: "\<not> writable m buffer"
  shows "ringbuffer_read m rb buffer count = None"
proof -
  define k where "k = min (unat count) (rb_len rb)"
  have n: "0 < unat (rb_size rb)" "unat (rb_size rb) < 2 ^ 63" "k \<le> unat (rb_size rb)"
    using ok rb_len_le [OF ok] by (auto simp: rb_ok_def k_def)
  from runs [OF n, of "rb_read rb"] obtain v f where f: "f = min k (unat (rb_size rb) - v)"
    and v: "v < unat (rb_size rb)" and off: "rb_read rb mod rb_size rb = of_nat v"
    and run: "min_long (of_nat k) (rb_size rb - of_nat v) = of_nat f" .
  have "0 < f" "f < 2 ^ 64" using n v pos by (auto simp: f k_def)
  then obtain f' where "unat (of_nat f :: u64) = Suc f'"
    by (cases f) (auto simp: unat_of_nat_small simp del: of_nat_Suc)
  with kern v fault have
    "USERCOPY_POSSIBLY_FROM_USER m buffer (rb_data rb + of_nat v) (of_nat f) = None"
    by (simp add: USERCOPY_POSSIBLY_FROM_USER_def usercopy_memcpy_wrapper_def unguarded_def memcpy_def)
  then show ?thesis
    unfolding ringbuffer_read_def Let_def read_count [OF ok c] k_def [symmetric] off run by simp
qed

theorem ringbuffer_read_fault_panics_witness:
  "ringbuffer_read (ex_mem\<lparr>writable := \<lambda>a. a \<noteq> 0x1000\<rparr>) ex_rb 0x1000 2 = None"
  by (rule ringbuffer_read_fault_panics) (simp_all add: ex_rb_ok ex_kernel)

end
