(* ===== verification/Iovec.thy ===== *)
theory Iovec
  imports Ringbuffer
begin

text \<open>
  Scatter/gather iterators of \<^verbatim>\<open>src/kernel-src/io/iovec.c\<close>.

  An \<open>iovec_iterator\<close> walks an array of (address, length) pairs as one byte stream. The array is a
  list and the pointer \<open>current\<close> an index into it; reading through it outside the array is
  undefined in C and gives \<open>None\<close> here, as does a loop that does not end or a panic.
  \<open>it_ok\<close> relates the fields: the total offset is the length of the entries before \<open>current\<close> plus
  the offset in it. The lemmas show that skipping moves the position in the stream and nothing
  else, that a copy out of the stream gathers the right bytes, and where error recovery and short
  ring writes leave the iterator.
\<close>

record iovec =
  iov_addr :: addr
  iov_len :: u64

record iovec_iterator =
  it_iovec :: "iovec list"
  it_current :: nat
  it_current_offset :: u64
  it_total_offset :: u64
  it_total_size :: u64

definition iovec_iterator_finished :: "iovec_iterator \<Rightarrow> bool" where
  "iovec_iterator_finished it \<longleftrightarrow> it_total_size it = it_total_offset it"

fun iovec_user_check :: "iovec list \<Rightarrow> bool" where
  "iovec_user_check [] = True"
| "iovec_user_check (v # vs) = (if \<not> IS_USER_ADDRESS (iov_addr v) then False else iovec_user_check vs)"

fun iovec_size_loop :: "u64 \<Rightarrow> iovec list \<Rightarrow> u64" where
  "iovec_size_loop sz [] = sz"
| "iovec_size_loop sz (v # vs) = iovec_size_loop (sz + iov_len v) vs"

definition iovec_size :: "iovec list \<Rightarrow> u64" where
  "iovec_size vs = iovec_size_loop 0 vs"

definition iovec_iterator_init :: "iovec list \<Rightarrow> iovec_iterator" where
  "iovec_iterator_init vs =
     \<lparr>it_iovec = vs, it_current = 0, it_current_offset = 0, it_total_offset = 0,
      it_total_size = iovec_size vs\<rparr>"

text \<open>\<open>*iovec_iterator->current\<close>, \<open>None\<close> outside the array.\<close>

definition current_iovec :: "iovec_iterator \<Rightarrow> iovec option" where
  "current_iovec it =
     (if it_current it < length (it_iovec it) then Some (it_iovec it ! it_current it) else None)"

definition skip_step :: "iovec_iterator \<Rightarrow> iovec \<Rightarrow> u64 \<Rightarrow> iovec_iterator \<times> u64" where
  "skip_step it v skip_count =
     (let remaining_current = iov_len v - it_current_offset it;
          skip_current = min_long remaining_current skip_count;
          skip_count = skip_count - skip_current;
          it = it\<lparr>it_total_offset := it_total_offset it + skip_current,
                  it_current_offset := it_current_offset it + skip_current\<rparr>;
          it = (if it_current_offset it = iov_len v \<and> \<not> iovec_iterator_finished it
                then it\<lparr>it_current := it_current it + 1, it_current_offset := 0\<rparr> else it)
      in (it, skip_count))"

partial_function (option) skip_loop :: "iovec_iterator \<Rightarrow> u64 \<Rightarrow> iovec_iterator option" where
  "skip_loop it skip_count =
     (case current_iovec it of None \<Rightarrow> None | Some v \<Rightarrow>
       (case skip_step it v skip_count of (it, skip_count) \<Rightarrow>
         if skip_count = 0 \<or> iovec_iterator_finished it then Some it
         else skip_loop it skip_count))"

definition iovec_iterator_skip :: "iovec_iterator \<Rightarrow> u64 \<Rightarrow> (u64 \<times> iovec_iterator) option" where
  "iovec_iterator_skip it skip_count =
     map_option (\<lambda>it. (it_total_size it - it_total_offset it, it)) (skip_loop it skip_count)"

definition iovec_iterator_set :: "iovec_iterator \<Rightarrow> u64 \<Rightarrow> (u64 \<times> iovec_iterator) option" where
  "iovec_iterator_set it offset =
     iovec_iterator_skip
       (it\<lparr>it_current := it_current it, it_current_offset := 0, it_total_offset := 0\<rparr>) offset"

definition iovec_iterator_total_offset :: "iovec_iterator \<Rightarrow> u64" where
  "iovec_iterator_total_offset it = it_total_offset it"

text \<open>The common end of the copy loops: on an error the iterator is set back to where it was.\<close>

definition restore_on_error ::
    "u64 \<Rightarrow> (errno \<times> iovec_iterator \<times> memory) option \<Rightarrow> (errno \<times> iovec_iterator \<times> memory) option" where
  "restore_on_error save r =
     (case r of None \<Rightarrow> None | Some (error, it, m) \<Rightarrow>
        if error \<noteq> E_OK
        then map_option (\<lambda>(_, it). (error, it, m)) (iovec_iterator_set it save)
        else Some (error, it, m))"

partial_function (option) copy_to_buffer_loop ::
    "memory \<Rightarrow> iovec_iterator \<Rightarrow> addr \<Rightarrow> u64 \<Rightarrow> u64 \<Rightarrow> (errno \<times> iovec_iterator \<times> memory) option" where
  "copy_to_buffer_loop m it buffer total_done remaining_total =
     (case current_iovec it of None \<Rightarrow> None | Some v \<Rightarrow>
       (let remaining_current = iov_len v - it_current_offset it;
            copy_current = min_long remaining_current remaining_total
        in case USERCOPY_POSSIBLY_FROM_USER m (buffer + total_done)
                  (iov_addr v + it_current_offset it) copy_current of
             None \<Rightarrow> None
           | Some (error, m) \<Rightarrow>
               if error \<noteq> E_OK then Some (error, it, m)
               else case iovec_iterator_skip it copy_current of
                      None \<Rightarrow> None
                    | Some (_, it) \<Rightarrow>
                        if iovec_iterator_finished it \<or> remaining_total - copy_current = 0
                        then Some (E_OK, it, m)
                        else copy_to_buffer_loop m it buffer (total_done + copy_current)
                               (remaining_total - copy_current)))"

definition iovec_iterator_copy_to_buffer ::
    "memory \<Rightarrow> iovec_iterator \<Rightarrow> addr \<Rightarrow> u64 \<Rightarrow> (errno \<times> iovec_iterator \<times> memory) option" where
  "iovec_iterator_copy_to_buffer m it buffer byte_count =
     restore_on_error (it_total_offset it)
       (copy_to_buffer_loop m it buffer 0
          (min_long byte_count (it_total_size it - it_total_offset it)))"

partial_function (option) copy_from_buffer_loop ::
    "memory \<Rightarrow> iovec_iterator \<Rightarrow> addr \<Rightarrow> u64 \<Rightarrow> u64 \<Rightarrow> (errno \<times> iovec_iterator \<times> memory) option" where
  "copy_from_buffer_loop m it buffer total_done remaining_total =
     (case current_iovec it of None \<Rightarrow> None | Some v \<Rightarrow>
       (let remaining_current = iov_len v - it_current_offset it;
            copy_current = min_long remaining_current remaining_total
        in case USERCOPY_POSSIBLY_FROM_USER m (iov_addr v + it_current_offset it)
                  (buffer + total_done) copy_current of
             None \<Rightarrow> None
           | Some (error, m) \<Rightarrow>
               if error \<noteq> E_OK then Some (error, it, m)
               else case iovec_iterator_skip it copy_current of
                      None \<Rightarrow> None
                    | Some (_, it) \<Rightarrow>
                        if iovec_iterator_finished it \<or> remaining_total - copy_current = 0
                        then Some (E_OK, it, m)
                        else copy_from_buffer_loop m it buffer (total_done + copy_current)
                               (remaining_total - copy_current)))"

definition iovec_iterator_copy_from_buffer ::
    "memory \<Rightarrow> iovec_iterator \<Rightarrow> addr \<Rightarrow> u64 \<Rightarrow> (errno \<times> iovec_iterator \<times> memory) option" where
  "iovec_iterator_copy_from_buffer m it buffer byte_count =
     restore_on_error (it_total_offset it)
       (copy_from_buffer_loop m it buffer 0
          (min_long byte_count (it_total_size it - it_total_offset it)))"

partial_function (option) iovec_memset_loop ::
    "memory \<Rightarrow> iovec_iterator \<Rightarrow> u8 \<Rightarrow> u64 \<Rightarrow> (errno \<times> iovec_iterator \<times> memory) option" where
  "iovec_memset_loop m it byte remaining_total =
     (case current_iovec it of None \<Rightarrow> None | Some v \<Rightarrow>
       (let remaining_current = iov_len v - it_current_offset it;
            copy_current = min_long remaining_current remaining_total
        in case USERCOPY_POSSIBLY_MEMSET_TO_USER m (iov_addr v + it_current_offset it) byte copy_current of
             None \<Rightarrow> None
           | Some (error, m) \<Rightarrow>
               if error \<noteq> E_OK then Some (error, it, m)
               else case iovec_iterator_skip it copy_current of
                      None \<Rightarrow> None
                    | Some (_, it) \<Rightarrow>
                        if iovec_iterator_finished it \<or> remaining_total - copy_current = 0
                        then Some (E_OK, it, m)
                        else iovec_memset_loop m it byte (remaining_total - copy_current)))"

definition iovec_iterator_memset ::
    "memory \<Rightarrow> iovec_iterator \<Rightarrow> u8 \<Rightarrow> u64 \<Rightarrow> (errno \<times> iovec_iterator \<times> memory) option" where
  "iovec_iterator_memset m it byte byte_count =
     restore_on_error (it_total_offset it)
       (iovec_memset_loop m it byte (min_long byte_count (it_total_size it - it_total_offset it)))"

text \<open>
  The ring transfers. The loop returns the last count the ring reported, the bytes done, and the
  state; a copy that failed undoes the bytes queued and sets the iterator back.
\<close>

partial_function (option) write_to_ringbuffer_loop ::
    "memory \<Rightarrow> iovec_iterator \<Rightarrow> ringbuffer \<Rightarrow> u64 \<Rightarrow> u64 \<Rightarrow> u64
     \<Rightarrow> (u64 \<times> u64 \<times> iovec_iterator \<times> ringbuffer \<times> memory) option" where
  "write_to_ringbuffer_loop m it rb byte_count remaining_total total_done =
     (case current_iovec it of None \<Rightarrow> None | Some v \<Rightarrow>
       (let remaining_current = iov_len v - it_current_offset it;
            copy_current = min_long remaining_current remaining_total
        in case ringbuffer_write m rb (iov_addr v + it_current_offset it) copy_current of
             None \<Rightarrow> None
           | Some (current_done, rb, m) \<Rightarrow>
               if current_done = RINGBUFFER_USER_COPY_FAILED
               then Some (current_done, total_done, it, snd (ringbuffer_remove rb total_done), m)
               else if current_done = 0 then Some (current_done, total_done, it, rb, m)
               else case iovec_iterator_skip it copy_current of
                      None \<Rightarrow> None
                    | Some (_, it) \<Rightarrow>
                        if total_done + current_done = byte_count \<or> iovec_iterator_finished it
                        then Some (current_done, total_done + current_done, it, rb, m)
                        else write_to_ringbuffer_loop m it rb byte_count
                               (remaining_total - current_done) (total_done + current_done)))"

definition iovec_iterator_write_to_ringbuffer ::
    "memory \<Rightarrow> iovec_iterator \<Rightarrow> ringbuffer \<Rightarrow> u64
     \<Rightarrow> (u64 \<times> iovec_iterator \<times> ringbuffer \<times> memory) option" where
  "iovec_iterator_write_to_ringbuffer m it rb byte_count =
     (case write_to_ringbuffer_loop m it rb byte_count
             (min_long byte_count (it_total_size it - it_total_offset it)) 0 of
        None \<Rightarrow> None
      | Some (current_done, total_done, it', rb, m) \<Rightarrow>
          if current_done = RINGBUFFER_USER_COPY_FAILED
          then map_option (\<lambda>(_, it'). (RINGBUFFER_USER_COPY_FAILED, it', rb, m))
                 (iovec_iterator_set it' (it_total_offset it))
          else Some (total_done, it', rb, m))"

partial_function (option) peek_from_ringbuffer_loop ::
    "memory \<Rightarrow> iovec_iterator \<Rightarrow> ringbuffer \<Rightarrow> u64 \<Rightarrow> u64 \<Rightarrow> u64 \<Rightarrow> u64
     \<Rightarrow> (u64 \<times> u64 \<times> iovec_iterator \<times> memory) option" where
  "peek_from_ringbuffer_loop m it rb offset byte_count remaining_total total_done =
     (case current_iovec it of None \<Rightarrow> None | Some v \<Rightarrow>
       (let remaining_current = iov_len v - it_current_offset it;
            copy_current = min_long remaining_current remaining_total
        in case ringbuffer_peek m rb (iov_addr v + it_current_offset it) (offset + total_done) copy_current of
             None \<Rightarrow> None
           | Some (current_done, m) \<Rightarrow>
               if current_done = 0 \<or> current_done = RINGBUFFER_USER_COPY_FAILED
               then Some (current_done, total_done, it, m)
               else case iovec_iterator_skip it copy_current of
                      None \<Rightarrow> None
                    | Some (_, it) \<Rightarrow>
                        if total_done + current_done = byte_count \<or> iovec_iterator_finished it
                        then Some (current_done, total_done + current_done, it, m)
                        else peek_from_ringbuffer_loop m it rb offset byte_count
                               (remaining_total - current_done) (total_done + current_done)))"

definition iovec_iterator_peek_from_ringbuffer ::
    "memory \<Rightarrow> iovec_iterator \<Rightarrow> ringbuffer \<Rightarrow> u64 \<Rightarrow> u64 \<Rightarrow> (u64 \<times> iovec_iterator \<times> memory) option" where
  "iovec_iterator_peek_from_ringbuffer m it rb offset byte_count =
     (case peek_from_ringbuffer_loop m it rb offset byte_count
             (min_long byte_count (it_total_size it - it_total_offset it)) 0 of
        None \<Rightarrow> None
      | Some (current_done, total_done, it', m) \<Rightarrow>
          if current_done = RINGBUFFER_USER_COPY_FAILED
          then map_option (\<lambda>(_, it'). (RINGBUFFER_USER_COPY_FAILED, it', m))
                 (iovec_iterator_set it' (it_total_offset it))
          else Some (total_done, it', m))"

definition iovec_iterator_read_from_ringbuffer ::
    "memory \<Rightarrow> iovec_iterator \<Rightarrow> ringbuffer \<Rightarrow> u64 \<Rightarrow> (u64 \<times> iovec_iterator \<times> ringbuffer \<times> memory) option" where
  "iovec_iterator_read_from_ringbuffer m it rb byte_count =
     (case iovec_iterator_peek_from_ringbuffer m it rb 0 byte_count of
        None \<Rightarrow> None
      | Some (done, it, m) \<Rightarrow>
          if done = RINGBUFFER_USER_COPY_FAILED then Some (done, it, rb, m)
          else Some (done, it, snd (ringbuffer_truncate rb done), m))"

text \<open>
  \<open>iovec_iterator_next_page\<close> returns the offset in the page, the byte count and the page.
  \<open>vmm_getphysical\<close> stands for the address translation: a page address to its frame, \<open>None\<close> for an
  unmapped page; a \<open>None\<close> page is the code's NULL at the end of the entry.
\<close>

definition iovec_iterator_next_page ::
    "(addr \<Rightarrow> addr option) \<Rightarrow> iovec_iterator
     \<Rightarrow> (errno \<times> (u64 \<times> u64 \<times> addr) option \<times> iovec_iterator) option" where
  "iovec_iterator_next_page vmm_getphysical it =
     (case current_iovec it of None \<Rightarrow> None | Some v \<Rightarrow>
       (let a = iov_addr v + it_current_offset it;
            offset_in_page = a mod PAGE_SIZE;
            remaining = iov_len v - it_current_offset it
        in if remaining = 0 then Some (E_OK, None, it)
           else case vmm_getphysical (a - offset_in_page) of
                  None \<Rightarrow> Some (EFAULT, None, it)
                | Some phys \<Rightarrow>
                    let page_remaining = min_long PAGE_SIZE remaining
                    in map_option (\<lambda>(_, it). (E_OK, Some (offset_in_page, page_remaining, phys), it))
                         (iovec_iterator_skip it page_remaining)))"


subsection \<open>The position in the stream\<close>

definition iov_total :: "iovec list \<Rightarrow> nat" where
  "iov_total vs = (\<Sum>v\<leftarrow>vs. unat (iov_len v))"

definition it_pos :: "iovec_iterator \<Rightarrow> nat" where
  "it_pos it = unat (it_total_offset it)"

definition it_ok :: "iovec_iterator \<Rightarrow> bool" where
  "it_ok it \<longleftrightarrow>
     iov_total (it_iovec it) < 2 ^ 63 \<and> unat (it_total_size it) = iov_total (it_iovec it)
     \<and> it_current it < length (it_iovec it)
     \<and> unat (it_current_offset it) \<le> unat (iov_len (it_iovec it ! it_current it))
     \<and> it_pos it = iov_total (take (it_current it) (it_iovec it)) + unat (it_current_offset it)"

lemma iov_total_simps [simp]:
  "iov_total [] = 0" "iov_total (v # vs) = unat (iov_len v) + iov_total vs"
  "iov_total (vs @ ws) = iov_total vs + iov_total ws"
  by (simp_all add: iov_total_def)

lemma iov_total_take_Suc:
  "k < length vs \<Longrightarrow> iov_total (take (Suc k) vs) = iov_total (take k vs) + unat (iov_len (vs ! k))"
  by (simp add: take_Suc_conv_app_nth)

lemma iov_total_take_le: "iov_total (take k vs) \<le> iov_total vs"
  using iov_total_simps(3) [of "take k vs" "drop k vs"] by (simp del: iov_total_simps(3))

lemma iov_total_take_mono: "j \<le> k \<Longrightarrow> iov_total (take j vs) \<le> iov_total (take k vs)"
  using iov_total_take_le [of j "take k vs"] by (simp add: min_absorb1)

lemma iovec_size_loop_eq: "iovec_size_loop sz vs = sz + of_nat (iov_total vs)"
  by (induction vs arbitrary: sz) (simp_all add: add.assoc)

lemma unat_iovec_size: "iov_total vs < 2 ^ 64 \<Longrightarrow> unat (iovec_size vs) = iov_total vs"
  by (simp add: iovec_size_def iovec_size_loop_eq unat_of_nat_small)

lemma it_ok_init: "vs \<noteq> [] \<Longrightarrow> iov_total vs < 2 ^ 63 \<Longrightarrow> it_ok (iovec_iterator_init vs)"
  by (simp add: it_ok_def it_pos_def iovec_iterator_init_def unat_iovec_size)

lemma it_ok_entry:
  assumes "it_ok it"
  shows "current_iovec it = Some (it_iovec it ! it_current it)"
    and "it_pos it + (unat (iov_len (it_iovec it ! it_current it)) - unat (it_current_offset it))
         = iov_total (take (Suc (it_current it)) (it_iovec it))"
    and "it_pos it \<le> iov_total (it_iovec it)"
  using assms iov_total_take_le [of "Suc (it_current it)" "it_iovec it"]
  by (auto simp: it_ok_def current_iovec_def iov_total_take_Suc)

lemma finished_pos: "it_ok it \<Longrightarrow> iovec_iterator_finished it \<longleftrightarrow> it_pos it = iov_total (it_iovec it)"
  by (auto simp: it_ok_def it_pos_def iovec_iterator_finished_def word_unat_eq_iff)

definition it_room :: "iovec_iterator \<Rightarrow> nat" where
  "it_room it = unat (iov_len (it_iovec it ! it_current it)) - unat (it_current_offset it)"

lemma remaining_current:
  assumes "it_ok it"
  shows "unat (iov_len (it_iovec it ! it_current it) - it_current_offset it) = it_room it"
    and "it_room it < 2 ^ 63" and "it_pos it + it_room it \<le> iov_total (it_iovec it)"
proof -
  show "unat (iov_len (it_iovec it ! it_current it) - it_current_offset it) = it_room it"
    using assms by (simp add: it_ok_def it_room_def unat_sub_le)
  show "it_pos it + it_room it \<le> iov_total (it_iovec it)"
    using it_ok_entry(2) [OF assms] iov_total_take_le [of "Suc (it_current it)" "it_iovec it"]
    by (simp add: it_room_def)
  with assms show "it_room it < 2 ^ 63" by (simp add: it_ok_def)
qed

text \<open>One round of the skip loop: it goes to the end of the entry at most, and past it to the next.\<close>

lemma skip_step_ok:
  assumes ok: "it_ok it" and n: "unat n < 2 ^ 63"
    and step: "skip_step it (it_iovec it ! it_current it) n = (it', n')"
  shows "it_ok it'" and "it_iovec it' = it_iovec it" and "it_total_size it' = it_total_size it"
    and "it_pos it' = it_pos it + min (it_room it) (unat n)"
    and "unat n' = unat n - min (it_room it) (unat n)"
    and "unat n < it_room it \<or> iovec_iterator_finished it' \<or> it_current it' = Suc (it_current it)"
proof -
  let ?v = "it_iovec it ! it_current it"
  define s where "s = min_long (iov_len ?v - it_current_offset it) n"
  define mid where "mid = it\<lparr>it_total_offset := it_total_offset it + s,
                             it_current_offset := it_current_offset it + s\<rparr>"
  note room = remaining_current [OF ok]
  have s: "unat s = min (it_room it) (unat n)"
    using room n by (simp add: s_def unat_min_long)
  have le: "unat (it_current_offset it) + unat s \<le> unat (iov_len ?v)"
    using ok s by (auto simp: it_ok_def it_room_def)
  then have co: "unat (it_current_offset it + s) = unat (it_current_offset it) + unat s"
    using unat_lt_64 [of "iov_len ?v"] by (intro unat_add_small) linarith
  have "it_pos it + unat s < 2 ^ 64"
    using room(3) s ok by (auto simp: it_ok_def)
  then have pos: "it_pos mid = it_pos it + unat s"
    by (simp add: mid_def it_pos_def unat_add_small)
  have mid_ok: "it_ok mid"
    using ok pos co le by (simp add: it_ok_def mid_def)
  have n': "n' = n - s"
    and it': "it' = (if it_current_offset mid = iov_len ?v \<and> \<not> iovec_iterator_finished mid
                     then mid\<lparr>it_current := it_current mid + 1, it_current_offset := 0\<rparr> else mid)"
    using step unfolding skip_step_def Let_def s_def [symmetric] mid_def [symmetric] by auto
  show "unat n' = unat n - min (it_room it) (unat n)"
    by (simp add: n' s unat_sub_le)
  show "it_iovec it' = it_iovec it" "it_total_size it' = it_total_size it"
    by (simp_all add: it' mid_def)
  have "it_pos it' = it_pos mid" by (simp add: it' it_pos_def)
  then show "it_pos it' = it_pos it + min (it_room it) (unat n)" by (simp add: pos s)
  show "it_ok it'"
  proof (cases "it_current_offset mid = iov_len ?v \<and> \<not> iovec_iterator_finished mid")
    case True
    have all: "it_pos mid = iov_total (take (Suc (it_current it)) (it_iovec it))"
      using True mid_ok ok by (simp add: it_ok_def iov_total_take_Suc mid_def)
    have "Suc (it_current it) < length (it_iovec it)"
      using True finished_pos [OF mid_ok] all ok
      by (cases "Suc (it_current it) = length (it_iovec it)") (auto simp: it_ok_def mid_def)
    with True all mid_ok show ?thesis
      by (simp add: it' it_ok_def mid_def) (simp add: it_pos_def)
  qed (auto simp: it' mid_ok)
  show "unat n < it_room it \<or> iovec_iterator_finished it' \<or> it_current it' = Suc (it_current it)"
  proof (cases "unat n < it_room it")
    case False
    with s co room(1) ok have "unat (it_current_offset mid) = unat (iov_len ?v)"
      by (auto simp: mid_def it_room_def it_ok_def)
    then show ?thesis by (auto simp: it' mid_def word_unat_eq_iff)
  qed simp
qed

lemma skip_loop_ok:
  assumes "it_ok it" and "unat n < 2 ^ 63"
  shows "\<exists>it'. skip_loop it n = Some it' \<and> it_ok it' \<and> it_iovec it' = it_iovec it
    \<and> it_total_size it' = it_total_size it
    \<and> it_pos it' = min (it_pos it + unat n) (iov_total (it_iovec it))"
  using assms
proof (induction "length (it_iovec it) - it_current it" arbitrary: it n rule: less_induct)
  case less
  obtain it1 n1 where step: "skip_step it (it_iovec it ! it_current it) n = (it1, n1)"
    by fastforce
  note st = skip_step_ok [OF less.prems step]
  note fin = finished_pos [OF st(1)]
  note bound = remaining_current(3) [OF less.prems(1)]
  have eq: "skip_loop it n =
      (if n1 = 0 \<or> iovec_iterator_finished it1 then Some it1 else skip_loop it1 n1)"
    by (subst skip_loop.simps) (simp add: it_ok_entry(1) [OF less.prems(1)] step)
  show ?case
  proof (cases "n1 = 0 \<or> iovec_iterator_finished it1")
    case True
    then have "it_pos it1 = min (it_pos it + unat n) (iov_total (it_iovec it))"
      using st fin bound by auto
    with True eq st show ?thesis by auto
  next
    case False
    then have cur: "it_current it1 = Suc (it_current it)" and ge: "it_room it \<le> unat n"
      using st(5,6) by (auto simp: unat_eq_0 [symmetric] min_def split: if_splits)
    have "length (it_iovec it1) - it_current it1 < length (it_iovec it) - it_current it"
      using cur st(2) less.prems(1) by (auto simp: it_ok_def)
    moreover have "unat n1 < 2 ^ 63" using less.prems(2) st(5) by simp
    ultimately obtain it2 where "skip_loop it1 n1 = Some it2" "it_ok it2" "it_iovec it2 = it_iovec it1"
      "it_total_size it2 = it_total_size it1"
      "it_pos it2 = min (it_pos it1 + unat n1) (iov_total (it_iovec it1))"
      using less.hyps [OF _ st(1)] by blast
    with False eq st ge show ?thesis by (auto simp: min_def)
  qed
qed


lemma skip_step_skip:
  assumes "it_ok it" and "unat n < 2 ^ 63" and "unat n \<le> it_room it"
  shows "iovec_iterator_skip it n =
    (let it' = fst (skip_step it (it_iovec it ! it_current it) n)
     in Some (it_total_size it' - it_total_offset it', it'))"
proof -
  obtain it1 n1 where step: "skip_step it (it_iovec it ! it_current it) n = (it1, n1)"
    by fastforce
  from skip_step_ok(5) [OF assms(1,2) step] assms(3) have "n1 = 0"
    by (simp add: unat_eq_0 [symmetric])
  then show ?thesis
    by (simp add: iovec_iterator_skip_def skip_loop.simps it_ok_entry(1) [OF assms(1)] step)
qed

subsection \<open>The bytes of the stream\<close>

definition iov_stream :: "memory \<Rightarrow> iovec list \<Rightarrow> u8 list" where
  "iov_stream m vs = concat (map (\<lambda>v. load m (iov_addr v) (unat (iov_len v))) vs)"

lemma length_iov_stream [simp]: "length (iov_stream m vs) = iov_total vs"
  by (induction vs) (simp_all add: iov_stream_def)

lemma iov_stream_drop:
  assumes "k < length vs"
  shows "drop (iov_total (take k vs) + o') (iov_stream m vs) =
    drop o' (load m (iov_addr (vs ! k)) (unat (iov_len (vs ! k))) @ iov_stream m (drop (Suc k) vs))"
proof -
  have "iov_stream m vs = iov_stream m (take k vs) @
      load m (iov_addr (vs ! k)) (unat (iov_len (vs ! k))) @ iov_stream m (drop (Suc k) vs)"
    using assms by (subst id_take_nth_drop [of k vs]) (simp_all add: iov_stream_def)
  then show ?thesis by simp
qed

lemma iov_stream_chunk:
  assumes "it_ok it" and "c \<le> it_room it"
  shows "take c (drop (it_pos it) (iov_stream m (it_iovec it))) =
    load m (iov_addr (it_iovec it ! it_current it) + it_current_offset it) c"
  using assms
  by (auto simp: it_ok_def it_room_def iov_stream_drop drop_load take_load min_def)

definition gatherable :: "memory \<Rightarrow> iovec list \<Rightarrow> addr \<Rightarrow> nat \<Rightarrow> bool" where
  "gatherable m vs d n \<longleftrightarrow> wr_region m d n \<and>
     (\<forall>v\<in>set vs. rd_region m (iov_addr v) (unat (iov_len v)) \<and> apart d n (iov_addr v) (unat (iov_len v)))"

lemma gatherable_store [simp]: "gatherable (store m a xs) vs d n = gatherable m vs d n"
  by (simp add: gatherable_def)

lemma iov_stream_store:
  assumes "gatherable m vs d n" and "k + length xs \<le> n"
  shows "iov_stream (store m (d + of_nat k) xs) vs = iov_stream m vs"
proof -
  have "load (store m (d + of_nat k) xs) (iov_addr v) (unat (iov_len v)) =
        load m (iov_addr v) (unat (iov_len v))" if "v \<in> set vs" for v
    using that assms apart_sub [of d n "iov_addr v" "unat (iov_len v)" k "length xs" 0 "unat (iov_len v)"]
    by (intro load_store_apart) (simp add: gatherable_def apart_sym)
  then show ?thesis by (simp add: iov_stream_def cong: map_cong)
qed


lemma gather_chunk:
  assumes ok: "it_ok it" and g: "gatherable m (it_iovec it) d n"
    and c: "unat c \<le> it_room it" and t: "unat t + unat c \<le> n"
  shows "USERCOPY_POSSIBLY_FROM_USER m (d + t) (iov_addr (it_iovec it ! it_current it) + it_current_offset it) c
    = Some (E_OK, store m (d + t) (take (unat c) (drop (it_pos it) (iov_stream m (it_iovec it)))))"
proof -
  let ?v = "it_iovec it ! it_current it"
  let ?o = "it_current_offset it"
  have "?v \<in> set (it_iovec it)" using ok by (simp add: it_ok_def)
  with g have rd: "rd_region m (iov_addr ?v) (unat (iov_len ?v))"
    and ap: "apart d n (iov_addr ?v) (unat (iov_len ?v))" and wr: "wr_region m d n"
    by (simp_all add: gatherable_def)
  have oc: "unat ?o + unat c \<le> unat (iov_len ?v)"
    using c ok by (auto simp: it_room_def it_ok_def)
  show ?thesis
    using FROM_USER_store [of m "iov_addr ?v + ?o" c "d + t"] rd_region_sub [OF rd oc]
      wr_region_sub [OF wr t] apart_sub [OF ap t oc] iov_stream_chunk [OF ok c]
    by simp
qed

lemma copy_to_buffer_loop_ok:
  assumes "it_ok it" and "it_pos it + unat r \<le> iov_total (it_iovec it)"
    and "gatherable m (it_iovec it) d n" and "unat t + unat r \<le> n" and "n < 2 ^ 63"
  shows "\<exists>it'. copy_to_buffer_loop m it d t r =
      Some (E_OK, it', store m (d + t) (take (unat r) (drop (it_pos it) (iov_stream m (it_iovec it)))))
    \<and> it_ok it' \<and> it_iovec it' = it_iovec it \<and> it_pos it' = it_pos it + unat r"
  using assms
proof (induction "length (it_iovec it) - it_current it" arbitrary: it m t r rule: less_induct)
  case less
  let ?v = "it_iovec it ! it_current it"
  let ?S = "iov_stream m (it_iovec it)"
  note ok = less.prems(1)
  define c where "c = min_long (iov_len ?v - it_current_offset it) r"
  have c: "unat c = min (it_room it) (unat r)"
    using remaining_current [OF ok] less.prems(4,5) by (simp add: c_def unat_min_long)
  obtain it1 n1 where step: "skip_step it ?v c = (it1, n1)" by fastforce
  have c63: "unat c < 2 ^ 63" and cr: "unat c \<le> it_room it"
    using c less.prems(4,5) by auto
  note st = skip_step_ok [OF ok c63 step]
  let ?m1 = "store m (d + t) (take (unat c) (drop (it_pos it) ?S))"
  have pos1: "it_pos it1 = it_pos it + unat c" using st(4) cr by simp
  have eq: "copy_to_buffer_loop m it d t r =
      (if iovec_iterator_finished it1 \<or> r - c = 0 then Some (E_OK, it1, ?m1)
       else copy_to_buffer_loop ?m1 it1 d (t + c) (r - c))"
    using gather_chunk [OF ok less.prems(3) cr, of t] c less.prems(4) skip_step_skip [OF ok c63 cr] step
    by (subst copy_to_buffer_loop.simps) (simp add: it_ok_entry(1) [OF ok] c_def [symmetric] Let_def)
  have rc: "unat (r - c) = unat r - unat c" using c by (simp add: unat_sub_le)
  show ?case
  proof (cases "iovec_iterator_finished it1 \<or> r - c = 0")
    case True
    have "unat c = unat r"
      using True c rc less.prems(2) finished_pos [OF st(1)] pos1 st(2)
      by (auto simp: unat_eq_0 [symmetric])
    then show ?thesis using True eq st(1,2) pos1 by auto
  next
    case False
    then have cur: "it_current it1 = Suc (it_current it)"
      using st(6) c rc by (auto simp: unat_eq_0 [symmetric] min_def split: if_splits)
    have tc: "unat (t + c) = unat t + unat c"
      using c less.prems(4,5) by (intro unat_add_small) auto
    have len: "length (take (unat c) (drop (it_pos it) ?S)) = unat c"
      using c less.prems(2) by auto
    have S1: "iov_stream ?m1 (it_iovec it) = ?S"
      using iov_stream_store [OF less.prems(3), of "unat t" "take (unat c) (drop (it_pos it) ?S)"]
        len c less.prems(4) by auto
    have "length (it_iovec it1) - it_current it1 < length (it_iovec it) - it_current it"
      using cur st(2) ok by (auto simp: it_ok_def)
    moreover have "it_pos it1 + unat (r - c) \<le> iov_total (it_iovec it1)"
      using pos1 rc st(2) less.prems(2) c by auto
    moreover have "unat (t + c) + unat (r - c) \<le> n" using tc rc c less.prems(4) by auto
    ultimately obtain it2 where it2: "copy_to_buffer_loop ?m1 it1 d (t + c) (r - c) = Some (E_OK, it2,
          store ?m1 (d + (t + c)) (take (unat (r - c)) (drop (it_pos it1) ?S)))"
        "it_ok it2" "it_iovec it2 = it_iovec it1" "it_pos it2 = it_pos it1 + unat (r - c)"
      using less.hyps [OF _ st(1), of "r - c" ?m1 "t + c"] less.prems(3,5) st(2) S1 by auto
    have "unat c + unat r < 2 ^ 64" using c less.prems(4,5) by auto
    then have "length (take (unat c) (drop (it_pos it) ?S))
        + length (take (unat (r - c)) (drop (it_pos it1) ?S)) \<le> 2 ^ 64"
      unfolding len rc by simp
    from store_append [OF this, of m "d + t"]
    have "store ?m1 (d + (t + c)) (take (unat (r - c)) (drop (it_pos it1) ?S)) =
        store m (d + t) (take (unat c) (drop (it_pos it) ?S) @ take (unat (r - c)) (drop (it_pos it1) ?S))"
      unfolding len by (simp add: add.assoc)
    also have "take (unat c) (drop (it_pos it) ?S) @ take (unat (r - c)) (drop (it_pos it1) ?S) =
        take (unat r) (drop (it_pos it) ?S)"
      using take_add [of "unat c" "unat (r - c)" "drop (it_pos it) ?S"] pos1 rc c
      by (simp add: add.commute)
    finally show ?thesis
      using False eq it2 st(2) pos1 rc c by auto
  qed
qed


subsection \<open>Properties\<close>

text \<open>Two entries of three and five bytes, entered at the second byte.\<close>

definition ex_iov :: "iovec list" where
  "ex_iov = [\<lparr>iov_addr = 0x1000, iov_len = 3\<rparr>, \<lparr>iov_addr = 0x2000, iov_len = 5\<rparr>]"

definition ex_it :: iovec_iterator where
  "ex_it = \<lparr>it_iovec = ex_iov, it_current = 0, it_current_offset = 1, it_total_offset = 1,
            it_total_size = 8\<rparr>"

definition ex_it2 :: iovec_iterator where
  "ex_it2 = \<lparr>it_iovec = ex_iov, it_current = 1, it_current_offset = 1, it_total_offset = 4,
             it_total_size = 8\<rparr>"

lemma ex_it_ok: "it_ok ex_it" "it_ok ex_it2"
  by (simp_all add: it_ok_def it_pos_def ex_it_def ex_it2_def ex_iov_def)

lemma ex_gatherable: "n \<le> 16 \<Longrightarrow> gatherable ex_mem ex_iov 0xffff800000000000 n"
  by (auto simp: gatherable_def ex_regions ex_iov_def intro!: apart_above)

text \<open>
  C18: skipping \<open>n\<close> bytes ends, never leaves the array, moves the position by \<open>n\<close> or to the end of the
  stream, returns the bytes that are left, and keeps the iterator well-formed.
\<close>

theorem iovec_iterator_skip_moves:
  assumes "it_ok it" and "unat n < 2 ^ 63"
  shows "\<exists>rest it'. iovec_iterator_skip it n = Some (rest, it') \<and> it_ok it'
    \<and> it_iovec it' = it_iovec it \<and> it_pos it' = min (it_pos it + unat n) (iov_total (it_iovec it))
    \<and> unat rest = iov_total (it_iovec it) - it_pos it'"
proof -
  from skip_loop_ok [OF assms] obtain it' where it': "skip_loop it n = Some it'" "it_ok it'"
    "it_iovec it' = it_iovec it" "it_pos it' = min (it_pos it + unat n) (iov_total (it_iovec it))"
    by blast
  then have "unat (it_total_size it' - it_total_offset it') = iov_total (it_iovec it) - it_pos it'"
    using it_ok_entry(3) [OF it'(2)]
    by (subst unat_sub_le) (simp_all add: it_ok_def it_pos_def)
  with it' show ?thesis by (simp add: iovec_iterator_skip_def)
qed

theorem iovec_iterator_skip_moves_witness:
  "\<exists>rest it'. iovec_iterator_skip ex_it 4 = Some (rest, it') \<and> it_ok it'
    \<and> it_iovec it' = it_iovec ex_it \<and> it_pos it' = min (it_pos ex_it + unat (4 :: u64)) (iov_total (it_iovec ex_it))
    \<and> unat rest = iov_total (it_iovec ex_it) - it_pos it'"
  by (rule iovec_iterator_skip_moves) (simp_all add: ex_it_ok)

text \<open>
  C17: a copy of \<open>n\<close> bytes out of the stream puts the next \<open>n\<close> bytes of the concatenated entries, or
  all that are left, one after the other into the buffer, writes nothing else and moves the
  iterator by as much.
\<close>

theorem iovec_copy_to_buffer_gathers:
  assumes "it_ok it" and "unat n < 2 ^ 63"
    and k: "k = min (unat n) (iov_total (it_iovec it) - it_pos it)"
    and g: "gatherable m (it_iovec it) buffer k"
  shows "\<exists>it'. iovec_iterator_copy_to_buffer m it buffer n =
      Some (E_OK, it', store m buffer (take k (drop (it_pos it) (iov_stream m (it_iovec it)))))
    \<and> it_ok it' \<and> it_iovec it' = it_iovec it \<and> it_pos it' = it_pos it + k"
proof -
  let ?r = "min_long n (it_total_size it - it_total_offset it)"
  have rest: "unat (it_total_size it - it_total_offset it) = iov_total (it_iovec it) - it_pos it"
    using it_ok_entry(3) [OF assms(1)] assms(1)
    by (subst unat_sub_le) (simp_all add: it_ok_def it_pos_def)
  have "iov_total (it_iovec it) < 2 ^ 63" using assms(1) by (simp add: it_ok_def)
  then have r: "unat ?r = k"
    using rest assms(2) by (simp add: unat_min_long k)
  have le: "it_pos it + unat ?r \<le> iov_total (it_iovec it)"
    using r k it_ok_entry(3) [OF assms(1)] by simp
  have "k < 2 ^ 63" using k assms(2) by simp
  from copy_to_buffer_loop_ok [OF assms(1) le g _ this, of 0] r show ?thesis
    by (auto simp: iovec_iterator_copy_to_buffer_def restore_on_error_def)
qed

theorem iovec_copy_to_buffer_gathers_witness:
  "\<exists>it'. iovec_iterator_copy_to_buffer ex_mem ex_it 0xffff800000000000 6 =
      Some (E_OK, it', store ex_mem 0xffff800000000000 (take 6 (drop (it_pos ex_it) (iov_stream ex_mem (it_iovec ex_it)))))
    \<and> it_ok it' \<and> it_iovec it' = it_iovec ex_it \<and> it_pos it' = it_pos ex_it + 6"
  by (rule iovec_copy_to_buffer_gathers)
    (simp_all add: ex_it_ok, simp_all add: ex_it_def ex_iov_def it_pos_def ex_gatherable [unfolded ex_iov_def])

text \<open>
  Setting the position back to 0 does not go back to the first entry. Once the iterator has left
  a non-empty entry behind, \<open>iovec_iterator_set\<close> gives an iterator that claims offset 0 but still
  points at the later entry; the copy routines use it to recover from a fault.
\<close>

lemma iovec_iterator_set_loses_position:
  assumes "it_ok it" and "0 < iov_total (take (it_current it) (it_iovec it))"
  shows "\<exists>rest it'. iovec_iterator_set it 0 = Some (rest, it') \<and> it_pos it' = 0
    \<and> it_current it \<le> it_current it' \<and> \<not> it_ok it'"
proof -
  let ?it = "it\<lparr>it_current_offset := 0, it_total_offset := 0\<rparr>"
  let ?v = "it_iovec it ! it_current it"
  obtain it' n' where step: "skip_step ?it ?v 0 = (it', n')" by fastforce
  have "unat (iov_len ?v) < 2 ^ 63"
    using iov_total_take_Suc [of "it_current it" "it_iovec it"] assms(1)
      iov_total_take_le [of "Suc (it_current it)" "it_iovec it"] by (auto simp: it_ok_def)
  then have "min_long (iov_len ?v) 0 = 0"
    by (intro word_unat_eq_iff [THEN iffD2]) (simp add: unat_min_long)
  then have n': "n' = 0" and cur: "it_current it \<le> it_current it'" and pos: "it_pos it' = 0"
    and vs: "it_iovec it' = it_iovec it"
    using step by (auto simp: skip_step_def it_pos_def Let_def)
  have "iovec_iterator_set it 0 = Some (it_total_size it' - it_total_offset it', it')"
    using assms(1) step n'
    by (simp add: iovec_iterator_set_def iovec_iterator_skip_def skip_loop.simps current_iovec_def it_ok_def)
  moreover have "\<not> it_ok it'"
    using pos assms(2) iov_total_take_mono [OF cur, of "it_iovec it"] vs by (auto simp: it_ok_def)
  ultimately show ?thesis using cur pos by blast
qed

lemma ringbuffer_write_full:
  assumes "rb_ok rb" and "rb_mem m rb" and "unat count < 2 ^ 63" and "rb_free rb = 0"
  shows "ringbuffer_write m rb buffer count = Some (0, rb, m)"
  using ringbuffer_write_eq [OF assms(1-3) refl, of buffer] assms(4)
  by (simp add: rd_region_def apart_def ring_store_def Let_def)

text \<open>
  A write to a ring with less room than the current entry wants fills the ring and reports what
  it queued, but moves the iterator by what it wanted to queue: the bytes in between are in
  neither.
\<close>

lemma iovec_write_to_ringbuffer_short:
  assumes ok: "it_ok it" and n: "unat n < 2 ^ 63" and "rb_ok rb" and "rb_mem m rb"
    and c: "c = min (it_room it) (unat n)" and f: "f = rb_free rb" "0 < f" "f < c"
    and rd: "rd_region m (iov_addr (it_iovec it ! it_current it) + it_current_offset it) f"
    and ap: "apart (rb_data rb) (unat (rb_size rb)) (iov_addr (it_iovec it ! it_current it) + it_current_offset it) f"
    and nowrap: "unat (rb_write rb) + f < 2 ^ 64"
  shows "\<exists>it' rb' m'. iovec_iterator_write_to_ringbuffer m it rb n = Some (of_nat f, it', rb', m')
    \<and> rb_len rb' = rb_len rb + f \<and> it_pos it' = it_pos it + c"
proof -
  let ?v = "it_iovec it ! it_current it"
  let ?r = "min_long n (it_total_size it - it_total_offset it)"
  define cc where "cc = min_long (iov_len ?v - it_current_offset it) ?r"
  have "unat (it_total_size it - it_total_offset it) = iov_total (it_iovec it) - it_pos it"
    using it_ok_entry(3) [OF ok] ok by (subst unat_sub_le) (simp_all add: it_ok_def it_pos_def)
  moreover have "iov_total (it_iovec it) < 2 ^ 63" using ok by (simp add: it_ok_def)
  ultimately have r: "unat ?r = min (unat n) (iov_total (it_iovec it) - it_pos it)"
    using n by (simp add: unat_min_long)
  have cc: "unat cc = c"
    using r remaining_current [OF ok] n by (simp add: cc_def unat_min_long c)
  have c63: "unat cc < 2 ^ 63" and cr: "unat cc \<le> it_room it" and fn: "f < unat n"
    using cc c n f by auto
  obtain it1 n1 where step: "skip_step it ?v cc = (it1, n1)" by fastforce
  note st = skip_step_ok [OF ok c63 step]
  let ?rb = "rb\<lparr>rb_write := rb_write rb + of_nat f\<rparr>"
  let ?m = "ring_store m rb (unat (rb_write rb)) (load m (iov_addr ?v + it_current_offset it) f)"
  have w: "unat (rb_write rb + of_nat f) = unat (rb_write rb) + f"
    using nowrap by (simp add: unat_add_small unat_of_nat_small)
  have le: "unat (rb_read rb) \<le> unat (rb_write rb)" "f + rb_len rb = unat (rb_size rb)"
    using assms(3) f rb_len_free [OF assms(3)] by (auto simp: rb_ok_def)
  have rb1: "rb_ok ?rb" "rb_len ?rb = rb_len rb + f" "rb_free ?rb = 0" "rb_mem ?m ?rb"
    using assms(3,4) w le by (auto simp: rb_ok_def rb_len_def rb_free_def rb_mem_def rd_region_def wr_region_def)
  have wr: "ringbuffer_write m rb (iov_addr ?v + it_current_offset it) cc = Some (of_nat f, ?rb, ?m)"
    using assms(3,4) c63 cc f rd ap by (intro ringbuffer_write_eq) auto
  have fw: "of_nat f \<noteq> n" "of_nat f \<noteq> (0 :: u64)" "of_nat f \<noteq> RINGBUFFER_USER_COPY_FAILED"
    using fn f(2) n of_nat_not_failed [of f] unat_of_nat_small [of f] by auto
  have "\<exists>e. (e = of_nat f \<or> e = 0) \<and> write_to_ringbuffer_loop m it rb n ?r 0 = Some (e, of_nat f, it1, ?rb, ?m)"
  proof (cases "iovec_iterator_finished it1")
    case True
    then show ?thesis
      by (subst write_to_ringbuffer_loop.simps)
        (simp add: it_ok_entry(1) [OF ok] Let_def cc_def [symmetric] wr fw
          skip_step_skip [OF ok c63 cr] step)
  next
    case False
    let ?c1 = "min_long (iov_len (it_iovec it1 ! it_current it1) - it_current_offset it1) (?r - of_nat f)"
    have "f \<le> unat ?r" using r fn f(3) c remaining_current(3) [OF ok] by simp
    then have "unat (?r - of_nat f) = unat ?r - f"
      using n r by (subst unat_sub_le) (simp_all add: unat_of_nat_small)
    then have "unat (?r - of_nat f) < 2 ^ 63" using n r by simp
    then have "unat ?c1 < 2 ^ 63" using remaining_current [OF st(1)] by (simp add: unat_min_long)
    from ringbuffer_write_full [OF rb1(1,4) this rb1(3)]
    have "write_to_ringbuffer_loop ?m it1 ?rb n (?r - of_nat f) (of_nat f) = Some (0, of_nat f, it1, ?rb, ?m)"
      by (subst write_to_ringbuffer_loop.simps)
        (simp add: it_ok_entry(1) [OF st(1)] RINGBUFFER_USER_COPY_FAILED_def)
    with False show ?thesis
      by (subst write_to_ringbuffer_loop.simps)
        (simp add: it_ok_entry(1) [OF ok] Let_def cc_def [symmetric] wr fw
          skip_step_skip [OF ok c63 cr] step)
  qed
  moreover have "it_pos it1 = it_pos it + c" using st(4) cc cr by simp
  ultimately show ?thesis
    using rb1(2) fw(3) by (auto simp: iovec_iterator_write_to_ringbuffer_def RINGBUFFER_USER_COPY_FAILED_def)
qed

end
