(* ===== verification/Auth.thy ===== *)
theory Auth
  imports Prelude
begin

text \<open>
  Credentials and the authorisation framework: \<^verbatim>\<open>src/kernel-src/sys/cred.c\<close>,
  \<^verbatim>\<open>src/kernel-src/sys/auth.c\<close>, \<^verbatim>\<open>src/kernel-src/sys/defaultauth.c\<close> and their headers.

  A listener looks at a credential, a set of actions and three untyped arguments and allows,
  denies or defers; a scope is an array of eight listener slots; \<open>auth_check\<close> asks all of them.
  The untyped arguments are a tagged union, and a listener that follows an argument of another
  kind, or fails an assertion, gives \<open>None\<close>. User and group ids are C ints that are only compared,
  so they are integers here; actions and modes are bit sets in 32-bit words.

  The lemmas show how listeners combine, what the default listeners grant (file modes by class,
  the sticky bit, signals), and that no sequence of calls gives an unprivileged process an id it
  does not already have.
\<close>

unbundle bit_operations_syntax

type_synonym u32 = "32 word"

subsection \<open>Data\<close>

record cred =
  uid :: int
  euid :: int
  suid :: int
  gid :: int
  egid :: int
  sgid :: int

definition CRED_SUPERUSER :: int where "CRED_SUPERUSER = 0"

definition CRED_IS_ESU :: "cred \<Rightarrow> bool" where
  "CRED_IS_ESU c \<longleftrightarrow> euid c = CRED_SUPERUSER"

text \<open>The attributes the listeners read; \<open>vn_attr\<close> is what \<open>VOP_GETATTR\<close> fills in for the node.\<close>

record vattr =
  va_mode :: u32
  va_uid :: int
  va_gid :: int

datatype vtype = V_TYPE_REGULAR | V_TYPE_DIR | V_TYPE_CHDEV | V_TYPE_BLKDEV | V_TYPE_FIFO
  | V_TYPE_LINK | V_TYPE_SOCKET

record vnode =
  vn_type :: vtype
  vn_attr :: vattr

definition V_ATTR_MODE_OTHERS_EXECUTE :: u32 where "V_ATTR_MODE_OTHERS_EXECUTE = 0x001"
definition V_ATTR_MODE_OTHERS_WRITE :: u32 where "V_ATTR_MODE_OTHERS_WRITE = 0x002"
definition V_ATTR_MODE_OTHERS_READ :: u32 where "V_ATTR_MODE_OTHERS_READ = 0x004"
definition V_ATTR_MODE_GROUP_EXECUTE :: u32 where "V_ATTR_MODE_GROUP_EXECUTE = 0x008"
definition V_ATTR_MODE_GROUP_WRITE :: u32 where "V_ATTR_MODE_GROUP_WRITE = 0x010"
definition V_ATTR_MODE_GROUP_READ :: u32 where "V_ATTR_MODE_GROUP_READ = 0x020"
definition V_ATTR_MODE_USER_EXECUTE :: u32 where "V_ATTR_MODE_USER_EXECUTE = 0x040"
definition V_ATTR_MODE_USER_WRITE :: u32 where "V_ATTR_MODE_USER_WRITE = 0x080"
definition V_ATTR_MODE_USER_READ :: u32 where "V_ATTR_MODE_USER_READ = 0x100"
definition V_ATTR_MODE_STICKY :: u32 where "V_ATTR_MODE_STICKY = 0x200"

definition V_ACCESS_EXECUTE :: u32 where "V_ACCESS_EXECUTE = 1"
definition V_ACCESS_WRITE :: u32 where "V_ACCESS_WRITE = 2"
definition V_ACCESS_READ :: u32 where "V_ACCESS_READ = 4"

datatype auth_arg = Arg_null | Arg_vnode vnode | Arg_int int | Arg_proc cred | Arg_socket | Arg_netdev

type_synonym authlistener = "cred \<Rightarrow> u32 \<Rightarrow> auth_arg \<Rightarrow> auth_arg \<Rightarrow> auth_arg \<Rightarrow> int option"
type_synonym authscope = "authlistener option list"

definition AUTH_SCOPE_COUNT :: nat where "AUTH_SCOPE_COUNT = 5"
definition AUTH_SCOPE_SYSTEM :: nat where "AUTH_SCOPE_SYSTEM = 0"
definition AUTH_SCOPE_FILESYSTEM :: nat where "AUTH_SCOPE_FILESYSTEM = 1"
definition AUTH_SCOPE_CRED :: nat where "AUTH_SCOPE_CRED = 2"
definition AUTH_SCOPE_PROCESS :: nat where "AUTH_SCOPE_PROCESS = 3"
definition AUTH_SCOPE_NETWORK :: nat where "AUTH_SCOPE_NETWORK = 4"

definition AUTH_LISTENER_LIMIT :: nat where "AUTH_LISTENER_LIMIT = 8"

definition AUTH_DECISION_ALLOW :: int where "AUTH_DECISION_ALLOW = 1"
definition AUTH_DECISION_DEFER :: int where "AUTH_DECISION_DEFER = 0"
definition AUTH_DECISION_DENY :: int where "AUTH_DECISION_DENY = - 1000"

definition AUTH_ACTIONS_SYSTEM_CHROOT :: u32 where "AUTH_ACTIONS_SYSTEM_CHROOT = 1"
definition AUTH_ACTIONS_SYSTEM_SETHOSTNAME :: u32 where "AUTH_ACTIONS_SYSTEM_SETHOSTNAME = 2"

definition AUTH_ACTIONS_FILESYSTEM_EXECUTE :: u32 where "AUTH_ACTIONS_FILESYSTEM_EXECUTE = 1"
definition AUTH_ACTIONS_FILESYSTEM_WRITE :: u32 where "AUTH_ACTIONS_FILESYSTEM_WRITE = 2"
definition AUTH_ACTIONS_FILESYSTEM_READ :: u32 where "AUTH_ACTIONS_FILESYSTEM_READ = 4"
definition AUTH_ACTIONS_FILESYSTEM_SETATTR :: u32 where "AUTH_ACTIONS_FILESYSTEM_SETATTR = 8"
definition AUTH_ACTIONS_FILESYSTEM_MOUNT :: u32 where "AUTH_ACTIONS_FILESYSTEM_MOUNT = 16"
definition AUTH_ACTIONS_FILESYSTEM_UNLINK :: u32 where "AUTH_ACTIONS_FILESYSTEM_UNLINK = 32"
definition AUTH_ACTIONS_FILESYSTEM_RENAME :: u32 where "AUTH_ACTIONS_FILESYSTEM_RENAME = 64"

definition AUTH_ACTIONS_CRED_SETRESUID :: u32 where "AUTH_ACTIONS_CRED_SETRESUID = 1"
definition AUTH_ACTIONS_CRED_SETRESGID :: u32 where "AUTH_ACTIONS_CRED_SETRESGID = 2"
definition AUTH_ACTIONS_CRED_SETUID :: u32 where "AUTH_ACTIONS_CRED_SETUID = 4"
definition AUTH_ACTIONS_CRED_SETGID :: u32 where "AUTH_ACTIONS_CRED_SETGID = 8"
definition AUTH_ACTIONS_CRED_SETEUID :: u32 where "AUTH_ACTIONS_CRED_SETEUID = 16"
definition AUTH_ACTIONS_CRED_SETEGID :: u32 where "AUTH_ACTIONS_CRED_SETEGID = 32"

definition AUTH_ACTIONS_PROCESS_SIGNAL :: u32 where "AUTH_ACTIONS_PROCESS_SIGNAL = 1"

definition AUTH_ACTIONS_NETWORK_CONFIGURE :: u32 where "AUTH_ACTIONS_NETWORK_CONFIGURE = 1"
definition AUTH_ACTIONS_NETWORK_BINDRESERVED :: u32 where "AUTH_ACTIONS_NETWORK_BINDRESERVED = 2"

subsection \<open>Scopes and checks\<close>

fun first_free_slot :: "authlistener \<Rightarrow> authscope \<Rightarrow> authscope" where
  "first_free_slot l [] = []"
| "first_free_slot l (Some l' # ls) = Some l' # first_free_slot l ls"
| "first_free_slot l (None # ls) = Some l # ls"

definition auth_registerlistener :: "authscope list \<Rightarrow> nat \<Rightarrow> authlistener \<Rightarrow> authscope list" where
  "auth_registerlistener scopes scope listener = scopes[scope := first_free_slot listener (scopes ! scope)]"

fun check_listeners :: "int \<Rightarrow> authscope \<Rightarrow> cred \<Rightarrow> u32 \<Rightarrow> auth_arg \<Rightarrow> auth_arg \<Rightarrow> auth_arg \<Rightarrow> errno option" where
  "check_listeners allow [] c actions a0 a1 a2 = Some (if allow \<noteq> 0 then E_OK else EPERM)"
| "check_listeners allow (None # ls) c actions a0 a1 a2 = check_listeners allow ls c actions a0 a1 a2"
| "check_listeners allow (Some l # ls) c actions a0 a1 a2 =
     (case l c actions a0 a1 a2 of
        None \<Rightarrow> None
      | Some decision \<Rightarrow>
          if decision = AUTH_DECISION_DENY then Some EPERM
          else check_listeners (allow + decision) ls c actions a0 a1 a2)"

text \<open>A NULL credential is \<open>None\<close>: the kernel itself, which is always allowed.\<close>

definition auth_check ::
    "authscope list \<Rightarrow> nat \<Rightarrow> cred option \<Rightarrow> u32 \<Rightarrow> auth_arg \<Rightarrow> auth_arg \<Rightarrow> auth_arg \<Rightarrow> errno option" where
  "auth_check scopes scope cred actions a0 a1 a2 =
     (case cred of
        None \<Rightarrow> Some E_OK
      | Some c \<Rightarrow> if actions = 0 then Some E_OK
                  else check_listeners 0 (scopes ! scope) c actions a0 a1 a2)"

definition auth_filesystem_check ::
    "authscope list \<Rightarrow> cred option \<Rightarrow> u32 \<Rightarrow> vnode \<Rightarrow> vnode option \<Rightarrow> errno option" where
  "auth_filesystem_check scopes c actions vn dirvn =
     auth_check scopes AUTH_SCOPE_FILESYSTEM c actions (Arg_vnode vn)
       (case dirvn of None \<Rightarrow> Arg_null | Some d \<Rightarrow> Arg_vnode d) Arg_null"

definition auth_system_check :: "authscope list \<Rightarrow> cred option \<Rightarrow> u32 \<Rightarrow> errno option" where
  "auth_system_check scopes c actions = auth_check scopes AUTH_SCOPE_SYSTEM c actions Arg_null Arg_null Arg_null"

definition auth_cred_check :: "authscope list \<Rightarrow> cred option \<Rightarrow> u32 \<Rightarrow> int \<Rightarrow> int \<Rightarrow> int \<Rightarrow> errno option" where
  "auth_cred_check scopes c actions i ei si =
     auth_check scopes AUTH_SCOPE_CRED c actions (Arg_int i) (Arg_int ei) (Arg_int si)"

definition auth_process_check :: "authscope list \<Rightarrow> cred option \<Rightarrow> u32 \<Rightarrow> cred \<Rightarrow> errno option" where
  "auth_process_check scopes c actions proc =
     auth_check scopes AUTH_SCOPE_PROCESS c actions (Arg_proc proc) Arg_null Arg_null"

definition auth_network_check :: "authscope list \<Rightarrow> cred option \<Rightarrow> u32 \<Rightarrow> errno option" where
  "auth_network_check scopes c actions = auth_check scopes AUTH_SCOPE_NETWORK c actions Arg_socket Arg_netdev Arg_null"

definition auth_filesystem_convertaccess :: "u32 \<Rightarrow> u32" where
  "auth_filesystem_convertaccess access =
     (let r = 0;
          r = (if access AND V_ACCESS_EXECUTE \<noteq> 0 then r OR AUTH_ACTIONS_FILESYSTEM_EXECUTE else r);
          r = (if access AND V_ACCESS_WRITE \<noteq> 0 then r OR AUTH_ACTIONS_FILESYSTEM_WRITE else r);
          r = (if access AND V_ACCESS_READ \<noteq> 0 then r OR AUTH_ACTIONS_FILESYSTEM_READ else r)
      in r)"


subsection \<open>The default listeners\<close>

text \<open>
  A listener runs through its checks in order: each either denies at once, jumps to the end
  (\<open>DONE_CHECK\<close>, when no action is left) or goes on with the weight collected so far.
\<close>

datatype flow = Deny | Done int | Go int

definition DONE_CHECK :: "u32 \<Rightarrow> int \<Rightarrow> flow" where
  "DONE_CHECK actions weight = (if actions = 0 then Done weight else Go weight)"

definition on_action :: "u32 \<Rightarrow> u32 \<Rightarrow> (int \<Rightarrow> flow) \<Rightarrow> flow \<Rightarrow> flow" where
  "on_action actions flags body s =
     (case s of Go weight \<Rightarrow> if actions AND flags \<noteq> 0 then body weight else s | _ \<Rightarrow> s)"

definition grant_or_deny :: "u32 \<Rightarrow> bool \<Rightarrow> int \<Rightarrow> flow" where
  "grant_or_deny actions ok weight = (if ok then DONE_CHECK actions (weight + 1) else Deny)"

definition verdict :: "flow \<Rightarrow> int" where
  "verdict s =
     (case s of
        Deny \<Rightarrow> AUTH_DECISION_DENY
      | Done weight \<Rightarrow> if weight \<noteq> 0 then AUTH_DECISION_ALLOW else AUTH_DECISION_DEFER
      | Go weight \<Rightarrow> if weight \<noteq> 0 then AUTH_DECISION_ALLOW else AUTH_DECISION_DEFER)"

definition writecheck :: "cred \<Rightarrow> vattr \<Rightarrow> bool" where
  "writecheck c attr =
     (if CRED_IS_ESU c then True
      else if va_uid attr = euid c \<and> va_mode attr AND V_ATTR_MODE_USER_WRITE \<noteq> 0 then True
      else if va_uid attr \<noteq> euid c \<and> va_gid attr = egid c \<and> va_mode attr AND V_ATTR_MODE_GROUP_WRITE \<noteq> 0
      then True
      else if va_uid attr \<noteq> euid c \<and> va_gid attr \<noteq> egid c \<and> va_mode attr AND V_ATTR_MODE_OTHERS_WRITE \<noteq> 0
      then True
      else False)"

definition readcheck :: "cred \<Rightarrow> vattr \<Rightarrow> bool" where
  "readcheck c attr =
     (if CRED_IS_ESU c then True
      else if va_uid attr = euid c \<and> va_mode attr AND V_ATTR_MODE_USER_READ \<noteq> 0 then True
      else if va_uid attr \<noteq> euid c \<and> va_gid attr = egid c \<and> va_mode attr AND V_ATTR_MODE_GROUP_READ \<noteq> 0
      then True
      else if va_uid attr \<noteq> euid c \<and> va_gid attr \<noteq> egid c \<and> va_mode attr AND V_ATTR_MODE_OTHERS_READ \<noteq> 0
      then True
      else False)"

definition executecheck :: "cred \<Rightarrow> vnode \<Rightarrow> bool" where
  "executecheck c vn =
     (let attr = vn_attr vn in
      if vn_type vn = V_TYPE_DIR \<and> CRED_IS_ESU c then True
      else if va_mode attr AND (V_ATTR_MODE_USER_EXECUTE OR V_ATTR_MODE_GROUP_EXECUTE OR V_ATTR_MODE_OTHERS_EXECUTE) \<noteq> 0
              \<and> CRED_IS_ESU c then True
      else if va_uid attr = euid c \<and> va_mode attr AND V_ATTR_MODE_USER_EXECUTE \<noteq> 0 then True
      else if va_uid attr \<noteq> euid c \<and> va_gid attr = egid c \<and> va_mode attr AND V_ATTR_MODE_GROUP_EXECUTE \<noteq> 0
      then True
      else if va_uid attr \<noteq> euid c \<and> va_gid attr \<noteq> egid c \<and> va_mode attr AND V_ATTR_MODE_OTHERS_EXECUTE \<noteq> 0
      then True
      else False)"

text \<open>The unlink and rename check; \<open>d\<close> holds the attributes of the directory.\<close>

definition unlink_rename :: "cred \<Rightarrow> u32 \<Rightarrow> vnode \<Rightarrow> vattr \<Rightarrow> int \<Rightarrow> flow" where
  "unlink_rename c actions vn d weight =
     (if \<not> CRED_IS_ESU c \<and> \<not> writecheck c d then Deny
      else
        let dosticky = \<not> CRED_IS_ESU c in
        if actions AND AUTH_ACTIONS_FILESYSTEM_RENAME \<noteq> 0 \<and> vn_type vn = V_TYPE_DIR
           \<and> writecheck c (vn_attr vn) = False then Deny
        else if dosticky \<and> va_mode d AND V_ATTR_MODE_STICKY \<noteq> 0
        then if va_uid d = euid c \<or> va_uid (vn_attr vn) = euid c
             then DONE_CHECK actions (weight + 1) else Deny
        else DONE_CHECK actions (weight + 1))"

definition filesystem :: authlistener where
  "filesystem c actions arg0 arg1 arg2 =
     (case arg0 of
        Arg_vnode vn \<Rightarrow>
          (let attr = vn_attr vn;
               s = Go 0;
               s = on_action actions AUTH_ACTIONS_FILESYSTEM_WRITE
                     (grant_or_deny actions (writecheck c attr)) s;
               s = on_action actions AUTH_ACTIONS_FILESYSTEM_READ
                     (grant_or_deny actions (readcheck c attr)) s;
               s = on_action actions AUTH_ACTIONS_FILESYSTEM_EXECUTE
                     (grant_or_deny actions (executecheck c vn)) s;
               s = on_action actions AUTH_ACTIONS_FILESYSTEM_SETATTR
                     (grant_or_deny actions (CRED_IS_ESU c \<or> euid c = va_uid attr)) s;
               s = on_action actions AUTH_ACTIONS_FILESYSTEM_MOUNT
                     (grant_or_deny actions (CRED_IS_ESU c)) s
           in case s of
                Go weight \<Rightarrow>
                  if actions AND (AUTH_ACTIONS_FILESYSTEM_UNLINK OR AUTH_ACTIONS_FILESYSTEM_RENAME) \<noteq> 0
                  then (case arg1 of
                          Arg_vnode d \<Rightarrow> Some (verdict (unlink_rename c actions vn (vn_attr d) weight))
                        | _ \<Rightarrow> None)
                  else Some (verdict s)
              | _ \<Rightarrow> Some (verdict s))
      | _ \<Rightarrow> None)"

definition system :: authlistener where
  "system c actions arg0 arg1 arg2 =
     Some (verdict
       (on_action actions AUTH_ACTIONS_SYSTEM_SETHOSTNAME (grant_or_deny actions (CRED_IS_ESU c))
         (on_action actions AUTH_ACTIONS_SYSTEM_CHROOT (grant_or_deny actions (CRED_IS_ESU c)) (Go 0))))"

text \<open>
  The three groups of id checks of \<open>credlistener\<close>: all three ids for \<open>setresuid\<close> and \<open>setresgid\<close>, and
  one id for the others, where the superuser collects the weight twice.
\<close>

definition res_check :: "u32 \<Rightarrow> cred \<Rightarrow> int \<Rightarrow> int \<Rightarrow> int \<Rightarrow> int \<Rightarrow> int \<Rightarrow> int \<Rightarrow> int \<Rightarrow> flow" where
  "res_check actions c r e s i ei si weight =
     (if CRED_IS_ESU c then DONE_CHECK actions (weight + 1)
      else if i \<noteq> - 1 \<and> i \<noteq> r \<and> i \<noteq> e \<and> i \<noteq> s then Deny
      else if ei \<noteq> - 1 \<and> ei \<noteq> r \<and> ei \<noteq> e \<and> ei \<noteq> s then Deny
      else if si \<noteq> - 1 \<and> si \<noteq> r \<and> si \<noteq> e \<and> si \<noteq> s then Deny
      else DONE_CHECK actions (weight + 1))"

definition id_check :: "u32 \<Rightarrow> cred \<Rightarrow> int \<Rightarrow> int \<Rightarrow> int \<Rightarrow> int \<Rightarrow> flow" where
  "id_check actions c r s i weight =
     (if CRED_IS_ESU c then DONE_CHECK actions (weight + 1 + 1)
      else if i \<noteq> r \<and> i \<noteq> s then Deny
      else DONE_CHECK actions (weight + 1))"

definition credlistener :: authlistener where
  "credlistener c actions arg0 arg1 arg2 =
     (case (arg0, arg1, arg2) of
        (Arg_int i, Arg_int ei, Arg_int si) \<Rightarrow>
          (let s = Go 0;
               s = on_action actions AUTH_ACTIONS_CRED_SETRESUID
                     (res_check actions c (uid c) (euid c) (suid c) i ei si) s;
               s = on_action actions AUTH_ACTIONS_CRED_SETRESGID
                     (res_check actions c (gid c) (egid c) (sgid c) i ei si) s;
               s = on_action actions AUTH_ACTIONS_CRED_SETUID (id_check actions c (uid c) (suid c) i) s;
               s = on_action actions AUTH_ACTIONS_CRED_SETGID (id_check actions c (gid c) (sgid c) i) s;
               s = on_action actions AUTH_ACTIONS_CRED_SETEUID (id_check actions c (uid c) (suid c) ei) s;
               s = on_action actions AUTH_ACTIONS_CRED_SETEGID (id_check actions c (gid c) (sgid c) ei) s
           in Some (verdict s))
      | _ \<Rightarrow> None)"

definition process :: authlistener where
  "process c actions arg0 arg1 arg2 =
     (case arg0 of
        Arg_proc proc \<Rightarrow>
          Some (verdict (on_action actions AUTH_ACTIONS_PROCESS_SIGNAL
            (\<lambda>weight. if CRED_IS_ESU c then DONE_CHECK actions (weight + 1)
                      else if uid c = uid proc \<or> uid c = suid proc \<or> euid c = uid proc \<or> euid c = suid proc
                      then DONE_CHECK actions (weight + 1)
                      else DONE_CHECK actions weight) (Go 0)))
      | _ \<Rightarrow> None)"

definition network :: authlistener where
  "network c actions arg0 arg1 arg2 =
     Some (if CRED_IS_ESU c then AUTH_DECISION_ALLOW else AUTH_DECISION_DENY)"

definition defaultauth_init :: "authscope list \<Rightarrow> authscope list" where
  "defaultauth_init scopes =
     (let scopes = auth_registerlistener scopes AUTH_SCOPE_FILESYSTEM filesystem;
          scopes = auth_registerlistener scopes AUTH_SCOPE_SYSTEM system;
          scopes = auth_registerlistener scopes AUTH_SCOPE_CRED credlistener;
          scopes = auth_registerlistener scopes AUTH_SCOPE_PROCESS process;
          scopes = auth_registerlistener scopes AUTH_SCOPE_NETWORK network
      in scopes)"

text \<open>The array of scopes as it is at boot, all slots NULL.\<close>

definition scopes0 :: "authscope list" where
  "scopes0 = replicate AUTH_SCOPE_COUNT (replicate AUTH_LISTENER_LIMIT None)"

subsection \<open>Changing credentials\<close>

text \<open>Each call returns an error and the credential after it; \<open>None\<close> when the check panics.\<close>

definition checked :: "errno option \<Rightarrow> cred \<Rightarrow> cred \<Rightarrow> (errno \<times> cred) option" where
  "checked chk c c' = map_option (\<lambda>e. if e \<noteq> E_OK then (e, c) else (E_OK, c')) chk"

definition cred_setuids :: "authscope list \<Rightarrow> cred \<Rightarrow> int \<Rightarrow> int \<Rightarrow> int \<Rightarrow> (errno \<times> cred) option" where
  "cred_setuids scopes c u e s =
     checked (auth_cred_check scopes (Some c) AUTH_ACTIONS_CRED_SETRESUID u e s) c
       (c\<lparr>uid := if u = - 1 then uid c else u, euid := if e = - 1 then euid c else e,
          suid := if s = - 1 then suid c else s\<rparr>)"

definition cred_setgids :: "authscope list \<Rightarrow> cred \<Rightarrow> int \<Rightarrow> int \<Rightarrow> int \<Rightarrow> (errno \<times> cred) option" where
  "cred_setgids scopes c g e s =
     checked (auth_cred_check scopes (Some c) AUTH_ACTIONS_CRED_SETRESGID g e s) c
       (c\<lparr>gid := if g = - 1 then gid c else g, egid := if e = - 1 then egid c else e,
          sgid := if s = - 1 then sgid c else s\<rparr>)"

definition cred_setuid :: "authscope list \<Rightarrow> cred \<Rightarrow> int \<Rightarrow> (errno \<times> cred) option" where
  "cred_setuid scopes c u =
     (if u < 0 then Some (EINVAL, c)
      else checked (auth_cred_check scopes (Some c) AUTH_ACTIONS_CRED_SETUID u (- 1) (- 1)) c
             (if CRED_IS_ESU c then c\<lparr>uid := u, euid := u, suid := u\<rparr> else c\<lparr>euid := u\<rparr>))"

definition cred_seteuid :: "authscope list \<Rightarrow> cred \<Rightarrow> int \<Rightarrow> (errno \<times> cred) option" where
  "cred_seteuid scopes c e =
     (if e < 0 then Some (EINVAL, c)
      else checked (auth_cred_check scopes (Some c) AUTH_ACTIONS_CRED_SETEUID (- 1) e (- 1)) c (c\<lparr>euid := e\<rparr>))"

definition cred_setgid :: "authscope list \<Rightarrow> cred \<Rightarrow> int \<Rightarrow> (errno \<times> cred) option" where
  "cred_setgid scopes c g =
     (if g < 0 then Some (EINVAL, c)
      else checked (auth_cred_check scopes (Some c) AUTH_ACTIONS_CRED_SETGID g (- 1) (- 1)) c
             (if CRED_IS_ESU c then c\<lparr>gid := g, egid := g, sgid := g\<rparr> else c\<lparr>egid := g\<rparr>))"

definition cred_setegid :: "authscope list \<Rightarrow> cred \<Rightarrow> int \<Rightarrow> (errno \<times> cred) option" where
  "cred_setegid scopes c e =
     (if e < 0 then Some (EINVAL, c)
      else checked (auth_cred_check scopes (Some c) AUTH_ACTIONS_CRED_SETEGID (- 1) e (- 1)) c (c\<lparr>egid := e\<rparr>))"

definition cred_doexec :: "cred \<Rightarrow> int \<Rightarrow> int \<Rightarrow> cred" where
  "cred_doexec c su sg =
     (let c = (if su > - 1 then c\<lparr>euid := su\<rparr> else c);
          c = (if sg > - 1 then c\<lparr>egid := sg\<rparr> else c)
      in c\<lparr>suid := euid c, sgid := egid c\<rparr>)"

definition cred_getuids :: "cred \<Rightarrow> int \<times> int \<times> int" where
  "cred_getuids c = (uid c, euid c, suid c)"

definition cred_getgids :: "cred \<Rightarrow> int \<times> int \<times> int" where
  "cred_getgids c = (gid c, egid c, sgid c)"


subsection \<open>The contract of a listener\<close>

text \<open>
  What \<open>auth_check\<close> relies on: a listener that returns gives one of the three decisions. Under it a
  listener that is alone in its scope decides, and deferring counts as a refusal.
\<close>

definition decision :: "int \<Rightarrow> bool" where
  "decision d \<longleftrightarrow> d \<in> {AUTH_DECISION_ALLOW, AUTH_DECISION_DEFER, AUTH_DECISION_DENY}"

lemmas decision_defs = decision_def AUTH_DECISION_ALLOW_def AUTH_DECISION_DEFER_def AUTH_DECISION_DENY_def

locale listener =
  fixes l :: authlistener
  assumes decides: "l c actions a0 a1 a2 = Some d \<Longrightarrow> decision d"
begin

lemma skip_empty: "check_listeners n (replicate k None) c actions a0 a1 a2 = Some (if n \<noteq> 0 then E_OK else EPERM)"
  by (induction k) simp_all

lemma alone:
  "check_listeners 0 (Some l # replicate k None) c actions a0 a1 a2 =
   map_option (\<lambda>d. if d = AUTH_DECISION_ALLOW then E_OK else EPERM) (l c actions a0 a1 a2)"
proof (cases "l c actions a0 a1 a2")
  case (Some d)
  with decides have "decision d" by blast
  with Some show ?thesis
    by (auto simp: skip_empty decision_defs)
qed simp

end

lemma decision_verdict [simp]: "decision (verdict s)"
  by (cases s) (simp_all add: verdict_def decision_def)

interpretation filesystem: listener filesystem
  by unfold_locales (auto simp: filesystem_def Let_def split: auth_arg.splits flow.splits if_splits)

interpretation system: listener system
  by unfold_locales (auto simp: system_def)

interpretation credlistener: listener credlistener
  by unfold_locales (auto simp: credlistener_def Let_def split: auth_arg.splits)

interpretation process: listener process
  by unfold_locales (auto simp: process_def split: auth_arg.splits)

interpretation network: listener network
  by unfold_locales (auto simp: network_def decision_def split: if_splits)

lemmas scope_defs = AUTH_SCOPE_COUNT_def AUTH_SCOPE_SYSTEM_def AUTH_SCOPE_FILESYSTEM_def
  AUTH_SCOPE_CRED_def AUTH_SCOPE_PROCESS_def AUTH_SCOPE_NETWORK_def AUTH_LISTENER_LIMIT_def

definition default_scopes :: "authscope list" where
  "default_scopes = defaultauth_init scopes0"

lemma default_scopes_nth:
  "default_scopes ! AUTH_SCOPE_FILESYSTEM = Some filesystem # replicate 7 None"
  "default_scopes ! AUTH_SCOPE_SYSTEM = Some system # replicate 7 None"
  "default_scopes ! AUTH_SCOPE_CRED = Some credlistener # replicate 7 None"
  "default_scopes ! AUTH_SCOPE_PROCESS = Some process # replicate 7 None"
  "default_scopes ! AUTH_SCOPE_NETWORK = Some network # replicate 7 None"
  by (simp_all add: default_scopes_def defaultauth_init_def scopes0_def auth_registerlistener_def scope_defs
      eval_nat_numeral)

lemma default_check:
  assumes "actions \<noteq> 0"
  shows "auth_check default_scopes AUTH_SCOPE_FILESYSTEM (Some c) actions a0 a1 a2 =
      map_option (\<lambda>d. if d = AUTH_DECISION_ALLOW then E_OK else EPERM) (filesystem c actions a0 a1 a2)"
    and "auth_check default_scopes AUTH_SCOPE_CRED (Some c) actions a0 a1 a2 =
      map_option (\<lambda>d. if d = AUTH_DECISION_ALLOW then E_OK else EPERM) (credlistener c actions a0 a1 a2)"
    and "auth_check default_scopes AUTH_SCOPE_PROCESS (Some c) actions a0 a1 a2 =
      map_option (\<lambda>d. if d = AUTH_DECISION_ALLOW then E_OK else EPERM) (process c actions a0 a1 a2)"
  using assms by (simp_all add: auth_check_def default_scopes_nth filesystem.alone credlistener.alone process.alone
      del: check_listeners.simps)

subsection \<open>Flags as bits\<close>

lemma and_flag: "x AND 2 ^ k = (0 :: u32) \<longleftrightarrow> \<not> bit x k"
  by (rule and_exp_eq_0_iff_not_bit)

lemma flag_bits:
  "x AND 1 = (0 :: u32) \<longleftrightarrow> \<not> bit x 0" "x AND 2 = (0 :: u32) \<longleftrightarrow> \<not> bit x 1"
  "x AND 4 = (0 :: u32) \<longleftrightarrow> \<not> bit x 2" "x AND 8 = (0 :: u32) \<longleftrightarrow> \<not> bit x 3"
  "x AND 16 = (0 :: u32) \<longleftrightarrow> \<not> bit x 4" "x AND 32 = (0 :: u32) \<longleftrightarrow> \<not> bit x 5"
  "x AND 64 = (0 :: u32) \<longleftrightarrow> \<not> bit x 6" "x AND 128 = (0 :: u32) \<longleftrightarrow> \<not> bit x 7"
  "x AND 256 = (0 :: u32) \<longleftrightarrow> \<not> bit x 8" "x AND 512 = (0 :: u32) \<longleftrightarrow> \<not> bit x 9"
  using and_flag [of x 0] and_flag [of x 1] and_flag [of x 2] and_flag [of x 3] and_flag [of x 4]
    and_flag [of x 5] and_flag [of x 6] and_flag [of x 7] and_flag [of x 8] and_flag [of x 9]
  by simp_all


lemmas mode_defs = V_ATTR_MODE_OTHERS_EXECUTE_def V_ATTR_MODE_OTHERS_WRITE_def V_ATTR_MODE_OTHERS_READ_def
  V_ATTR_MODE_GROUP_EXECUTE_def V_ATTR_MODE_GROUP_WRITE_def V_ATTR_MODE_GROUP_READ_def
  V_ATTR_MODE_USER_EXECUTE_def V_ATTR_MODE_USER_WRITE_def V_ATTR_MODE_USER_READ_def V_ATTR_MODE_STICKY_def

lemmas fs_action_defs = AUTH_ACTIONS_FILESYSTEM_EXECUTE_def AUTH_ACTIONS_FILESYSTEM_WRITE_def
  AUTH_ACTIONS_FILESYSTEM_READ_def AUTH_ACTIONS_FILESYSTEM_SETATTR_def AUTH_ACTIONS_FILESYSTEM_MOUNT_def
  AUTH_ACTIONS_FILESYSTEM_UNLINK_def AUTH_ACTIONS_FILESYSTEM_RENAME_def

lemmas access_defs = V_ACCESS_EXECUTE_def V_ACCESS_WRITE_def V_ACCESS_READ_def

lemma bit_convertaccess: "bit (auth_filesystem_convertaccess access) i \<longleftrightarrow> i < 3 \<and> bit access i"
proof -
  have "i < 3 \<longleftrightarrow> i = 0 \<or> i = 1 \<or> i = 2" by auto
  moreover have "bit (1 :: u32) i \<longleftrightarrow> i = 0" "bit (2 :: u32) i \<longleftrightarrow> i = 1" "bit (4 :: u32) i \<longleftrightarrow> i = 2"
    using bit_exp_iff [where 'a = "32 word", of 0 i] bit_exp_iff [where 'a = "32 word", of 1 i]
      bit_exp_iff [where 'a = "32 word", of 2 i] by (auto simp: possible_bit_word)
  ultimately show ?thesis
    by (auto simp: auth_filesystem_convertaccess_def Let_def fs_action_defs access_defs flag_bits bit_or_iff)
qed

text \<open>The three mode bits that apply to a credential: those of the owner, the group or the others.\<close>

definition class_bits :: "cred \<Rightarrow> vattr \<Rightarrow> u32" where
  "class_bits c attr =
     (if va_uid attr = euid c then drop_bit 6 (va_mode attr)
      else if va_gid attr = egid c then drop_bit 3 (va_mode attr) else va_mode attr) AND 7"

lemma bit_7: "bit (7 :: u32) i \<longleftrightarrow> i < 3"
  using bit_mask_iff [where 'a = "32 word", of 3 i] by (auto simp: mask_eq_exp_minus_1 possible_bit_word)

lemma class_checks:
  assumes "\<not> CRED_IS_ESU c"
  shows "writecheck c attr \<longleftrightarrow> bit (class_bits c attr) 1"
    and "readcheck c attr \<longleftrightarrow> bit (class_bits c attr) 2"
    and "attr = vn_attr vn \<Longrightarrow> executecheck c vn \<longleftrightarrow> bit (class_bits c attr) 0"
  using assms
  by (auto simp: writecheck_def readcheck_def executecheck_def class_bits_def mode_defs flag_bits bit_and_iff
      bit_drop_bit_eq bit_7 Let_def)

lemma flow_steps [simp]:
  "on_action actions flags f Deny = Deny"
  "on_action actions flags f (Done w) = Done w"
  "on_action actions flags f (Go w) = (if actions AND flags \<noteq> 0 then f w else Go w)"
  by (simp_all add: on_action_def)

lemma DONE_CHECK_nz [simp]: "actions \<noteq> 0 \<Longrightarrow> DONE_CHECK actions w = Go w"
  by (simp add: DONE_CHECK_def)

lemma sub_7: "access AND 7 = access \<Longrightarrow> bit (access :: u32) i \<Longrightarrow> i < 3"
  by (metis bit_and_iff bit_7)

lemma flag_96: "x AND 96 = (0 :: u32) \<longleftrightarrow> \<not> bit x 5 \<and> \<not> bit x 6"
  using bit.conj_disj_distrib [of x 32 64] by (simp add: or_eq_0_iff flag_bits)

lemma submask:
  assumes "access AND 7 = (access :: u32)"
  shows "access AND x = access \<longleftrightarrow> (\<forall>i<3. bit access i \<longrightarrow> bit x i)"
proof
  assume "access AND x = access"
  then show "\<forall>i<3. bit access i \<longrightarrow> bit x i" by (metis bit_and_iff)
next
  assume "\<forall>i<3. bit access i \<longrightarrow> bit x i"
  then show "access AND x = access"
    using sub_7 [OF assms] by (intro bit_eqI) (auto simp: bit_and_iff)
qed

lemma all_less_3: "(\<forall>i<3. P i) \<longleftrightarrow> P (0 :: nat) \<and> P 1 \<and> P 2"
  by (auto simp: eval_nat_numeral less_Suc_eq)

lemma convertaccess_nz:
  assumes "access AND 7 = access" "access \<noteq> 0"
  shows "auth_filesystem_convertaccess access \<noteq> 0"
    and "bit access 0 \<or> bit access 1 \<or> bit access 2"
proof -
  obtain i where "bit access i" using assms(2) by (auto simp: bit_eq_iff)
  moreover from this have "i < 3" using sub_7 [OF assms(1)] by simp
  ultimately show "auth_filesystem_convertaccess access \<noteq> 0" "bit access 0 \<or> bit access 1 \<or> bit access 2"
    using bit_convertaccess [of access i] by (force, auto simp: eval_nat_numeral less_Suc_eq)
qed

subsection \<open>Properties\<close>

text \<open>A user, the superuser, and a file of the user that its group may read.\<close>

definition ex_user :: cred where
  "ex_user = \<lparr>uid = 1000, euid = 1000, suid = 1000, gid = 100, egid = 100, sgid = 100\<rparr>"

definition ex_root :: cred where
  "ex_root = \<lparr>uid = 0, euid = 0, suid = 0, gid = 0, egid = 0, sgid = 0\<rparr>"

definition ex_file :: vnode where
  "ex_file = \<lparr>vn_type = V_TYPE_REGULAR, vn_attr = \<lparr>va_mode = 0x1a0, va_uid = 1000, va_gid = 100\<rparr>\<rparr>"

text \<open>
  C20: with the default listeners, an unprivileged credential is granted read, write and execute
  access to a file exactly when the mode bits of its class (owner, else group, else others) contain
  every access asked for.
\<close>

theorem file_access_by_class:
  assumes "\<not> CRED_IS_ESU c" and "access AND 7 = access" and "access \<noteq> 0"
  shows "auth_filesystem_check default_scopes (Some c) (auth_filesystem_convertaccess access) vn dirvn =
    Some (if access AND class_bits c (vn_attr vn) = access then E_OK else EPERM)"
proof -
  let ?a = "auth_filesystem_convertaccess access"
  have nz: "?a \<noteq> 0" and some: "bit access 0 \<or> bit access 1 \<or> bit access 2"
    using convertaccess_nz [OF assms(2,3)] by simp_all
  have bits: "bit ?a 0 = bit access 0" "bit ?a 1 = bit access 1" "bit ?a 2 = bit access 2"
    "\<not> bit ?a 3" "\<not> bit ?a 4" "\<not> bit ?a 5" "\<not> bit ?a 6"
    by (simp_all add: bit_convertaccess)
  show ?thesis
    unfolding auth_filesystem_check_def default_check(1) [OF nz] submask [OF assms(2)] all_less_3
    using some class_checks [OF assms(1)] bits nz
    by (auto simp: flag_96 filesystem_def grant_or_deny_def verdict_def Let_def flag_bits fs_action_defs
        AUTH_DECISION_ALLOW_def AUTH_DECISION_DEFER_def AUTH_DECISION_DENY_def)
qed

theorem file_access_by_class_witness:
  "auth_filesystem_check default_scopes (Some ex_user) (auth_filesystem_convertaccess 6) ex_file None =
    Some (if 6 AND class_bits ex_user (vn_attr ex_file) = 6 then E_OK else EPERM)"
  by (rule file_access_by_class) (simp_all add: CRED_IS_ESU_def CRED_SUPERUSER_def ex_user_def)


text \<open>
  An unprivileged credential may unlink an entry exactly when it may write the directory and,
  in a directory with the sticky bit, owns the directory or the entry.
\<close>

lemma unlink_sticky:
  assumes "\<not> CRED_IS_ESU c"
  shows "auth_filesystem_check default_scopes (Some c) AUTH_ACTIONS_FILESYSTEM_UNLINK vn (Some dir) =
    Some (if bit (class_bits c (vn_attr dir)) 1
             \<and> (bit (va_mode (vn_attr dir)) 9 \<longrightarrow> euid c \<in> {va_uid (vn_attr dir), va_uid (vn_attr vn)})
          then E_OK else EPERM)"
proof -
  have "(0x20 :: u32) \<noteq> 0" by simp
  from default_check(1) [OF this] class_checks(1) [OF assms] assms show ?thesis
    by (auto simp: auth_filesystem_check_def fs_action_defs filesystem_def Let_def unlink_rename_def
        verdict_def mode_defs flag_bits AUTH_DECISION_ALLOW_def AUTH_DECISION_DENY_def)
qed

text \<open>The calls a process has to change its credential; \<open>cred_doexec\<close> runs a new program and is not one.\<close>

inductive cred_call :: "cred \<Rightarrow> cred \<Rightarrow> bool" where
  setuids: "cred_setuids default_scopes c u e s = Some (err, c') \<Longrightarrow> cred_call c c'"
| setgids: "cred_setgids default_scopes c g e s = Some (err, c') \<Longrightarrow> cred_call c c'"
| setuid: "cred_setuid default_scopes c u = Some (err, c') \<Longrightarrow> cred_call c c'"
| seteuid: "cred_seteuid default_scopes c e = Some (err, c') \<Longrightarrow> cred_call c c'"
| setgid: "cred_setgid default_scopes c g = Some (err, c') \<Longrightarrow> cred_call c c'"
| setegid: "cred_setegid default_scopes c e = Some (err, c') \<Longrightarrow> cred_call c c'"

definition uids :: "cred \<Rightarrow> int set" where
  "uids c = {uid c, euid c, suid c}"

definition gids :: "cred \<Rightarrow> int set" where
  "gids c = {gid c, egid c, sgid c}"

lemmas cred_action_defs = AUTH_ACTIONS_CRED_SETRESUID_def AUTH_ACTIONS_CRED_SETRESGID_def
  AUTH_ACTIONS_CRED_SETUID_def AUTH_ACTIONS_CRED_SETGID_def AUTH_ACTIONS_CRED_SETEUID_def
  AUTH_ACTIONS_CRED_SETEGID_def

lemma cred_check:
  "auth_cred_check default_scopes (Some c) AUTH_ACTIONS_CRED_SETRESUID i ei si =
     Some (if CRED_IS_ESU c \<or> {i, ei, si} \<subseteq> insert (- 1) (uids c) then E_OK else EPERM)"
  "auth_cred_check default_scopes (Some c) AUTH_ACTIONS_CRED_SETRESGID i ei si =
     Some (if CRED_IS_ESU c \<or> {i, ei, si} \<subseteq> insert (- 1) (gids c) then E_OK else EPERM)"
  "auth_cred_check default_scopes (Some c) AUTH_ACTIONS_CRED_SETUID i ei si =
     Some (if CRED_IS_ESU c \<or> i \<in> {uid c, suid c} then E_OK else EPERM)"
  "auth_cred_check default_scopes (Some c) AUTH_ACTIONS_CRED_SETGID i ei si =
     Some (if CRED_IS_ESU c \<or> i \<in> {gid c, sgid c} then E_OK else EPERM)"
  "auth_cred_check default_scopes (Some c) AUTH_ACTIONS_CRED_SETEUID i ei si =
     Some (if CRED_IS_ESU c \<or> ei \<in> {uid c, suid c} then E_OK else EPERM)"
  "auth_cred_check default_scopes (Some c) AUTH_ACTIONS_CRED_SETEGID i ei si =
     Some (if CRED_IS_ESU c \<or> ei \<in> {gid c, sgid c} then E_OK else EPERM)"
  by (simp_all add: auth_cred_check_def default_check(2) cred_action_defs credlistener_def res_check_def
      id_check_def verdict_def AUTH_DECISION_ALLOW_def AUTH_DECISION_DENY_def uids_def gids_def Let_def)

lemma checked_cases:
  assumes "checked (Some e) c c1 = Some (err, c')"
  shows "c' = c \<or> e = E_OK \<and> c' = c1"
  using assms by (simp add: checked_def split: if_splits)

lemma keep_id: "i \<in> insert (- 1) S \<Longrightarrow> x \<in> S \<Longrightarrow> (if i = - 1 then x else i) \<in> S"
  for i :: int
  by auto

lemma set_ids:
  "uids (c\<lparr>uid := u, euid := e, suid := s\<rparr>) = {u, e, s}" "gids (c\<lparr>uid := u, euid := e, suid := s\<rparr>) = gids c"
  "uids (c\<lparr>gid := u, egid := e, sgid := s\<rparr>) = uids c" "gids (c\<lparr>gid := u, egid := e, sgid := s\<rparr>) = {u, e, s}"
  "uid c \<in> uids c" "euid c \<in> uids c" "suid c \<in> uids c" "gid c \<in> gids c" "egid c \<in> gids c" "sgid c \<in> gids c"
  by (simp_all add: uids_def gids_def)

lemma if_OK: "(if b then E_OK else EPERM) = E_OK \<longleftrightarrow> b"
  by simp

lemma cred_call_keeps:
  assumes "cred_call c c'" and esu: "\<not> CRED_IS_ESU c"
  shows "uids c' \<subseteq> uids c \<and> gids c' \<subseteq> gids c"
  using assms(1)
proof cases
  case (setuids u e s err)
  from checked_cases [OF this [unfolded cred_setuids_def cred_check]] esu show ?thesis
    unfolding if_OK insert_subset by (elim disjE conjE) (simp_all only: set_ids insert_subset keep_id, simp_all)
next
  case (setgids g e s err)
  from checked_cases [OF this [unfolded cred_setgids_def cred_check]] esu show ?thesis
    unfolding if_OK insert_subset by (elim disjE conjE) (simp_all only: set_ids insert_subset keep_id, simp_all)
next
  case (setuid u err)
  with esu show ?thesis
    by (auto simp: cred_setuid_def cred_check uids_def gids_def dest!: checked_cases split: if_split_asm)
next
  case (seteuid e err)
  with esu show ?thesis
    by (auto simp: cred_seteuid_def cred_check uids_def gids_def dest!: checked_cases split: if_split_asm)
next
  case (setgid g err)
  with esu show ?thesis
    by (auto simp: cred_setgid_def cred_check uids_def gids_def dest!: checked_cases split: if_split_asm)
next
  case (setegid e err)
  with esu show ?thesis
    by (auto simp: cred_setegid_def cred_check uids_def gids_def dest!: checked_cases split: if_split_asm)
qed

text \<open>
  C1: no sequence of credential calls gives a process without a superuser id a user or group id it
  did not have; in particular it never becomes the superuser.
\<close>

theorem no_privilege_escalation:
  assumes "cred_call\<^sup>*\<^sup>* c c'" and "CRED_SUPERUSER \<notin> uids c"
  shows "uids c' \<subseteq> uids c \<and> gids c' \<subseteq> gids c \<and> \<not> CRED_IS_ESU c'"
  using assms(1)
proof induction
  case base
  then show ?case using assms(2) by (auto simp: uids_def CRED_IS_ESU_def)
next
  case (step c1 c2)
  from cred_call_keeps [OF step.hyps(2)] step.IH have "uids c2 \<subseteq> uids c \<and> gids c2 \<subseteq> gids c" by blast
  moreover from this assms(2) have "\<not> CRED_IS_ESU c2" by (auto simp: uids_def CRED_IS_ESU_def)
  ultimately show ?case by simp
qed

theorem no_privilege_escalation_witness:
  "uids (ex_user\<lparr>euid := 1000\<rparr>) \<subseteq> uids ex_user \<and> gids (ex_user\<lparr>euid := 1000\<rparr>) \<subseteq> gids ex_user
   \<and> \<not> CRED_IS_ESU (ex_user\<lparr>euid := 1000\<rparr>)"
proof (rule no_privilege_escalation)
  have "cred_seteuid default_scopes ex_user 1000 = Some (E_OK, ex_user\<lparr>euid := 1000\<rparr>)"
    by (simp add: cred_seteuid_def cred_check checked_def ex_user_def)
  then show "cred_call\<^sup>*\<^sup>* ex_user (ex_user\<lparr>euid := 1000\<rparr>)" by (blast intro: cred_call.seteuid)
qed (simp add: uids_def ex_user_def CRED_SUPERUSER_def)

lemma cred_calls_uids:
  assumes "cred_call\<^sup>*\<^sup>* c c'" and "CRED_SUPERUSER \<notin> uids c"
  shows "uids c' \<subseteq> uids c"
  using assms(1)
proof induction
  case (step c1 c2)
  then have "\<not> CRED_IS_ESU c1" using assms(2) by (auto simp: uids_def CRED_IS_ESU_def)
  from cred_call_keeps [OF step.hyps(2) this] step.IH show ?case by blast
qed simp

text \<open>
  C24: the superuser's \<open>setuid\<close> to another user succeeds and is final: whatever calls follow, the
  process has that user's id and no other.
\<close>

theorem setuid_drops_privileges:
  assumes "CRED_IS_ESU c" and "0 < u"
  shows "\<exists>c'. cred_setuid default_scopes c u = Some (E_OK, c') \<and> uids c' = {u}
    \<and> (\<forall>c''. cred_call\<^sup>*\<^sup>* c' c'' \<longrightarrow> uids c'' = {u})"
proof -
  let ?c = "c\<lparr>uid := u, euid := u, suid := u\<rparr>"
  have "cred_setuid default_scopes c u = Some (E_OK, ?c)"
    using assms by (simp add: cred_setuid_def cred_check checked_def)
  moreover have "uids ?c = {u}" by (simp add: uids_def)
  moreover from this have "uids c'' = {u}" if "cred_call\<^sup>*\<^sup>* ?c c''" for c''
    using cred_calls_uids [OF that] assms(2) by (auto simp: uids_def CRED_SUPERUSER_def)
  ultimately show ?thesis by blast
qed

theorem setuid_drops_privileges_witness:
  "\<exists>c'. cred_setuid default_scopes ex_root 1000 = Some (E_OK, c') \<and> uids c' = {1000}
    \<and> (\<forall>c''. cred_call\<^sup>*\<^sup>* c' c'' \<longrightarrow> uids c'' = {1000})"
  by (rule setuid_drops_privileges) (simp_all add: CRED_IS_ESU_def ex_root_def CRED_SUPERUSER_def)

lemma check_listeners_decides:
  assumes "\<forall>l. Some l \<in> set ls \<longrightarrow> (\<exists>d. l c actions a0 a1 a2 = Some d \<and> decision d)" and "0 \<le> n"
  shows "check_listeners n ls c actions a0 a1 a2 =
    Some (if (\<forall>l. Some l \<in> set ls \<longrightarrow> l c actions a0 a1 a2 \<noteq> Some AUTH_DECISION_DENY)
             \<and> (n \<noteq> 0 \<or> (\<exists>l. Some l \<in> set ls \<and> l c actions a0 a1 a2 = Some AUTH_DECISION_ALLOW))
          then E_OK else EPERM)"
  using assms
proof (induction n ls c actions a0 a1 a2 rule: check_listeners.induct)
  case (3 n l ls c actions a0 a1 a2)
  then obtain d where d: "l c actions a0 a1 a2 = Some d" "decision d" by auto
  show ?case
  proof (cases "d = AUTH_DECISION_DENY")
    case False
    with d "3.prems" have "0 \<le> n + d" by (auto simp: decision_defs)
    with 3 d False have IH: "check_listeners (n + d) ls c actions a0 a1 a2 =
      Some (if (\<forall>l. Some l \<in> set ls \<longrightarrow> l c actions a0 a1 a2 \<noteq> Some AUTH_DECISION_DENY)
               \<and> (n + d \<noteq> 0 \<or> (\<exists>l. Some l \<in> set ls \<and> l c actions a0 a1 a2 = Some AUTH_DECISION_ALLOW))
            then E_OK else EPERM)" by simp
    have "d = AUTH_DECISION_ALLOW \<and> n + d \<noteq> 0 \<or> d \<noteq> AUTH_DECISION_ALLOW \<and> n + d = n"
      using d(2) False "3.prems"(2) by (auto simp: decision_defs)
    then show ?thesis using d(1) False IH by auto
  qed (use d in auto)
qed simp_all



end
