(* ===== verification/Dllist.thy ===== *)
theory Dllist
  imports Prelude
begin

text \<open>
  Doubly linked lists threaded through a heap of structures.

  The kernel links its page frames, slabs, address ranges, hash entries and sleeping threads
  through \<open>next\<close>/\<open>prev\<close> fields of the structures themselves. \<open>dseg\<close> and \<open>dllist\<close> say that two
  pointer fields, read as functions, spell out a list of nodes; the locale \<open>dll_heap\<close> is the
  contract a heap of structures with two such fields keeps (a field write changes that field of
  that node and nothing else). Its lemmas describe the three edits the code makes: a push at the
  head, the removal of any node, and writes to nodes outside the list. Every component that owns
  a list interprets it on its own field writes.
\<close>

subsection \<open>Segments\<close>

text \<open>
  \<open>dseg nx pv a x ps b y\<close>: starting at pointer \<open>x\<close>, whose predecessor is \<open>a\<close>, the fields link
  the nodes \<open>ps\<close>; the last node before the end is \<open>b\<close> and the pointer after it is \<open>y\<close>.
\<close>

fun dseg :: "('p \<Rightarrow> 'p option) \<Rightarrow> ('p \<Rightarrow> 'p option) \<Rightarrow> 'p option \<Rightarrow> 'p option \<Rightarrow> 'p list
    \<Rightarrow> 'p option \<Rightarrow> 'p option \<Rightarrow> bool" where
  "dseg nx pv a x [] b y \<longleftrightarrow> x = y \<and> a = b"
| "dseg nx pv a x (p # ps) b y \<longleftrightarrow> x = Some p \<and> pv p = a \<and> dseg nx pv (Some p) (nx p) ps b y"

definition dllist :: "('p \<Rightarrow> 'p option) \<Rightarrow> ('p \<Rightarrow> 'p option) \<Rightarrow> 'p option \<Rightarrow> 'p option \<Rightarrow> 'p list
    \<Rightarrow> bool" where
  "dllist nx pv head tail xs \<longleftrightarrow> distinct xs \<and> dseg nx pv None head xs tail None"

lemma dseg_append:
  "dseg nx pv a x (ps @ qs) b y \<longleftrightarrow> (\<exists>u v. dseg nx pv a x ps u v \<and> dseg nx pv u v qs b y)"
  by (induction ps arbitrary: a x) auto

lemma dseg_frame:
  assumes "\<And>p. p \<in> set ps \<Longrightarrow> nx' p = nx p" and "\<And>p. p \<in> set ps \<Longrightarrow> pv' p = pv p"
  shows "dseg nx' pv' a x ps b y = dseg nx pv a x ps b y"
  using assms by (induction ps arbitrary: a x) auto

lemma dseg_upd_nxt [simp]: "q \<notin> set ps \<Longrightarrow> dseg (nx(q := v)) pv a x ps b y = dseg nx pv a x ps b y"
  by (rule dseg_frame) auto

lemma dseg_upd_prv [simp]: "q \<notin> set ps \<Longrightarrow> dseg nx (pv(q := v)) a x ps b y = dseg nx pv a x ps b y"
  by (rule dseg_frame) auto

lemma dseg_last: "dseg nx pv a x ps b y \<Longrightarrow> b = (if ps = [] then a else Some (last ps))"
  by (induction ps arbitrary: a x) auto

lemma dseg_first: "dseg nx pv a x ps b y \<Longrightarrow> x = (if ps = [] then y else Some (hd ps))"
  by (cases ps) auto

lemma dseg_mid:
  "dseg nx pv a x (ps @ p # qs) b y \<longleftrightarrow>
     dseg nx pv a x ps (pv p) (Some p) \<and> dseg nx pv (Some p) (nx p) qs b y"
  by (auto simp: dseg_append)

text \<open>Redirecting the pointer out of a segment, and the predecessor of a segment.\<close>

lemma dseg_set_end:
  assumes "dseg nx pv a x ps (Some q) y" and "ps \<noteq> []" and "distinct ps"
  shows "dseg (nx(q := v)) pv a x ps (Some q) v"
  using assms
proof (induction ps arbitrary: a x)
  case (Cons p ps)
  show ?case
  proof (cases "ps = []")
    case True
    with Cons.prems show ?thesis by auto
  next
    case False
    with Cons.prems have last: "q = last ps"
      using dseg_last [of nx pv "Some p" "nx p" ps "Some q" y] by simp
    with False Cons.prems have "p \<noteq> q" by auto
    with Cons False show ?thesis by auto
  qed
qed simp

lemma dseg_set_start:
  assumes "dseg nx pv a x ps b y" and "ps = q # qs" and "distinct ps"
  shows "dseg nx (pv(q := v)) v x ps b y"
  using assms by auto

subsection \<open>Lists\<close>

lemma dllist_Nil [simp]: "dllist nx pv head tail [] \<longleftrightarrow> head = None \<and> tail = None"
  by (auto simp: dllist_def)

lemma dllist_distinct: "dllist nx pv head tail xs \<Longrightarrow> distinct xs"
  by (simp add: dllist_def)

lemma dllist_head: "dllist nx pv head tail xs \<Longrightarrow> head = (if xs = [] then None else Some (hd xs))"
  by (auto simp: dllist_def dest: dseg_first)

lemma dllist_tail: "dllist nx pv head tail xs \<Longrightarrow> tail = (if xs = [] then None else Some (last xs))"
  by (auto simp: dllist_def dest: dseg_last)

lemma dllist_frame:
  assumes "\<And>p. p \<in> set xs \<Longrightarrow> nx' p = nx p" and "\<And>p. p \<in> set xs \<Longrightarrow> pv' p = pv p"
  shows "dllist nx' pv' head tail xs = dllist nx pv head tail xs"
  using assms by (simp add: dllist_def cong: dseg_frame)

lemma dllist_unique:
  assumes "dllist nx pv head tail xs" and "dllist nx pv head tail' ys"
  shows "xs = ys"
proof -
  have "dseg nx pv a x ps b None \<Longrightarrow> dseg nx pv a x qs c None \<Longrightarrow> ps = qs" for a x ps b qs c
  proof (induction ps arbitrary: a x qs)
    case Nil
    then show ?case by (cases qs) auto
  next
    case (Cons p ps)
    then show ?case by (cases qs) auto
  qed
  with assms show ?thesis by (auto simp: dllist_def)
qed

lemma dllist_push:
  assumes "dllist nx pv head tail xs" and "p \<notin> set xs"
    and "nx' = nx(p := head)"
    and "pv' = (case head of None \<Rightarrow> pv(p := None) | Some q \<Rightarrow> pv(p := None, q := Some p))"
  shows "dllist nx' pv' (Some p) (if head = None then Some p else tail) (p # xs)"
proof (cases xs)
  case Nil
  with assms show ?thesis by (auto simp: dllist_def)
next
  case (Cons q qs)
  with assms show ?thesis by (auto simp: dllist_def)
qed

lemma dllist_push_back:
  assumes l: "dllist nx pv head tail xs" and "p \<notin> set xs"
    and nx': "nx' = (case tail of None \<Rightarrow> nx(p := None) | Some q \<Rightarrow> nx(q := Some p, p := None))"
    and pv': "pv' = pv(p := tail)"
  shows "dllist nx' pv' (if tail = None then Some p else head) (Some p) (xs @ [p])"
proof (cases "xs = []")
  case True
  with assms show ?thesis by (auto simp: dllist_def)
next
  case False
  then obtain q where q: "tail = Some q" "q = last xs" using dllist_tail [OF l] by auto
  then have "q \<noteq> p" using assms(2) False by auto
  have "dseg (nx(q := Some p)) pv None head xs (Some q) (Some p)"
    using l q False by (intro dseg_set_end) (auto simp: dllist_def)
  with assms(2) have "dseg nx' pv' None head xs (Some q) (Some p)"
    by (simp add: nx' pv' q)
  moreover have "dseg nx' pv' (Some q) (Some p) [p] (Some p) None"
    by (simp add: nx' pv' q)
  ultimately show ?thesis
    using l assms(2) q by (auto simp: dllist_def dseg_append)
qed

lemma dllist_prev_of:
  assumes "dllist nx pv head tail (ps @ p # qs)"
  shows "pv p = (if ps = [] then None else Some (last ps))"
  using assms by (auto simp: dllist_def dseg_mid dest: dseg_last)

lemma dllist_next_of:
  assumes "dllist nx pv head tail (ps @ p # qs)"
  shows "nx p = (if qs = [] then None else Some (hd qs))"
  using assms by (auto simp: dllist_def dseg_mid dest: dseg_first)

text \<open>
  Unlinking node \<open>p\<close>: its neighbours, where it has them, are linked to each other; the head and
  the tail move when \<open>p\<close> was the first or the last node.
\<close>

lemma dllist_remove:
  assumes l: "dllist nx pv head tail (ps @ p # qs)"
    and nx': "\<And>q. q \<noteq> p \<Longrightarrow> nx' q = (if pv p = Some q then nx p else nx q)"
    and pv': "\<And>q. q \<noteq> p \<Longrightarrow> pv' q = (if nx p = Some q then pv p else pv q)"
  shows "dllist nx' pv' (if pv p = None then nx p else head) (if nx p = None then pv p else tail)
           (ps @ qs)"
proof -
  have d: "distinct (ps @ p # qs)" and pre: "dseg nx pv None head ps (pv p) (Some p)"
    and post: "dseg nx pv (Some p) (nx p) qs tail None"
    using l by (auto simp: dllist_def dseg_mid)
  have pp: "pv p = (if ps = [] then None else Some (last ps))"
    using pre by (auto dest: dseg_last)
  have np: "nx p = (if qs = [] then None else Some (hd qs))"
    using post by (auto dest: dseg_first)
  have ps_ok: "x \<noteq> p \<and> nx p \<noteq> Some x" if "x \<in> set ps" for x
    using that d np by (auto split: if_splits dest: hd_in_set)
  have qs_ok: "x \<noteq> p \<and> pv p \<noteq> Some x" if "x \<in> set qs" for x
    using that d pp by (auto split: if_splits dest: last_in_set)
  have A: "dseg nx' pv' None (if pv p = None then nx p else head) ps (pv p) (nx p)"
  proof (cases "ps = []")
    case True
    with pp show ?thesis by simp
  next
    case False
    define q where "q = last ps"
    have "dseg (nx(q := nx p)) pv None head ps (Some q) (nx p)"
      using pre pp False d by (intro dseg_set_end) (auto simp: q_def)
    moreover have "dseg nx' pv' None head ps (Some q) (nx p)
        = dseg (nx(q := nx p)) pv None head ps (Some q) (nx p)"
      using pp False ps_ok by (intro dseg_frame) (simp_all add: nx' pv' q_def)
    ultimately show ?thesis
      using pp False by (simp add: q_def)
  qed
  have B: "dseg nx' pv' (pv p) (nx p) qs (if nx p = None then pv p else tail) None"
  proof (cases qs)
    case Nil
    with np show ?thesis by simp
  next
    case (Cons q rs)
    have "dseg nx (pv(q := pv p)) (pv p) (nx p) qs tail None"
      using post Cons d by auto
    moreover have "dseg nx' pv' (pv p) (nx p) qs tail None
        = dseg nx (pv(q := pv p)) (pv p) (nx p) qs tail None"
      using np Cons qs_ok by (intro dseg_frame) (simp_all add: nx' pv')
    ultimately show ?thesis
      using np Cons by simp
  qed
  from A B have "dseg nx' pv' None (if pv p = None then nx p else head) (ps @ qs)
      (if nx p = None then pv p else tail) None"
    unfolding dseg_append by blast
  with d show ?thesis by (simp add: dllist_def)
qed

subsection \<open>Walking a list\<close>

text \<open>
  The loop \<open>while (p) { if (found(p)) break; p = p->next; }\<close>: it does not return on a cyclic
  heap, so its value is an option. On a list it returns the first node that satisfies the test.
\<close>

partial_function (option) walk :: "('p \<Rightarrow> 'p option) \<Rightarrow> ('p \<Rightarrow> bool) \<Rightarrow> 'p option \<Rightarrow> 'p option option" where
  "walk nx P x = (case x of None \<Rightarrow> Some None | Some p \<Rightarrow>
     (if P p then Some (Some p) else walk nx P (nx p)))"

declare walk.simps [code]

lemma walk_None [simp]: "walk nx P None = Some None"
  by (simp add: walk.simps)

lemma walk_Some: "walk nx P (Some p) = (if P p then Some (Some p) else walk nx P (nx p))"
  by (subst walk.simps) simp

lemma walk_dseg: "dseg nx pv a x ps b None \<Longrightarrow> walk nx P x = Some (find P ps)"
  by (induction ps arbitrary: a x) (auto simp: walk_Some)

lemma walk_dllist: "dllist nx pv head tail xs \<Longrightarrow> walk nx P head = Some (find P xs)"
  by (auto simp: dllist_def walk_dseg)

subsection \<open>Lists without a tail pointer\<close>

definition dchain :: "('p \<Rightarrow> 'p option) \<Rightarrow> ('p \<Rightarrow> 'p option) \<Rightarrow> 'p option \<Rightarrow> 'p list \<Rightarrow> bool" where
  "dchain nx pv head xs \<longleftrightarrow> (\<exists>tail. dllist nx pv head tail xs)"

lemma dchain_Nil [simp]: "dchain nx pv head [] \<longleftrightarrow> head = None"
  by (auto simp: dchain_def)

lemma dchain_distinct: "dchain nx pv head xs \<Longrightarrow> distinct xs"
  by (auto simp: dchain_def dest: dllist_distinct)

lemma dchain_head: "dchain nx pv head xs \<Longrightarrow> head = (if xs = [] then None else Some (hd xs))"
  by (auto simp: dchain_def dest: dllist_head)

lemma dchain_frame:
  assumes "\<And>p. p \<in> set xs \<Longrightarrow> nx' p = nx p \<and> pv' p = pv p"
  shows "dchain nx' pv' head xs = dchain nx pv head xs"
  using dllist_frame [of xs nx' nx pv' pv] assms by (simp add: dchain_def)

lemma dchain_unique: "dchain nx pv head xs \<Longrightarrow> dchain nx pv head ys \<Longrightarrow> xs = ys"
  unfolding dchain_def by (blast intro: dllist_unique)

lemma dchain_next_of:
  "dchain nx pv head (ps @ p # qs) \<Longrightarrow> nx p = (if qs = [] then None else Some (hd qs))"
  unfolding dchain_def by (blast dest: dllist_next_of)

lemma dchain_prev_of:
  "dchain nx pv head (ps @ p # qs) \<Longrightarrow> pv p = (if ps = [] then None else Some (last ps))"
  unfolding dchain_def by (blast dest: dllist_prev_of)

lemma walk_dchain: "dchain nx pv head xs \<Longrightarrow> walk nx P head = Some (find P xs)"
  by (auto simp: dchain_def walk_dllist)

text \<open>Pushing a node, and moving one from a list to the head of another, in whatever order the links are set.\<close>

lemma dchain_push:
  assumes "dchain nx pv head xs" and "p \<notin> set xs"
    and nx': "\<And>q. nx' q = (if q = p then head else nx q)"
    and pv': "\<And>q. pv' q = (if q = p then None else if head = Some q then Some p else pv q)"
  shows "dchain nx' pv' (Some p) (p # xs)"
proof -
  obtain tail where "dllist nx pv head tail xs" using assms(1) by (auto simp: dchain_def)
  moreover have "head \<noteq> Some p" using dchain_head [OF assms(1)] assms(2) by (auto split: if_splits)
  moreover have "nx' = nx(p := head)" by (simp add: nx' fun_eq_iff)
  ultimately have "dllist nx' pv' (Some p) (if head = None then Some p else tail) (p # xs)"
    using assms(2) by (intro dllist_push) (auto simp: pv' fun_eq_iff split: option.split)
  then show ?thesis by (auto simp: dchain_def)
qed

lemma dchain_cut:
  assumes "dchain nx pv head (ps @ p # qs)"
    and "\<And>q. q \<in> set (ps @ qs) \<Longrightarrow> nx' q = (if pv p = Some q then nx p else nx q)"
    and "\<And>q. q \<in> set (ps @ qs) \<Longrightarrow> pv' q = (if nx p = Some q then pv p else pv q)"
  shows "dchain nx' pv' (if pv p = None then nx p else head) (ps @ qs)"
proof -
  obtain tail where "dllist nx pv head tail (ps @ p # qs)" using assms(1) by (auto simp: dchain_def)
  from dllist_remove [OF this, of "\<lambda>q. if pv p = Some q then nx p else nx q" "\<lambda>q. if nx p = Some q then pv p else pv q"]
  have "dchain (\<lambda>q. if pv p = Some q then nx p else nx q) (\<lambda>q. if nx p = Some q then pv p else pv q)
      (if pv p = None then nx p else head) (ps @ qs)" by (auto simp: dchain_def)
  then show ?thesis
    using assms(2,3) dchain_frame [of "ps @ qs" nx' "\<lambda>q. if pv p = Some q then nx p else nx q" pv'
        "\<lambda>q. if nx p = Some q then pv p else pv q"] by simp
qed

lemma dchain_neighbours:
  assumes "dchain nx pv head (ps @ p # qs)"
  shows "nx p = Some u \<Longrightarrow> u \<in> set qs" and "pv p = Some u \<Longrightarrow> u \<in> set ps"
  using dchain_next_of [OF assms] dchain_prev_of [OF assms] by (auto split: if_splits)

lemma dchain_move:
  assumes a: "dchain nx pv ha (ps @ p # qs)" and b: "dchain nx pv hb ys" and d: "set (ps @ p # qs) \<inter> set ys = {}"
    and nx': "\<And>q. nx' q = (if q = p then hb else if pv p = Some q then nx p else nx q)"
    and pv': "\<And>q. pv' q = (if q = p then None else if hb = Some q then Some p else if nx p = Some q then pv p else pv q)"
  shows "dchain nx' pv' (if pv p = None then nx p else ha) (ps @ qs)" and "dchain nx' pv' (Some p) (p # ys)"
    and "u \<notin> set (ps @ p # qs) \<union> set ys \<Longrightarrow> nx' u = nx u \<and> pv' u = pv u"
proof -
  have p: "p \<notin> set (ps @ qs)" using dchain_distinct [OF a] by auto
  have hb: "hb = Some q \<Longrightarrow> q \<in> set ys" for q using dchain_head [OF b] by (auto split: if_splits)
  note nb = dchain_neighbours [OF a]
  show "dchain nx' pv' (if pv p = None then nx p else ha) (ps @ qs)"
    using p hb d by (intro dchain_cut [OF a]) (auto simp: nx' pv')
  let ?nx = "\<lambda>q. if q = p then hb else nx q" and ?pv = "\<lambda>q. if q = p then None else if hb = Some q then Some p else pv q"
  have "dchain ?nx ?pv (Some p) (p # ys)" using d by (intro dchain_push [OF b]) auto
  moreover have "nx' q = ?nx q \<and> pv' q = ?pv q" if "q \<in> set (p # ys)" for q
    using that d nb by (auto simp: nx' pv')
  ultimately show "dchain nx' pv' (Some p) (p # ys)"
    using dchain_frame [of "p # ys" nx' ?nx pv' ?pv] by blast
  show "nx' u = nx u \<and> pv' u = pv u" if "u \<notin> set (ps @ p # qs) \<union> set ys"
    using that hb nb by (auto simp: nx' pv')
qed

text \<open>A family of disjoint lists: a push to one of them and a removal from one of them leave the others alone.\<close>

lemma dchains_push:
  assumes l: "\<And>e. dchain nx pv (head e) (L e)" and dis: "\<And>e e' q. q \<in> set (L e) \<Longrightarrow> q \<in> set (L e') \<Longrightarrow> e = e'"
    and p: "\<And>e. p \<notin> set (L e)"
    and nx': "\<And>q. nx' q = (if q = p then head i else nx q)"
    and pv': "\<And>q. pv' q = (if q = p then None else if head i = Some q then Some p else pv q)"
  shows "dchain nx' pv' ((head(i := Some p)) e) ((L(i := p # L i)) e)"
proof (cases "e = i")
  case True
  then show ?thesis using dchain_push [OF l [of i] p nx' pv'] by simp
next
  case False
  have "nx' q = nx q \<and> pv' q = pv q" if "q \<in> set (L e)" for q
  proof -
    have "q \<notin> set (L i)" using dis [OF that] False by blast
    moreover have "head i = Some q \<Longrightarrow> q \<in> set (L i)" using dchain_head [OF l [of i]] by (auto split: if_splits)
    ultimately show ?thesis using that p by (auto simp: nx' pv')
  qed
  then show ?thesis using False l [of e] dchain_frame [of "L e" nx' nx pv' pv] by simp
qed

lemma dchains_remove:
  assumes l: "\<And>e. dchain nx pv (head e) (L e)" and dis: "\<And>e e' q. q \<in> set (L e) \<Longrightarrow> q \<in> set (L e') \<Longrightarrow> e = e'"
    and p: "p \<in> set (L i)"
    and nx': "\<And>q. q \<noteq> p \<Longrightarrow> nx' q = (if pv p = Some q then nx p else nx q)"
    and pv': "\<And>q. q \<noteq> p \<Longrightarrow> pv' q = (if nx p = Some q then pv p else pv q)"
  shows "dchain nx' pv' ((if pv p = None then head(i := nx p) else head) e) ((L(i := remove1 p (L i))) e)"
proof -
  obtain ps qs where L: "L i = ps @ p # qs" "p \<notin> set ps" using p by (meson split_list_first)
  have d: "p \<notin> set (ps @ qs)" using dchain_distinct [OF l [of i]] L by auto
  have li: "dchain nx pv (head i) (ps @ p # qs)" using l [of i] L by simp
  show ?thesis
  proof (cases "e = i")
    case True
    have "dchain nx' pv' (if pv p = None then nx p else head i) (ps @ qs)"
    proof (rule dchain_cut [OF li])
      fix q
      assume "q \<in> set (ps @ qs)"
      then have "q \<noteq> p" using d by blast
      then show "nx' q = (if pv p = Some q then nx p else nx q)" "pv' q = (if nx p = Some q then pv p else pv q)"
        by (rule nx', rule pv')
    qed
    then show ?thesis using True L by (auto simp: remove1_append)
  next
    case False
    have "nx' q = nx q \<and> pv' q = pv q" if "q \<in> set (L e)" for q
    proof -
      have "q \<notin> set (L i)" using dis [OF that] False by blast
      then have "q \<noteq> p" "pv p \<noteq> Some q" "nx p \<noteq> Some q" using dchain_neighbours [OF li, of q] L by auto
      then show ?thesis using nx' [of q] pv' [of q] by simp
    qed
    then show ?thesis using False l [of e] dchain_frame [of "L e" nx' nx pv' pv] by simp
  qed
qed

subsection \<open>Singly linked lists\<close>

text \<open>The list from a pointer to another along the next pointers; a list with other links may contain it.\<close>

fun nchain :: "('p \<Rightarrow> 'p option) \<Rightarrow> 'p option \<Rightarrow> 'p list \<Rightarrow> 'p option \<Rightarrow> bool" where
  "nchain nx x [] y \<longleftrightarrow> x = y"
| "nchain nx x (p # ps) y \<longleftrightarrow> x = Some p \<and> nchain nx (nx p) ps y"

lemma nchain_append: "nchain nx x (xs @ ys) y \<longleftrightarrow> (\<exists>m. nchain nx x xs m \<and> nchain nx m ys y)"
  by (induction xs arbitrary: x) auto

lemma nchain_frame: "nchain nx x ps y \<Longrightarrow> (\<And>p. p \<in> set ps \<Longrightarrow> nx' p = nx p) \<Longrightarrow> nchain nx' x ps y"
  by (induction ps arbitrary: x) auto

lemma nchain_snoc: "nchain nx x (xs @ [p]) y \<longleftrightarrow> nchain nx x xs (Some p) \<and> nx p = y"
  by (auto simp: nchain_append)

lemma walk_nchain: "nchain nx x ps None \<Longrightarrow> walk nx P x = Some (find P ps)"
  by (induction ps arbitrary: x) (auto simp: walk_Some)

subsection \<open>The contract of a heap with two link fields\<close>

locale dll_heap =
  fixes nxt :: "'h \<Rightarrow> 'p \<Rightarrow> 'p option"
    and prv :: "'h \<Rightarrow> 'p \<Rightarrow> 'p option"
    and set_nxt :: "'p \<Rightarrow> 'p option \<Rightarrow> 'h \<Rightarrow> 'h"
    and set_prv :: "'p \<Rightarrow> 'p option \<Rightarrow> 'h \<Rightarrow> 'h"
  assumes nxt_set_nxt: "nxt (set_nxt p v h) = (nxt h)(p := v)"
    and nxt_set_prv: "nxt (set_prv p v h) = nxt h"
    and prv_set_nxt: "prv (set_nxt p v h) = prv h"
    and prv_set_prv: "prv (set_prv p v h) = (prv h)(p := v)"
begin

lemmas links = nxt_set_nxt nxt_set_prv prv_set_nxt prv_set_prv

text \<open>A push at the head: link the new node, then the old head back to it.\<close>

lemma push_head:
  assumes "dllist (nxt h) (prv h) head tail xs" and "p \<notin> set xs"
    and "h1 = set_prv p None (set_nxt p head h)"
    and "h2 = (case head of None \<Rightarrow> h1 | Some q \<Rightarrow> set_prv q (Some p) h1)"
  shows "dllist (nxt h2) (prv h2) (Some p) (if head = None then Some p else tail) (p # xs)"
  using assms by (intro dllist_push [OF assms(1,2)]) (auto simp: links split: option.splits)

lemma push_head_frame:
  assumes "dllist (nxt h) (prv h) head tail xs" and "u \<notin> set (p # xs)"
    and "h1 = set_prv p None (set_nxt p head h)"
    and "h2 = (case head of None \<Rightarrow> h1 | Some q \<Rightarrow> set_prv q (Some p) h1)"
  shows "nxt h2 u = nxt h u \<and> prv h2 u = prv h u"
  using assms(2-) dllist_head [OF assms(1)] by (auto simp: links split: option.splits if_splits)

text \<open>An append at the tail: the new node points back, the old tail points to it.\<close>

lemma push_tail:
  assumes "dllist (nxt h) (prv h) head tail xs" and "p \<notin> set xs"
    and "h1 = (case tail of None \<Rightarrow> set_prv p tail h | Some q \<Rightarrow> set_nxt q (Some p) (set_prv p tail h))"
    and "h2 = set_nxt p None h1"
  shows "dllist (nxt h2) (prv h2) (if tail = None then Some p else head) (Some p) (xs @ [p])"
  using assms by (intro dllist_push_back [OF assms(1,2)]) (auto simp: links split: option.splits)

text \<open>The removal of a node: both neighbours skip it.\<close>

lemma unlink:
  assumes l: "dllist (nxt h) (prv h) head tail (ps @ p # qs)"
    and h1: "h1 = (case prv h p of None \<Rightarrow> h | Some q \<Rightarrow> set_nxt q (nxt h p) h)"
    and h2: "h2 = (case nxt h p of None \<Rightarrow> h1 | Some q \<Rightarrow> set_prv q (prv h p) h1)"
  shows "dllist (nxt h2) (prv h2) (if prv h p = None then nxt h p else head)
           (if nxt h p = None then prv h p else tail) (ps @ qs)"
  by (rule dllist_remove [OF l]) (auto simp: h1 h2 links split: option.splits)

lemma unlink_frame:
  assumes l: "dllist (nxt h) (prv h) head tail (ps @ p # qs)" and u: "u \<notin> set (ps @ p # qs)"
    and h1: "h1 = (case prv h p of None \<Rightarrow> h | Some q \<Rightarrow> set_nxt q (nxt h p) h)"
    and h2: "h2 = (case nxt h p of None \<Rightarrow> h1 | Some q \<Rightarrow> set_prv q (prv h p) h1)"
  shows "nxt h2 u = nxt h u \<and> prv h2 u = prv h u"
proof -
  have "ps \<noteq> [] \<Longrightarrow> u \<noteq> last ps" "qs \<noteq> [] \<Longrightarrow> u \<noteq> hd qs" using u by auto
  with dllist_next_of [OF l] dllist_prev_of [OF l] show ?thesis
    by (auto simp: h1 h2 links split: option.splits if_splits)
qed

text \<open>The same two edits on a list without a tail pointer.\<close>

lemma chain_push:
  assumes "dchain (nxt h) (prv h) head xs" and "p \<notin> set xs"
    and "h1 = set_prv p None (set_nxt p head h)"
    and "h2 = (case head of None \<Rightarrow> h1 | Some q \<Rightarrow> set_prv q (Some p) h1)"
  shows "dchain (nxt h2) (prv h2) (Some p) (p # xs)"
    and "u \<notin> set (p # xs) \<Longrightarrow> nxt h2 u = nxt h u \<and> prv h2 u = prv h u"
  using assms(1) push_head [OF _ assms(2-4)] push_head_frame [OF _ _ assms(3,4)]
  by (auto simp: dchain_def)

lemma chain_unlink:
  assumes "dchain (nxt h) (prv h) head (ps @ p # qs)"
    and "h1 = (case prv h p of None \<Rightarrow> h | Some q \<Rightarrow> set_nxt q (nxt h p) h)"
    and "h2 = (case nxt h p of None \<Rightarrow> h1 | Some q \<Rightarrow> set_prv q (prv h p) h1)"
  shows "dchain (nxt h2) (prv h2) (if prv h p = None then nxt h p else head) (ps @ qs)"
    and "u \<notin> set (ps @ p # qs) \<Longrightarrow> nxt h2 u = nxt h u \<and> prv h2 u = prv h u"
proof -
  obtain tail where l: "dllist (nxt h) (prv h) head tail (ps @ p # qs)" using assms(1) by (auto simp: dchain_def)
  show "dchain (nxt h2) (prv h2) (if prv h p = None then nxt h p else head) (ps @ qs)"
    unfolding dchain_def using unlink [OF l assms(2,3)] by blast
  show "nxt h2 u = nxt h u \<and> prv h2 u = prv h u" if "u \<notin> set (ps @ p # qs)"
    by (rule unlink_frame [OF l that assms(2,3)])
qed

lemma frame_nxt:
  "p \<notin> set xs \<Longrightarrow>
   dllist (nxt (set_nxt p v h)) (prv (set_nxt p v h)) head tail xs = dllist (nxt h) (prv h) head tail xs"
  by (intro dllist_frame) (auto simp: links)

lemma frame_prv:
  "p \<notin> set xs \<Longrightarrow>
   dllist (nxt (set_prv p v h)) (prv (set_prv p v h)) head tail xs = dllist (nxt h) (prv h) head tail xs"
  by (intro dllist_frame) (auto simp: links)

end

end
