(* ===== verification/Scheduler.thy ===== *)
theory Scheduler
  imports Dllist
begin

text \<open>
  The thread scheduler of \<^verbatim>\<open>src/kernel-src/sys/scheduler/scheduler.c\<close>, with the thread exit of
  \<^verbatim>\<open>src/kernel-src/sys/thread.c\<close>.

  The state holds the threads, the 64 run queues with their bitmap and, for each CPU, the thread
  that runs on it and its idle thread. A thread pointer is a number; a thread's flag word is the set
  of its flags. Each function is a transformer of the state that takes the CPU it runs on
  (\<open>current_cpu()\<close>); \<open>None\<close> is a failed assertion or a walk that does not end. Register contexts,
  stacks, page tables and interrupt masks have no counterpart.

  The queues are lists threaded through the threads (\<open>dll_heap\<close>). The lemmas show that they refine
  64 abstract FIFO queues and that picking a thread finds the best one, and that with every function
  run in one piece, as its locks suggest, no thread runs on two CPUs and no assertion fails.
\<close>

unbundle bit_operations_syntax

subsection \<open>State\<close>

type_synonym tid = nat
type_synonym cpuid = nat
type_synonym sigset = "nat set"

datatype tflag = THREAD_FLAGS_QUEUED | THREAD_FLAGS_RUNNING | THREAD_FLAGS_SLEEP
  | THREAD_FLAGS_INTERRUPTIBLE | THREAD_FLAGS_PREEMPTED | THREAD_FLAGS_DEAD

record thread =
  t_next :: "tid option"
  t_prev :: "tid option"
  t_sleepnext :: "tid option"
  t_sleepprev :: "tid option"
  t_proc :: "nat option"
  t_cputarget :: "cpuid option"
  t_flags :: "tflag set"
  t_priority :: nat
  t_sleeplock :: bool
  t_wakeupreason :: int
  t_shouldexit :: bool
  t_mask :: sigset
  t_pending :: sigset
  t_urgent :: sigset

datatype sighandler = SIG_DFL | SIG_IGN | SIG_HANDLER addr

record procsignals =
  ps_pending :: sigset
  ps_actions :: "nat \<Rightarrow> sighandler"

record rqueue =
  rq_list :: "tid option"
  rq_last :: "tid option"

record cpu =
  c_thread :: "tid option"
  c_idlethread :: tid

record sched =
  threads :: "tid \<Rightarrow> thread"
  procs :: "nat \<Rightarrow> procsignals"
  runqueue :: "nat \<Rightarrow> rqueue"
  runqueuebitmap :: u64
  cpus :: "cpuid \<Rightarrow> cpu"

definition RUNQUEUE_COUNT :: nat where "RUNQUEUE_COUNT = 64"
definition NSIG :: nat where "NSIG = 65"
definition SCHED_WAKEUP_REASON_NORMAL :: int where "SCHED_WAKEUP_REASON_NORMAL = 0"
definition SCHED_WAKEUP_REASON_INTERRUPTED :: int where "SCHED_WAKEUP_REASON_INTERRUPTED = - 1"

datatype sigdefault = SIG_ACTION_TERM | SIG_ACTION_IGN | SIG_ACTION_CORE | SIG_ACTION_STOP | SIG_ACTION_CONT

text \<open>The table of default actions, by signal number; entries the source leaves out are 0, \<open>TERM\<close>.\<close>

definition signal_defaultactions :: "nat \<Rightarrow> sigdefault" where
  "signal_defaultactions i =
     (if i \<in> {6, 7, 8, 4, 3, 11, 31, 5, 24, 25} then SIG_ACTION_CORE
      else if i \<in> {17, 23, 28} then SIG_ACTION_IGN
      else if i = 18 then SIG_ACTION_CONT
      else if i \<in> {19, 20, 21, 22} then SIG_ACTION_STOP
      else SIG_ACTION_TERM)"

subsection \<open>Field access\<close>

definition upd_thread :: "tid \<Rightarrow> (thread \<Rightarrow> thread) \<Rightarrow> sched \<Rightarrow> sched" where
  "upd_thread t f s = s\<lparr>threads := (threads s)(t := f (threads s t))\<rparr>"

definition set_next :: "tid \<Rightarrow> tid option \<Rightarrow> sched \<Rightarrow> sched" where
  "set_next t v = upd_thread t (\<lambda>th. th\<lparr>t_next := v\<rparr>)"

definition set_prev :: "tid \<Rightarrow> tid option \<Rightarrow> sched \<Rightarrow> sched" where
  "set_prev t v = upd_thread t (\<lambda>th. th\<lparr>t_prev := v\<rparr>)"

definition flags_on :: "tid \<Rightarrow> tflag set \<Rightarrow> sched \<Rightarrow> sched" where
  "flags_on t F = upd_thread t (\<lambda>th. th\<lparr>t_flags := t_flags th \<union> F\<rparr>)"

definition flags_off :: "tid \<Rightarrow> tflag set \<Rightarrow> sched \<Rightarrow> sched" where
  "flags_off t F = upd_thread t (\<lambda>th. th\<lparr>t_flags := t_flags th - F\<rparr>)"

definition flags :: "sched \<Rightarrow> tid \<Rightarrow> tflag set" where
  "flags s t = t_flags (threads s t)"

definition upd_queue :: "nat \<Rightarrow> (rqueue \<Rightarrow> rqueue) \<Rightarrow> sched \<Rightarrow> sched" where
  "upd_queue i f s = s\<lparr>runqueue := (runqueue s)(i := f (runqueue s i))\<rparr>"

definition current_thread :: "sched \<Rightarrow> cpuid \<Rightarrow> tid option" where
  "current_thread s cpu = c_thread (cpus s cpu)"

definition set_current :: "cpuid \<Rightarrow> tid option \<Rightarrow> sched \<Rightarrow> sched" where
  "set_current cpu t s = s\<lparr>cpus := (cpus s)(cpu := (cpus s cpu)\<lparr>c_thread := t\<rparr>)\<rparr>"

definition nextp :: "sched \<Rightarrow> tid \<Rightarrow> tid option" where
  "nextp s t = t_next (threads s t)"

definition prevp :: "sched \<Rightarrow> tid \<Rightarrow> tid option" where
  "prevp s t = t_prev (threads s t)"

subsection \<open>The run queues\<close>

definition eligible :: "sched \<Rightarrow> cpuid \<Rightarrow> tid \<Rightarrow> bool" where
  "eligible s cpu t \<longleftrightarrow> t_cputarget (threads s t) = None \<or> t_cputarget (threads s t) = Some cpu"

definition getinrunqueue :: "cpuid \<Rightarrow> nat \<Rightarrow> sched \<Rightarrow> (tid option \<times> sched) option" where
  "getinrunqueue cpu i s =
     (case walk (nextp s) (eligible s cpu) (rq_list (runqueue s i)) of
        None \<Rightarrow> None
      | Some None \<Rightarrow> Some (None, s)
      | Some (Some thread) \<Rightarrow>
          (let s = (case prevp s thread of
                      Some p \<Rightarrow> set_next p (nextp s thread) s
                    | None \<Rightarrow> upd_queue i (\<lambda>rq. rq\<lparr>rq_list := nextp s thread\<rparr>) s);
               s = (case nextp s thread of
                      Some n \<Rightarrow> set_prev n (prevp s thread) s
                    | None \<Rightarrow> upd_queue i (\<lambda>rq. rq\<lparr>rq_last := prevp s thread\<rparr>) s)
           in Some (Some thread, s)))"

fun runqueue_loop :: "cpuid \<Rightarrow> nat \<Rightarrow> nat list \<Rightarrow> sched \<Rightarrow> (tid option \<times> sched) option" where
  "runqueue_loop cpu minprio [] s = Some (None, s)"
| "runqueue_loop cpu minprio (i # is) s =
     (if i \<le> minprio
      then case getinrunqueue cpu i s of
             None \<Rightarrow> None
           | Some (None, s) \<Rightarrow> runqueue_loop cpu minprio is s
           | Some (Some thread, s) \<Rightarrow>
               Some (Some thread,
                 if rq_list (runqueue s i) = None
                 then s\<lparr>runqueuebitmap := runqueuebitmap s AND NOT (push_bit i 1)\<rparr> else s)
      else Some (None, s))"

definition runqueuenext :: "cpuid \<Rightarrow> nat \<Rightarrow> sched \<Rightarrow> (tid option \<times> sched) option" where
  "runqueuenext cpu minprio s =
     (if runqueuebitmap s = 0 then Some (None, s)
      else case runqueue_loop cpu minprio [0..<RUNQUEUE_COUNT] s of
             None \<Rightarrow> None
           | Some (None, s) \<Rightarrow> Some (None, s)
           | Some (Some thread, s) \<Rightarrow> Some (Some thread, flags_off thread {THREAD_FLAGS_QUEUED} s))"

definition runqueueinsert :: "tid \<Rightarrow> sched \<Rightarrow> sched option" where
  "runqueueinsert thread s =
     (if THREAD_FLAGS_RUNNING \<in> flags s thread then None
      else
        let s = flags_on thread {THREAD_FLAGS_QUEUED} s;
            prio = t_priority (threads s thread);
            s = s\<lparr>runqueuebitmap := runqueuebitmap s OR push_bit prio 1\<rparr>;
            s = set_prev thread (rq_last (runqueue s prio)) s;
            s = (case prevp s thread of
                   Some p \<Rightarrow> set_next p (Some thread) s
                 | None \<Rightarrow> upd_queue prio (\<lambda>rq. rq\<lparr>rq_list := Some thread\<rparr>) s);
            s = set_next thread None s;
            s = upd_queue prio (\<lambda>rq. rq\<lparr>rq_last := Some thread\<rparr>) s
        in Some s)"

definition sched_queue :: "tid \<Rightarrow> sched \<Rightarrow> sched option" where
  "sched_queue thread s =
     (if THREAD_FLAGS_QUEUED \<in> flags s thread \<or> THREAD_FLAGS_RUNNING \<in> flags s thread then None
      else runqueueinsert thread s)"

subsection \<open>Switching threads\<close>

text \<open>The part of \<open>switch_thread\<close> before the context is loaded.\<close>

definition switch_thread :: "cpuid \<Rightarrow> tid option \<Rightarrow> tid \<Rightarrow> sched \<Rightarrow> sched option" where
  "switch_thread cpu current thread s =
     (let s = set_current cpu (Some thread) s;
          s = (case current of Some c \<Rightarrow> flags_off c {THREAD_FLAGS_RUNNING} s | None \<Rightarrow> s)
      in if THREAD_FLAGS_RUNNING \<in> flags s thread then None
         else
           let s = (case current of
                      Some c \<Rightarrow> if THREAD_FLAGS_SLEEP \<in> flags s c
                                then upd_thread c (\<lambda>th. th\<lparr>t_sleeplock := False\<rparr>) s else s
                    | None \<Rightarrow> s);
               s = flags_on thread {THREAD_FLAGS_RUNNING} s
           in if THREAD_FLAGS_QUEUED \<in> flags s thread then None else Some s)"

text \<open>The priority limit that admits every queue.\<close>

definition ANY_PRIO :: nat where "ANY_PRIO = 0x0fffffff"

definition or_idle :: "sched \<Rightarrow> cpuid \<Rightarrow> tid option \<Rightarrow> tid" where
  "or_idle s cpu next = (case next of Some t \<Rightarrow> t | None \<Rightarrow> c_idlethread (cpus s cpu))"

text \<open>\<open>sched_stop_current_thread\<close>, up to and after giving up the run queue lock.\<close>

definition stop_select :: "cpuid \<Rightarrow> sched \<Rightarrow> (tid \<times> sched) option" where
  "stop_select cpu s =
     (let s = (case current_thread s cpu of
                 Some c \<Rightarrow> flags_off c {THREAD_FLAGS_RUNNING} s | None \<Rightarrow> s)
      in map_option (\<lambda>(next, s). (or_idle s cpu next, s)) (runqueuenext cpu ANY_PRIO s))"

definition sched_stop_current_thread :: "cpuid \<Rightarrow> sched \<Rightarrow> sched option" where
  "sched_stop_current_thread cpu s =
     (case stop_select cpu s of
        None \<Rightarrow> None
      | Some (next, s) \<Rightarrow> switch_thread cpu (current_thread s cpu) next s)"

fun signal_loop :: "sched \<Rightarrow> tid \<Rightarrow> nat \<Rightarrow> nat list \<Rightarrow> bool" where
  "signal_loop s thread p [] = False"
| "signal_loop s thread p (i # is) =
     (let th = threads s thread; action = ps_actions (procs s p) i
      in if i \<in> t_urgent th then True
         else if action = SIG_IGN \<or> action = SIG_DFL \<and> signal_defaultactions i = SIG_ACTION_IGN \<or> i \<in> t_mask th
         then signal_loop s thread p is
         else if i \<in> t_pending th \<or> i \<in> ps_pending (procs s p) then True
         else signal_loop s thread p is)"

definition gotsignal :: "sched \<Rightarrow> tid \<Rightarrow> bool" where
  "gotsignal s thread =
     (case t_proc (threads s thread) of None \<Rightarrow> False | Some p \<Rightarrow> signal_loop s thread p [1..<NSIG])"

text \<open>
  \<open>yield\<close> up to giving up the run queue lock: the thread to switch to, or \<open>None\<close> when the caller
  goes on running.
\<close>

definition yield_select :: "cpuid \<Rightarrow> sched \<Rightarrow> (tid option \<times> sched) option" where
  "yield_select cpu s =
     (case current_thread s cpu of None \<Rightarrow> None | Some thread \<Rightarrow>
       (let sleeping = (THREAD_FLAGS_SLEEP \<in> flags s thread)
        in case runqueuenext cpu (if sleeping then ANY_PRIO else t_priority (threads s thread)) s of
             None \<Rightarrow> None
           | Some (next, s) \<Rightarrow>
               if sleeping \<and> (t_shouldexit (threads s thread) \<or> gotsignal s thread)
                  \<and> THREAD_FLAGS_INTERRUPTIBLE \<in> flags s thread
               then
                 map_option
                   (\<lambda>s. (None, upd_thread thread (\<lambda>th. th\<lparr>t_wakeupreason := SCHED_WAKEUP_REASON_INTERRUPTED,
                            t_sleeplock := False\<rparr>)
                          (flags_off thread {THREAD_FLAGS_SLEEP, THREAD_FLAGS_INTERRUPTIBLE} s)))
                   (case next of Some n \<Rightarrow> runqueueinsert n s | None \<Rightarrow> Some s)
               else if next \<noteq> None \<or> sleeping
               then
                 (let s = flags_off thread {THREAD_FLAGS_RUNNING} s
                  in map_option (\<lambda>s. (Some (or_idle s cpu next), s))
                       (if sleeping then Some s else runqueueinsert thread s))
               else Some (None, s)))"

definition yield :: "cpuid \<Rightarrow> sched \<Rightarrow> sched option" where
  "yield cpu s =
     (case yield_select cpu s of
        None \<Rightarrow> None
      | Some (None, s) \<Rightarrow> Some s
      | Some (Some next, s) \<Rightarrow> switch_thread cpu (current_thread s cpu) next s)"

text \<open>What \<open>sched_yield\<close> returns once the thread runs again; \<open>sleeping\<close> was read before.\<close>

definition sched_yield_result :: "sched \<Rightarrow> tid \<Rightarrow> bool \<Rightarrow> int" where
  "sched_yield_result s thread sleeping = (if sleeping then t_wakeupreason (threads s thread) else 0)"

definition sched_prepare_sleep :: "cpuid \<Rightarrow> bool \<Rightarrow> sched \<Rightarrow> sched option" where
  "sched_prepare_sleep cpu interruptible s =
     (case current_thread s cpu of None \<Rightarrow> None | Some thread \<Rightarrow>
        Some (flags_on thread
          ({THREAD_FLAGS_SLEEP} \<union> (if interruptible then {THREAD_FLAGS_INTERRUPTIBLE} else {}))
          (upd_thread thread (\<lambda>th. th\<lparr>t_sleeplock := True\<rparr>) s)))"

definition sched_wakeup :: "tid \<Rightarrow> int \<Rightarrow> sched \<Rightarrow> (bool \<times> sched) option" where
  "sched_wakeup thread reason s =
     (if THREAD_FLAGS_SLEEP \<notin> flags s thread
         \<or> reason = SCHED_WAKEUP_REASON_INTERRUPTED \<and> THREAD_FLAGS_INTERRUPTIBLE \<notin> flags s thread
      then Some (False, s)
      else map_option (\<lambda>s. (True, s))
        (sched_queue thread
          (upd_thread thread (\<lambda>th. th\<lparr>t_wakeupreason := reason\<rparr>)
            (flags_off thread {THREAD_FLAGS_SLEEP, THREAD_FLAGS_INTERRUPTIBLE} s))))"

definition preempt_select :: "cpuid \<Rightarrow> sched \<Rightarrow> (tid \<times> sched) option" where
  "preempt_select cpu s =
     (case current_thread s cpu of None \<Rightarrow> None | Some current \<Rightarrow>
       (case runqueuenext cpu (t_priority (threads s current)) s of
          None \<Rightarrow> None
        | Some (next, s) \<Rightarrow>
            (let s = flags_off current {THREAD_FLAGS_PREEMPTED} s
             in case next of
                  Some n \<Rightarrow> map_option (Pair n) (runqueueinsert current (flags_off current {THREAD_FLAGS_RUNNING} s))
                | None \<Rightarrow> Some (current, s))))"

definition dopreempt :: "cpuid \<Rightarrow> sched \<Rightarrow> sched option" where
  "dopreempt cpu s =
     (case preempt_select cpu s of
        None \<Rightarrow> None
      | Some (next, s) \<Rightarrow> switch_thread cpu (current_thread s cpu) next s)"

text \<open>\<open>preempt_dpc\<close> marks the thread and reports whether \<open>dopreempt\<close> is to run.\<close>

definition preempt_dpc :: "cpuid \<Rightarrow> sched \<Rightarrow> (bool \<times> sched) option" where
  "preempt_dpc cpu s =
     (case current_thread s cpu of None \<Rightarrow> None | Some current \<Rightarrow>
        if THREAD_FLAGS_PREEMPTED \<in> flags s current then Some (False, s)
        else Some (True, flags_on current {THREAD_FLAGS_PREEMPTED} s))"

definition sched_target_cpu :: "cpuid \<Rightarrow> cpuid option \<Rightarrow> sched \<Rightarrow> sched option" where
  "sched_target_cpu cpu target s =
     map_option (\<lambda>t. upd_thread t (\<lambda>th. th\<lparr>t_cputarget := target\<rparr>) s) (current_thread s cpu)"

text \<open>
  \<open>reschedule_yield\<close>, and \<open>sched_reschedule_on_cpu\<close> up to the yield: \<open>Inl\<close> when the thread is on the
  CPU already. What the caller restores when it runs again is \<open>sched_reschedule_resume\<close>.
\<close>

definition reschedule_yield :: "cpuid \<Rightarrow> sched \<Rightarrow> sched option" where
  "reschedule_yield cpu s =
     (case current_thread s cpu of None \<Rightarrow> None | Some thread \<Rightarrow>
       (case runqueuenext cpu ANY_PRIO s of
          None \<Rightarrow> None
        | Some (next, s) \<Rightarrow>
            (case runqueueinsert thread (flags_off thread {THREAD_FLAGS_RUNNING} s) of
               None \<Rightarrow> None
             | Some s \<Rightarrow> switch_thread cpu (current_thread s cpu) (or_idle s cpu next) s)))"

definition sched_reschedule_on_cpu :: "cpuid \<Rightarrow> cpuid \<Rightarrow> bool \<Rightarrow> sched \<Rightarrow> sched option" where
  "sched_reschedule_on_cpu cpu cpu' target s =
     (case current_thread s cpu of None \<Rightarrow> None | Some thread \<Rightarrow>
       (let old = t_cputarget (threads s thread);
            s = upd_thread thread (\<lambda>th. th\<lparr>t_cputarget := Some cpu'\<rparr>) s
        in if cpu' = cpu
           then Some (if target then s else upd_thread thread (\<lambda>th. th\<lparr>t_cputarget := old\<rparr>) s)
           else reschedule_yield cpu (upd_thread thread (\<lambda>th. th\<lparr>t_priority := 0\<rparr>) s)))"

definition sched_reschedule_resume :: "cpuid \<Rightarrow> cpuid option \<Rightarrow> nat \<Rightarrow> bool \<Rightarrow> sched \<Rightarrow> sched option" where
  "sched_reschedule_resume cpu old_target old_priority target s =
     (case current_thread s cpu of None \<Rightarrow> None | Some thread \<Rightarrow>
        Some (upd_thread thread (\<lambda>th. th\<lparr>t_priority := old_priority,
                t_cputarget := (if target then t_cputarget th else old_target)\<rparr>) s))"

text \<open>\<open>threadexit_internal\<close>: the CPU forgets the thread, which is marked dead.\<close>

definition threadexit_internal :: "cpuid \<Rightarrow> sched \<Rightarrow> sched option" where
  "threadexit_internal cpu s =
     (case current_thread s cpu of None \<Rightarrow> None | Some thread \<Rightarrow>
        sched_stop_current_thread cpu (flags_on thread {THREAD_FLAGS_DEAD} (set_current cpu None s)))"


subsection \<open>The queues as lists\<close>

lemma upd_thread_simps [simp]:
  "threads (upd_thread t f s) = (threads s)(t := f (threads s t))"
  "procs (upd_thread t f s) = procs s" "runqueue (upd_thread t f s) = runqueue s"
  "runqueuebitmap (upd_thread t f s) = runqueuebitmap s" "cpus (upd_thread t f s) = cpus s"
  by (simp_all add: upd_thread_def)

lemma upd_queue_simps [simp]:
  "threads (upd_queue i f s) = threads s" "procs (upd_queue i f s) = procs s"
  "runqueue (upd_queue i f s) = (runqueue s)(i := f (runqueue s i))"
  "runqueuebitmap (upd_queue i f s) = runqueuebitmap s" "cpus (upd_queue i f s) = cpus s"
  by (simp_all add: upd_queue_def)

lemma link_simps [simp]:
  "procs (set_next t v s) = procs s" "runqueue (set_next t v s) = runqueue s"
  "runqueuebitmap (set_next t v s) = runqueuebitmap s" "cpus (set_next t v s) = cpus s"
  "procs (set_prev t v s) = procs s" "runqueue (set_prev t v s) = runqueue s"
  "runqueuebitmap (set_prev t v s) = runqueuebitmap s" "cpus (set_prev t v s) = cpus s"
  "procs (flags_on t F s) = procs s" "runqueue (flags_on t F s) = runqueue s"
  "runqueuebitmap (flags_on t F s) = runqueuebitmap s" "cpus (flags_on t F s) = cpus s"
  "procs (flags_off t F s) = procs s" "runqueue (flags_off t F s) = runqueue s"
  "runqueuebitmap (flags_off t F s) = runqueuebitmap s" "cpus (flags_off t F s) = cpus s"
  by (simp_all add: set_next_def set_prev_def flags_on_def flags_off_def)

text \<open>A thread without its queue links; everything but the links of the queues.\<close>

definition core :: "sched \<Rightarrow> tid \<Rightarrow> thread" where
  "core s t = (threads s t)\<lparr>t_next := None, t_prev := None\<rparr>"

lemma core_simps [simp]:
  "core (set_next t v s) = core s" "core (set_prev t v s) = core s" "core (upd_queue i f s) = core s"
  "core (s\<lparr>runqueuebitmap := b\<rparr>) = core s"
  "core (flags_on t F s) = (core s)(t := core s t\<lparr>t_flags := t_flags (core s t) \<union> F\<rparr>)"
  "core (flags_off t F s) = (core s)(t := core s t\<lparr>t_flags := t_flags (core s t) - F\<rparr>)"
  "core (set_current cpu v s) = core s"
  by (auto simp: core_def fun_eq_iff set_next_def set_prev_def flags_on_def flags_off_def set_current_def)

lemma core_fields:
  "flags s t = t_flags (core s t)" "t_priority (threads s t) = t_priority (core s t)"
  "t_cputarget (threads s t) = t_cputarget (core s t)" "t_sleeplock (threads s t) = t_sleeplock (core s t)"
  "t_shouldexit (threads s t) = t_shouldexit (core s t)"
  by (simp_all add: core_def flags_def)

lemma eligible_core: "eligible s cpu t \<longleftrightarrow> t_cputarget (core s t) \<in> {None, Some cpu}"
  by (simp add: eligible_def core_fields)

interpretation runq: dll_heap nextp prevp set_next set_prev
  by unfold_locales (auto simp: nextp_def prevp_def set_next_def set_prev_def fun_eq_iff)

lemma links_frame [simp]:
  "nextp (upd_queue i f s) = nextp s" "prevp (upd_queue i f s) = prevp s"
  "nextp (flags_on t F s) = nextp s" "prevp (flags_on t F s) = prevp s"
  "nextp (flags_off t F s) = nextp s" "prevp (flags_off t F s) = prevp s"
  "nextp (s\<lparr>runqueuebitmap := b\<rparr>) = nextp s" "prevp (s\<lparr>runqueuebitmap := b\<rparr>) = prevp s"
  by (auto simp: fun_eq_iff nextp_def prevp_def flags_on_def flags_off_def)

definition qlinks :: "sched \<Rightarrow> nat \<Rightarrow> tid list \<Rightarrow> bool" where
  "qlinks s i xs \<longleftrightarrow> dllist (nextp s) (prevp s) (rq_list (runqueue s i)) (rq_last (runqueue s i)) xs"

text \<open>
  \<open>Q\<close> lists the threads of each queue: they are the queued threads of that priority, and the bitmap
  has a bit for each queue that is not empty.
\<close>

definition rq_ok :: "sched \<Rightarrow> (nat \<Rightarrow> tid list) \<Rightarrow> bool" where
  "rq_ok s Q \<longleftrightarrow>
     (\<forall>i<64. qlinks s i (Q i) \<and> (bit (runqueuebitmap s) i \<longleftrightarrow> Q i \<noteq> [])) \<and>
     (\<forall>i<64. \<forall>t. t \<in> set (Q i) \<longleftrightarrow> THREAD_FLAGS_QUEUED \<in> t_flags (core s t) \<and> t_priority (core s t) = i)"

lemma rq_ok_disjoint: "rq_ok s Q \<Longrightarrow> i < 64 \<Longrightarrow> j < 64 \<Longrightarrow> t \<in> set (Q i) \<Longrightarrow> t \<in> set (Q j) \<Longrightarrow> i = j"
  by (auto simp: rq_ok_def)

lemma qlinks_frame:
  assumes "qlinks s j xs" and "runqueue s' j = runqueue s j"
    and "\<And>p. p \<in> set xs \<Longrightarrow> nextp s' p = nextp s p" and "\<And>p. p \<in> set xs \<Longrightarrow> prevp s' p = prevp s p"
  shows "qlinks s' j xs"
  using assms by (simp add: qlinks_def dllist_frame [of xs "nextp s'" "nextp s" "prevp s'" "prevp s"])


text \<open>Taking a thread out of a queue, as \<open>getinrunqueue\<close> does it.\<close>

definition unqueue :: "nat \<Rightarrow> tid \<Rightarrow> sched \<Rightarrow> sched" where
  "unqueue i thread s =
     (let s = (case prevp s thread of
                 Some p \<Rightarrow> set_next p (nextp s thread) s
               | None \<Rightarrow> upd_queue i (\<lambda>rq. rq\<lparr>rq_list := nextp s thread\<rparr>) s)
      in (case nextp s thread of
            Some n \<Rightarrow> set_prev n (prevp s thread) s
          | None \<Rightarrow> upd_queue i (\<lambda>rq. rq\<lparr>rq_last := prevp s thread\<rparr>) s))"

lemma unqueue_rest [simp]:
  "core (unqueue i t s) = core s" "procs (unqueue i t s) = procs s" "cpus (unqueue i t s) = cpus s"
  "runqueuebitmap (unqueue i t s) = runqueuebitmap s"
  by (simp_all add: unqueue_def Let_def split: option.splits)

lemma unqueue_links:
  assumes "qlinks s i (ps @ t # qs)"
  shows "qlinks (unqueue i t s) i (ps @ qs)"
    and "j \<noteq> i \<Longrightarrow> runqueue (unqueue i t s) j = runqueue s j"
    and "p \<notin> set (ps @ qs) \<Longrightarrow> nextp (unqueue i t s) p = nextp s p \<and> prevp (unqueue i t s) p = prevp s p"
proof -
  let ?h1 = "case prevp s t of None \<Rightarrow> s | Some q \<Rightarrow> set_next q (nextp s t) s"
  let ?h2 = "case nextp s t of None \<Rightarrow> ?h1 | Some q \<Rightarrow> set_prev q (prevp s t) ?h1"
  note l = assms [unfolded qlinks_def]
  have pv: "prevp s t = (if ps = [] then None else Some (last ps))"
    and nx: "nextp s t = (if qs = [] then None else Some (hd qs))"
    using dllist_prev_of [OF l] dllist_next_of [OF l] by auto
  have d: "t \<notin> set ps" "t \<notin> set qs" using dllist_distinct [OF l] by auto
  have same: "nextp (unqueue i t s) = nextp ?h2" "prevp (unqueue i t s) = prevp ?h2"
    using pv nx d by (auto simp: unqueue_def Let_def runq.links split: option.splits if_splits)
  have "rq_list (runqueue (unqueue i t s) i) = (if prevp s t = None then nextp s t else rq_list (runqueue s i))"
    "rq_last (runqueue (unqueue i t s) i) = (if nextp s t = None then prevp s t else rq_last (runqueue s i))"
    using pv nx d by (auto simp: unqueue_def Let_def runq.links split: option.splits if_splits)
  with runq.unlink [OF l refl refl] show "qlinks (unqueue i t s) i (ps @ qs)"
    by (simp add: qlinks_def same)
  show "runqueue (unqueue i t s) j = runqueue s j" if "j \<noteq> i"
    using that by (simp add: unqueue_def Let_def split: option.splits)
  show "nextp (unqueue i t s) p = nextp s p \<and> prevp (unqueue i t s) p = prevp s p" if "p \<notin> set (ps @ qs)"
  proof -
    have "ps \<noteq> [] \<Longrightarrow> p \<noteq> last ps" "qs \<noteq> [] \<Longrightarrow> p \<noteq> hd qs" using that by auto
    with pv nx show ?thesis by (simp add: same runq.links split: option.splits)
  qed
qed

lemma getinrunqueue_unqueue:
  assumes "qlinks s i xs"
  shows "getinrunqueue cpu i s =
    (case find (eligible s cpu) xs of None \<Rightarrow> Some (None, s) | Some t \<Rightarrow> Some (Some t, unqueue i t s))"
  using walk_dllist [OF assms [unfolded qlinks_def]]
  by (simp add: getinrunqueue_def unqueue_def Let_def split: option.splits)

lemma find_split:
  assumes "find P xs = Some x" and "distinct xs"
  obtains ps qs where "xs = ps @ x # qs" and "remove1 x xs = ps @ qs" and "P x"
proof -
  have "x \<in> set xs" "P x" using assms(1) by (auto simp: find_Some_iff)
  moreover from \<open>x \<in> set xs\<close> obtain ps qs where "xs = ps @ x # qs" by (meson split_list)
  ultimately show ?thesis using assms(2) that [of ps qs] by (simp add: remove1_append)
qed

lemma remove1_other: "rq_ok s Q \<Longrightarrow> t \<in> set (Q i) \<Longrightarrow> i < 64 \<Longrightarrow> j < 64 \<Longrightarrow> j \<noteq> i \<Longrightarrow> remove1 t (Q j) = Q j"
  using rq_ok_disjoint by (metis remove1_idem)

text \<open>The queue a thread was taken from, with its bit cleared if it is empty and the thread's flag off.\<close>

definition take_out :: "nat \<Rightarrow> tid \<Rightarrow> sched \<Rightarrow> sched" where
  "take_out i t s =
     (let s = unqueue i t s
      in if rq_list (runqueue s i) = None
         then s\<lparr>runqueuebitmap := runqueuebitmap s AND NOT (push_bit i 1)\<rparr> else s)"

definition dequeue :: "nat \<Rightarrow> tid \<Rightarrow> sched \<Rightarrow> sched" where
  "dequeue i t s = flags_off t {THREAD_FLAGS_QUEUED} (take_out i t s)"

lemma bit_clear: "i < 64 \<Longrightarrow> j < 64 \<Longrightarrow> bit (b AND NOT (push_bit i 1) :: u64) j \<longleftrightarrow> bit b j \<and> j \<noteq> i"
  by (auto simp: bit_and_iff bit_not_iff bit_exp_iff possible_bit_word)

lemma bit_set: "i < 64 \<Longrightarrow> j < 64 \<Longrightarrow> bit (b OR push_bit i 1 :: u64) j \<longleftrightarrow> bit b j \<or> j = i"
  by (auto simp: bit_or_iff bit_exp_iff possible_bit_word)

lemma dequeue_core:
  "core (dequeue i t s) = (core s)(t := core s t\<lparr>t_flags := t_flags (core s t) - {THREAD_FLAGS_QUEUED}\<rparr>)"
  "cpus (dequeue i t s) = cpus s" "procs (dequeue i t s) = procs s"
  by (simp_all add: dequeue_def take_out_def Let_def)

lemma dequeue_ok:
  assumes ok: "rq_ok s Q" and i: "i < 64" and t: "t \<in> set (Q i)"
  shows "rq_ok (dequeue i t s) (\<lambda>j. remove1 t (Q j))"
proof -
  have q: "qlinks s i (Q i)" using ok i by (simp add: rq_ok_def)
  then have d: "distinct (Q i)" by (auto simp: qlinks_def dest: dllist_distinct)
  obtain ps qs where Q: "Q i = ps @ t # qs" using t by (meson split_list)
  with d have rem: "remove1 t (Q i) = ps @ qs" by (simp add: remove1_append)
  note un = unqueue_links [OF q [unfolded Q]]
  have head: "rq_list (runqueue (unqueue i t s) i) = None \<longleftrightarrow> ps @ qs = []"
    using dllist_head [OF un(1) [unfolded qlinks_def]] by auto
  have links: "qlinks (dequeue i t s) j xs \<longleftrightarrow> qlinks (unqueue i t s) j xs" for j xs
    by (simp add: dequeue_def take_out_def Let_def qlinks_def)
  have bits: "bit (runqueuebitmap (dequeue i t s)) j \<longleftrightarrow> bit (runqueuebitmap s) j \<and> (j = i \<longrightarrow> ps @ qs \<noteq> [])"
    if "j < 64" for j
    using that i head bit_clear [OF i that] by (auto simp: dequeue_def take_out_def Let_def)
  show ?thesis
    unfolding rq_ok_def
  proof (intro conjI allI impI)
    fix j :: nat assume j: "j < 64"
    have qj: "qlinks s j (Q j)" "bit (runqueuebitmap s) j \<longleftrightarrow> Q j \<noteq> []" using ok j by (simp_all add: rq_ok_def)
    show "qlinks (dequeue i t s) j (remove1 t (Q j))"
    proof (cases "j = i")
      case True
      with un(1) rem links show ?thesis by simp
    next
      case False
      then have "set (Q j) \<inter> set (Q i) = {}" using rq_ok_disjoint [OF ok j i] by blast
      then have "qlinks (unqueue i t s) j (Q j)"
        using un(2,3) False Q by (intro qlinks_frame [OF qj(1)]) auto
      with remove1_other [OF ok t i j False] links show ?thesis by simp
    qed
    show "bit (runqueuebitmap (dequeue i t s)) j \<longleftrightarrow> remove1 t (Q j) \<noteq> []"
      using bits [OF j] qj(2) remove1_other [OF ok t i j] rem Q by (cases "j = i") auto
    show "x \<in> set (remove1 t (Q j)) \<longleftrightarrow> THREAD_FLAGS_QUEUED \<in> t_flags (core (dequeue i t s) x)
        \<and> t_priority (core (dequeue i t s) x) = j" for x
    proof -
      have "distinct (Q j)" using qj(1) by (auto simp: qlinks_def dest: dllist_distinct)
      then have "x \<in> set (remove1 t (Q j)) \<longleftrightarrow> x \<in> set (Q j) \<and> x \<noteq> t" by auto
      with ok j show ?thesis by (auto simp: rq_ok_def dequeue_core)
    qed
  qed
qed


text \<open>The thread a CPU would pick: the first eligible one in the order of the queues.\<close>

definition queue_limit :: "nat \<Rightarrow> nat" where
  "queue_limit minprio = min 64 (Suc minprio)"

lemma queue_limit [simp]: "i < queue_limit minprio \<longleftrightarrow> i < 64 \<and> i \<le> minprio"
  by (auto simp: queue_limit_def)

lemma queue_limit_le [simp]: "queue_limit minprio \<le> k \<longleftrightarrow> 64 \<le> k \<or> minprio < k"
  by (auto simp: queue_limit_def)

definition best :: "sched \<Rightarrow> (nat \<Rightarrow> tid list) \<Rightarrow> cpuid \<Rightarrow> nat \<Rightarrow> tid option" where
  "best s Q cpu minprio = find (eligible s cpu) (concat (map Q [0..<queue_limit minprio]))"

lemma find_None_empty: "(\<And>i. i \<in> set is \<Longrightarrow> Q i = []) \<Longrightarrow> find P (concat (map Q is)) = None"
  by (induction "is") auto

lemma find_in: "find P xs = Some x \<Longrightarrow> x \<in> set xs \<and> P x"
  by (auto simp: find_Some_iff)

lemma runqueue_loop_best:
  assumes ok: "rq_ok s Q" and "k \<le> 64"
  shows "runqueue_loop cpu minprio [k..<64] s =
    (case find (eligible s cpu) (concat (map Q [k..<queue_limit minprio])) of
       None \<Rightarrow> Some (None, s)
     | Some t \<Rightarrow> Some (Some t, take_out (t_priority (core s t)) t s))"
  using assms(2)
proof (induction "64 - k" arbitrary: k)
  case (Suc n)
  then have k: "k < 64" and IH: "runqueue_loop cpu minprio [Suc k..<64] s =
      (case find (eligible s cpu) (concat (map Q [Suc k..<queue_limit minprio])) of
         None \<Rightarrow> Some (None, s)
       | Some t \<Rightarrow> Some (Some t, take_out (t_priority (core s t)) t s))"
    by simp_all
  have q: "qlinks s k (Q k)" using ok k by (simp add: rq_ok_def)
  have up: "[k..<64] = k # [Suc k..<64]" using k by (simp add: upt_conv_Cons)
  show ?case
  proof (cases "k \<le> minprio")
    case False
    then show ?thesis by (simp add: up)
  next
    case True
    then have up': "[k..<queue_limit minprio] = k # [Suc k..<queue_limit minprio]"
      using k by (simp add: upt_conv_Cons)
    show ?thesis
    proof (cases "find (eligible s cpu) (Q k)")
      case None
      with True IH show ?thesis
        by (simp only: up up' runqueue_loop.simps getinrunqueue_unqueue [OF q] list.map concat.simps find_append)
          simp
    next
      case (Some t)
      with find_in have "t \<in> set (Q k)" by fast
      with ok k have "t_priority (core s t) = k" by (simp add: rq_ok_def)
      with True Some show ?thesis
        by (simp only: up up' runqueue_loop.simps getinrunqueue_unqueue [OF q] list.map concat.simps find_append)
          (simp add: take_out_def Let_def)
    qed
  qed
qed simp

lemma bitmap_zero:
  assumes "rq_ok s Q" and "runqueuebitmap s = 0"
  shows "best s Q cpu minprio = None"
  using assms by (auto simp: best_def rq_ok_def intro!: find_None_empty)

lemma runqueuenext_best:
  assumes "rq_ok s Q"
  shows "runqueuenext cpu minprio s =
    (case best s Q cpu minprio of
       None \<Rightarrow> Some (None, s)
     | Some t \<Rightarrow> Some (Some t, dequeue (t_priority (core s t)) t s))"
proof (cases "runqueuebitmap s = 0")
  case True
  with bitmap_zero [OF assms] show ?thesis by (simp add: runqueuenext_def)
next
  case False
  with runqueue_loop_best [OF assms, of 0] show ?thesis
    by (simp add: runqueuenext_def RUNQUEUE_COUNT_def best_def dequeue_def split: option.splits)
qed

lemma best_queued:
  assumes "rq_ok s Q" and "best s Q cpu minprio = Some t"
  shows "THREAD_FLAGS_QUEUED \<in> t_flags (core s t)" and "t_priority (core s t) < 64"
    and "t \<in> set (Q (t_priority (core s t)))" and "eligible s cpu t" and "t_priority (core s t) \<le> minprio"
proof -
  from find_in [OF assms(2) [unfolded best_def]]
  obtain i where "i < 64" "i \<le> minprio" "t \<in> set (Q i)" "eligible s cpu t" by auto
  with assms(1) show "THREAD_FLAGS_QUEUED \<in> t_flags (core s t)" "t_priority (core s t) < 64"
    "t \<in> set (Q (t_priority (core s t)))" "eligible s cpu t" "t_priority (core s t) \<le> minprio"
    by (auto simp: rq_ok_def)
qed

lemma best_None:
  assumes "rq_ok s Q" and "best s Q cpu minprio = None" and "eligible s cpu t"
    and "t_priority (core s t) < 64" and "t_priority (core s t) \<le> minprio"
  shows "THREAD_FLAGS_QUEUED \<notin> t_flags (core s t)"
proof
  assume "THREAD_FLAGS_QUEUED \<in> t_flags (core s t)"
  with assms(1,4) have "t \<in> set (Q (t_priority (core s t)))" by (simp add: rq_ok_def)
  then have "t \<in> set (concat (map Q [0..<queue_limit minprio]))" using assms(4,5) by auto
  with assms(2,3) show False by (auto simp: best_def find_None_iff)
qed

lemma runqueueinsert_ok:
  assumes ok: "rq_ok s Q" and "THREAD_FLAGS_QUEUED \<notin> t_flags (core s t)"
    and "THREAD_FLAGS_RUNNING \<notin> t_flags (core s t)" and p: "t_priority (core s t) = p" "p < 64"
  shows "\<exists>s'. runqueueinsert t s = Some s' \<and> rq_ok s' (Q(p := Q p @ [t])) \<and> cpus s' = cpus s \<and> procs s' = procs s
    \<and> core s' = (core s)(t := core s t\<lparr>t_flags := t_flags (core s t) \<union> {THREAD_FLAGS_QUEUED}\<rparr>)"
proof -
  define s1 where "s1 = (flags_on t {THREAD_FLAGS_QUEUED} s)\<lparr>runqueuebitmap := runqueuebitmap s OR push_bit p 1\<rparr>"
  define tl where "tl = rq_last (runqueue s p)"
  define h1 where "h1 = (case tl of None \<Rightarrow> set_prev t tl s1 | Some q \<Rightarrow> set_next q (Some t) (set_prev t tl s1))"
  define s' where "s' = upd_queue p (\<lambda>rq. rq\<lparr>rq_last := Some t\<rparr>) (set_next t None
      (case tl of None \<Rightarrow> upd_queue p (\<lambda>rq. rq\<lparr>rq_list := Some t\<rparr>) h1 | Some q \<Rightarrow> h1))"
  have ins: "runqueueinsert t s = Some s'"
    using assms(3) p(1)
    by (simp add: runqueueinsert_def core_fields Let_def s1_def tl_def h1_def s'_def runq.links split: option.splits)
  have core': "core s' = (core s)(t := core s t\<lparr>t_flags := t_flags (core s t) \<union> {THREAD_FLAGS_QUEUED}\<rparr>)"
    and rest: "cpus s' = cpus s" "procs s' = procs s" "runqueuebitmap s' = runqueuebitmap s OR push_bit p 1"
    by (simp_all add: s'_def h1_def s1_def split: option.splits)
  have links: "nextp s' = nextp (set_next t None h1)" "prevp s' = prevp (set_next t None h1)"
    by (simp_all add: s'_def runq.links split: option.splits)
  have s1_links: "nextp s1 = nextp s" "prevp s1 = prevp s" by (simp_all add: s1_def)
  have q: "qlinks s j (Q j)" if "j < 64" for j using ok that by (simp add: rq_ok_def)
  have notin: "t \<notin> set (Q j)" if "j < 64" for j using ok that assms(2) by (auto simp: rq_ok_def)
  have heads: "rq_last (runqueue s' p) = Some t"
    "rq_list (runqueue s' p) = (if tl = None then Some t else rq_list (runqueue s p))"
    "j \<noteq> p \<Longrightarrow> runqueue s' j = runqueue s j" for j
    by (simp_all add: s'_def h1_def s1_def split: option.splits)
  have new: "qlinks s' p (Q p @ [t])"
    using runq.push_tail [OF _ notin [OF p(2)] h1_def refl, of "rq_list (runqueue s p)"] q [OF p(2)]
    by (simp add: qlinks_def links heads s1_links tl_def)
  have old: "qlinks s' j (Q j)" if "j < 64" "j \<noteq> p" for j
  proof (rule qlinks_frame [OF q [OF that(1)]])
    show "runqueue s' j = runqueue s j" using heads(3) that by simp
    fix x assume x: "x \<in> set (Q j)"
    have "tl \<noteq> Some x"
      using dllist_tail [OF q [OF p(2), unfolded qlinks_def]] rq_ok_disjoint [OF ok that(1) p(2) x] that(2)
      by (auto simp: tl_def split: if_splits)
    moreover have "x \<noteq> t" using x notin [OF that(1)] by auto
    ultimately show "nextp s' x = nextp s x" "prevp s' x = prevp s x"
      by (auto simp: links h1_def runq.links s1_links split: option.splits)
  qed
  have "rq_ok s' (Q(p := Q p @ [t]))"
    unfolding rq_ok_def
  proof (intro conjI allI impI)
    fix j :: nat assume j: "j < 64"
    show "qlinks s' j ((Q(p := Q p @ [t])) j)" using new old j by simp
    show "bit (runqueuebitmap s') j \<longleftrightarrow> (Q(p := Q p @ [t])) j \<noteq> []"
      using ok j bit_set [OF p(2) j] by (auto simp: rest rq_ok_def)
    show "x \<in> set ((Q(p := Q p @ [t])) j) \<longleftrightarrow> THREAD_FLAGS_QUEUED \<in> t_flags (core s' x)
        \<and> t_priority (core s' x) = j" for x
      using ok j p by (auto simp: core' rq_ok_def)
  qed
  with ins core' rest show ?thesis by blast
qed


subsection \<open>Who runs where\<close>

text \<open>
  The invariant of threads and CPUs, with the CPUs in \<open>X\<close> between giving up a thread and switching to
  the next: a thread runs on at most one CPU and is then not queued; a running thread is current
  somewhere or dead; the sleep lock is held exactly while a thread prepares to sleep; idle threads
  stay on their CPU.
\<close>

definition excl_but :: "cpuid set \<Rightarrow> sched \<Rightarrow> bool" where
  "excl_but X s \<longleftrightarrow>
     (\<forall>c t. current_thread s c = Some t \<longrightarrow> (THREAD_FLAGS_RUNNING \<in> t_flags (core s t) \<longleftrightarrow> c \<notin> X))
   \<and> (\<forall>c c' t. current_thread s c = Some t \<and> current_thread s c' = Some t \<longrightarrow> c = c')
   \<and> (\<forall>t. THREAD_FLAGS_RUNNING \<in> t_flags (core s t) \<longrightarrow> THREAD_FLAGS_QUEUED \<notin> t_flags (core s t)
        \<and> (THREAD_FLAGS_DEAD \<in> t_flags (core s t) \<or> (\<exists>c. current_thread s c = Some t)))
   \<and> (\<forall>t. THREAD_FLAGS_SLEEP \<in> t_flags (core s t) \<longrightarrow> THREAD_FLAGS_QUEUED \<notin> t_flags (core s t))
   \<and> (\<forall>t. t_sleeplock (core s t) \<longleftrightarrow> THREAD_FLAGS_SLEEP \<in> t_flags (core s t) \<and> (\<exists>c. current_thread s c = Some t))
   \<and> (\<forall>t. THREAD_FLAGS_DEAD \<in> t_flags (core s t) \<longrightarrow> THREAD_FLAGS_RUNNING \<in> t_flags (core s t)
        \<and> THREAD_FLAGS_SLEEP \<notin> t_flags (core s t) \<and> (\<forall>c. current_thread s c \<noteq> Some t))"

definition idle_ok :: "sched \<Rightarrow> bool" where
  "idle_ok s \<longleftrightarrow>
     (\<forall>t. t_priority (core s t) < 64)
   \<and> (\<forall>c. t_cputarget (core s (c_idlethread (cpus s c))) = Some c
        \<and> THREAD_FLAGS_SLEEP \<notin> t_flags (core s (c_idlethread (cpus s c)))
        \<and> THREAD_FLAGS_DEAD \<notin> t_flags (core s (c_idlethread (cpus s c))))
   \<and> (\<forall>c c'. current_thread s c' = Some (c_idlethread (cpus s c)) \<longrightarrow> c' = c)"

text \<open>A thread that was taken out of the queues, or the idle thread, about to run on \<open>cpu\<close>.\<close>

definition limbo :: "sched \<Rightarrow> cpuid \<Rightarrow> tid \<Rightarrow> bool" where
  "limbo s cpu n \<longleftrightarrow>
     t_flags (core s n) \<inter> {THREAD_FLAGS_QUEUED, THREAD_FLAGS_RUNNING, THREAD_FLAGS_SLEEP} = {}
     \<and> (\<forall>c. c_idlethread (cpus s c) = n \<longrightarrow> c = cpu)"

lemma current_thread_cong: "cpus s = cpus s' \<Longrightarrow> current_thread s = current_thread s'"
  by (simp add: current_thread_def fun_eq_iff)

lemma current_thread_frame [simp]:
  "current_thread (flags_on t F s) = current_thread s" "current_thread (flags_off t F s) = current_thread s"
  "current_thread (upd_thread t f s) = current_thread s" "current_thread (dequeue i t s) = current_thread s"
  by (rule current_thread_cong, simp add: dequeue_core)+

lemma current_thread_simps [simp]:
  "current_thread (set_current cpu v s) = (current_thread s)(cpu := v)"
  "c_idlethread (cpus (set_current cpu v s) c) = c_idlethread (cpus s c)"
  by (auto simp: current_thread_def set_current_def fun_eq_iff)

lemma excl_butD:
  assumes "excl_but X s"
  shows "current_thread s c = Some t \<Longrightarrow> THREAD_FLAGS_RUNNING \<in> t_flags (core s t) \<longleftrightarrow> c \<notin> X"
    and "current_thread s c = Some t \<Longrightarrow> current_thread s c' = Some t \<Longrightarrow> c = c'"
    and "THREAD_FLAGS_RUNNING \<in> t_flags (core s t) \<Longrightarrow> THREAD_FLAGS_QUEUED \<notin> t_flags (core s t)"
    and "THREAD_FLAGS_RUNNING \<in> t_flags (core s t) \<Longrightarrow>
      THREAD_FLAGS_DEAD \<in> t_flags (core s t) \<or> (\<exists>c. current_thread s c = Some t)"
    and "THREAD_FLAGS_SLEEP \<in> t_flags (core s t) \<Longrightarrow> THREAD_FLAGS_QUEUED \<notin> t_flags (core s t)"
    and "t_sleeplock (core s t) \<longleftrightarrow> THREAD_FLAGS_SLEEP \<in> t_flags (core s t) \<and> (\<exists>c. current_thread s c = Some t)"
    and "THREAD_FLAGS_DEAD \<in> t_flags (core s t) \<Longrightarrow> THREAD_FLAGS_RUNNING \<in> t_flags (core s t)
      \<and> THREAD_FLAGS_SLEEP \<notin> t_flags (core s t) \<and> current_thread s c \<noteq> Some t"
  using assms unfolding excl_but_def by blast+

lemma excl_butI:
  assumes "\<And>c t. current_thread s c = Some t \<Longrightarrow> THREAD_FLAGS_RUNNING \<in> t_flags (core s t) \<longleftrightarrow> c \<notin> X"
    and "\<And>c c' t. current_thread s c = Some t \<Longrightarrow> current_thread s c' = Some t \<Longrightarrow> c = c'"
    and "\<And>t. THREAD_FLAGS_RUNNING \<in> t_flags (core s t) \<Longrightarrow> THREAD_FLAGS_QUEUED \<notin> t_flags (core s t)"
    and "\<And>t. THREAD_FLAGS_RUNNING \<in> t_flags (core s t) \<Longrightarrow>
      THREAD_FLAGS_DEAD \<in> t_flags (core s t) \<or> (\<exists>c. current_thread s c = Some t)"
    and "\<And>t. THREAD_FLAGS_SLEEP \<in> t_flags (core s t) \<Longrightarrow> THREAD_FLAGS_QUEUED \<notin> t_flags (core s t)"
    and "\<And>t. t_sleeplock (core s t) \<longleftrightarrow> THREAD_FLAGS_SLEEP \<in> t_flags (core s t) \<and> (\<exists>c. current_thread s c = Some t)"
    and "\<And>t c. THREAD_FLAGS_DEAD \<in> t_flags (core s t) \<Longrightarrow> THREAD_FLAGS_RUNNING \<in> t_flags (core s t)
      \<and> THREAD_FLAGS_SLEEP \<notin> t_flags (core s t) \<and> current_thread s c \<noteq> Some t"
  shows "excl_but X s"
  using assms unfolding excl_but_def by blast

lemma excl_but_running_not_queued:
  "excl_but X s \<Longrightarrow> THREAD_FLAGS_QUEUED \<in> t_flags (core s t) \<Longrightarrow>
   THREAD_FLAGS_RUNNING \<notin> t_flags (core s t) \<and> THREAD_FLAGS_SLEEP \<notin> t_flags (core s t)"
  unfolding excl_but_def by blast

lemma set_current_frame [simp]:
  "procs (set_current cpu v s) = procs s" "runqueue (set_current cpu v s) = runqueue s"
  "runqueuebitmap (set_current cpu v s) = runqueuebitmap s" "nextp (set_current cpu v s) = nextp s"
  "prevp (set_current cpu v s) = prevp s"
  by (auto simp: set_current_def nextp_def prevp_def fun_eq_iff)

lemma rq_ok_frame:
  assumes "rq_ok s Q" and "runqueue s' = runqueue s" and "runqueuebitmap s' = runqueuebitmap s"
    and "nextp s' = nextp s" and "prevp s' = prevp s"
    and "\<And>t. (THREAD_FLAGS_QUEUED \<in> t_flags (core s' t)) = (THREAD_FLAGS_QUEUED \<in> t_flags (core s t))"
    and "\<And>t. THREAD_FLAGS_QUEUED \<in> t_flags (core s t) \<Longrightarrow> t_priority (core s' t) = t_priority (core s t)"
  shows "rq_ok s' Q"
  using assms by (auto simp: rq_ok_def qlinks_def)

lemma core_upd [simp]:
  "core (upd_thread t (\<lambda>th. th\<lparr>t_sleeplock := b\<rparr>) s) = (core s)(t := core s t\<lparr>t_sleeplock := b\<rparr>)"
  "core (upd_thread t (\<lambda>th. th\<lparr>t_wakeupreason := r\<rparr>) s) = (core s)(t := core s t\<lparr>t_wakeupreason := r\<rparr>)"
  "core (upd_thread t (\<lambda>th. th\<lparr>t_wakeupreason := r, t_sleeplock := b\<rparr>) s) =
     (core s)(t := core s t\<lparr>t_wakeupreason := r, t_sleeplock := b\<rparr>)"
  "core (upd_thread t (\<lambda>th. th\<lparr>t_cputarget := c\<rparr>) s) = (core s)(t := core s t\<lparr>t_cputarget := c\<rparr>)"
  "core (upd_thread t (\<lambda>th. th\<lparr>t_priority := p\<rparr>) s) = (core s)(t := core s t\<lparr>t_priority := p\<rparr>)"
  by (auto simp: core_def fun_eq_iff)

lemma links_upd [simp]:
  "nextp (upd_thread t (\<lambda>th. th\<lparr>t_sleeplock := b\<rparr>) s) = nextp s"
  "prevp (upd_thread t (\<lambda>th. th\<lparr>t_sleeplock := b\<rparr>) s) = prevp s"
  "nextp (upd_thread t (\<lambda>th. th\<lparr>t_wakeupreason := r\<rparr>) s) = nextp s"
  "prevp (upd_thread t (\<lambda>th. th\<lparr>t_wakeupreason := r\<rparr>) s) = prevp s"
  "nextp (upd_thread t (\<lambda>th. th\<lparr>t_wakeupreason := r, t_sleeplock := b\<rparr>) s) = nextp s"
  "prevp (upd_thread t (\<lambda>th. th\<lparr>t_wakeupreason := r, t_sleeplock := b\<rparr>) s) = prevp s"
  "nextp (upd_thread t (\<lambda>th. th\<lparr>t_cputarget := c\<rparr>) s) = nextp s"
  "prevp (upd_thread t (\<lambda>th. th\<lparr>t_cputarget := c\<rparr>) s) = prevp s"
  "nextp (upd_thread t (\<lambda>th. th\<lparr>t_priority := p\<rparr>) s) = nextp s"
  "prevp (upd_thread t (\<lambda>th. th\<lparr>t_priority := p\<rparr>) s) = prevp s"
  by (auto simp: nextp_def prevp_def fun_eq_iff)

lemma excl_switch:
  assumes "excl_but {cpu} s" and n: "limbo s cpu n"
    and fl: "\<And>t. t_flags (core s' t) = t_flags (core s t) \<union> (if t = n then {THREAD_FLAGS_RUNNING} else {})"
    and lock: "\<And>t. t_sleeplock (core s' t) \<longleftrightarrow> t_sleeplock (core s t) \<and> current_thread s cpu \<noteq> Some t"
    and cur: "current_thread s' = (current_thread s)(cpu := Some n)"
  shows "excl_but {} s'"
proof (rule excl_butI)
  note D = excl_butD [OF assms(1)]
  have other: "current_thread s c \<noteq> Some n \<or> c = cpu" for c
    using D(1) [of c n] n by (auto simp: limbo_def)
  show "c = c'" if "current_thread s' c = Some t" "current_thread s' c' = Some t" for c c' t
    using that D(2) other by (auto simp: cur split: if_splits)
  show "THREAD_FLAGS_RUNNING \<in> t_flags (core s' t) \<longleftrightarrow> c \<notin> {}" if "current_thread s' c = Some t" for c t
    using that D(1) [of c t] by (auto simp: cur fl split: if_splits)
  show "THREAD_FLAGS_QUEUED \<notin> t_flags (core s' t)" if "THREAD_FLAGS_RUNNING \<in> t_flags (core s' t)" for t
    using that D(3) [of t] n by (auto simp: fl limbo_def split: if_splits)
  show "THREAD_FLAGS_QUEUED \<notin> t_flags (core s' t)" if "THREAD_FLAGS_SLEEP \<in> t_flags (core s' t)" for t
    using that D(5) [of t] by (auto simp: fl split: if_splits)
  show "THREAD_FLAGS_RUNNING \<in> t_flags (core s' t) \<and> THREAD_FLAGS_SLEEP \<notin> t_flags (core s' t)
      \<and> current_thread s' c \<noteq> Some t" if "THREAD_FLAGS_DEAD \<in> t_flags (core s' t)" for t c
    using that D(7) [of t c] n by (auto simp: fl cur limbo_def split: if_splits)
  show "THREAD_FLAGS_DEAD \<in> t_flags (core s' t) \<or> (\<exists>c. current_thread s' c = Some t)"
    if "THREAD_FLAGS_RUNNING \<in> t_flags (core s' t)" for t
  proof (cases "t = n")
    case False
    with that D(4) [of t] D(1) show ?thesis by (auto simp: cur fl)
  qed (auto simp: cur)
  show "t_sleeplock (core s' t) \<longleftrightarrow> THREAD_FLAGS_SLEEP \<in> t_flags (core s' t) \<and> (\<exists>c. current_thread s' c = Some t)" for t
  proof (cases "t = n")
    case True
    with n D(6) [of t] show ?thesis by (auto simp: fl lock limbo_def)
  next
    case False
    have "(\<exists>c. current_thread s' c = Some t) \<longleftrightarrow> (\<exists>c. current_thread s c = Some t) \<and> current_thread s cpu \<noteq> Some t"
      using False D(2) [of _ t cpu] by (auto simp: cur)
    with False D(6) [of t] show ?thesis by (simp add: fl lock)
  qed
qed

lemma switch_ok:
  assumes ok: "rq_ok s Q" "excl_but {cpu} s" "idle_ok s" and n: "limbo s cpu n"
  shows "\<exists>s'. switch_thread cpu (current_thread s cpu) n s = Some s' \<and> rq_ok s' Q \<and> excl_but {} s'
    \<and> idle_ok s' \<and> current_thread s' = (current_thread s)(cpu := Some n)"
proof -
  let ?c = "current_thread s cpu"
  define s1 where "s1 = (case ?c of Some c \<Rightarrow> flags_off c {THREAD_FLAGS_RUNNING} (set_current cpu (Some n) s)
      | None \<Rightarrow> set_current cpu (Some n) s)"
  define s2 where "s2 = (case ?c of
      Some c \<Rightarrow> if THREAD_FLAGS_SLEEP \<in> flags s1 c then upd_thread c (\<lambda>th. th\<lparr>t_sleeplock := False\<rparr>) s1 else s1
    | None \<Rightarrow> s1)"
  define s3 where "s3 = flags_on n {THREAD_FLAGS_RUNNING} s2"
  have core1: "core s1 = core s"
  proof (cases ?c)
    case (Some c)
    with ok(2) have "THREAD_FLAGS_RUNNING \<notin> t_flags (core s c)" by (auto simp: excl_but_def)
    then have "core s c\<lparr>t_flags := t_flags (core s c) - {THREAD_FLAGS_RUNNING}\<rparr> = core s c" by simp
    with Some show ?thesis by (simp add: s1_def)
  qed (simp add: s1_def)
  have core2: "core s2 = (\<lambda>t. core s t\<lparr>t_sleeplock := (t_sleeplock (core s t) \<and> ?c \<noteq> Some t)\<rparr>)"
  proof (rule ext)
    fix t
    have "t_sleeplock (core s t) \<longrightarrow> THREAD_FLAGS_SLEEP \<in> t_flags (core s t)" using ok(2) by (auto simp: excl_but_def)
    then show "core s2 t = core s t\<lparr>t_sleeplock := (t_sleeplock (core s t) \<and> ?c \<noteq> Some t)\<rparr>"
      using core1 by (cases "?c = Some t") (auto simp: s2_def core_fields(1) split: option.splits)
  qed
  have core3: "core s3 = (core s2)(n := core s2 n\<lparr>t_flags := t_flags (core s2 n) \<union> {THREAD_FLAGS_RUNNING}\<rparr>)"
    by (simp add: s3_def)
  have cur: "current_thread s3 = (current_thread s)(cpu := Some n)"
    and idle: "c_idlethread (cpus s3 c) = c_idlethread (cpus s c)" for c
    by (auto simp: s3_def s2_def s1_def current_thread_def set_current_def split: option.splits)
  have "switch_thread cpu ?c n s = (if THREAD_FLAGS_RUNNING \<in> flags s1 n then None
      else if THREAD_FLAGS_QUEUED \<in> flags s3 n then None else Some s3)"
    by (simp only: switch_thread_def Let_def s1_def s2_def s3_def)
  then have "switch_thread cpu ?c n s = Some s3"
    using n by (simp add: core_fields(1) core1 core2 core3 limbo_def)
  moreover have "rq_ok s3 Q"
    using n core2 core3 by (intro rq_ok_frame [OF ok(1)])
      (auto simp: s3_def s2_def s1_def nextp_def prevp_def upd_thread_def fun_eq_iff flags_on_def flags_off_def
        set_current_def limbo_def split: option.splits)
  moreover have "excl_but {} s3"
    by (rule excl_switch [OF ok(2) n _ _ cur]) (auto simp: core3 core2)
  moreover have "idle_ok s3"
    using ok(3) n core2 core3 by (auto simp: idle_ok_def cur idle limbo_def)
  ultimately show ?thesis using cur by blast
qed


text \<open>A change of flags that leaves \<open>RUNNING\<close> and \<open>SLEEP\<close> alone and queues no running or sleeping thread.\<close>

lemma excl_flags:
  assumes "excl_but X s" and "current_thread s' = current_thread s"
    and "\<And>t f. f \<in> {THREAD_FLAGS_RUNNING, THREAD_FLAGS_SLEEP, THREAD_FLAGS_DEAD} \<Longrightarrow>
      (f \<in> t_flags (core s' t)) = (f \<in> t_flags (core s t))"
    and "\<And>t. t_sleeplock (core s' t) = t_sleeplock (core s t)"
    and "\<And>t. THREAD_FLAGS_QUEUED \<in> t_flags (core s' t) \<Longrightarrow> THREAD_FLAGS_QUEUED \<in> t_flags (core s t)
      \<or> THREAD_FLAGS_RUNNING \<notin> t_flags (core s t) \<and> THREAD_FLAGS_SLEEP \<notin> t_flags (core s t)"
  shows "excl_but X s'"
proof (rule excl_butI)
  note D = excl_butD [OF assms(1)]
  show "c = c'" if "current_thread s' c = Some t" "current_thread s' c' = Some t" for c c' t
    using that D(2) by (simp add: assms(2))
  show "THREAD_FLAGS_QUEUED \<notin> t_flags (core s' t)" if "THREAD_FLAGS_RUNNING \<in> t_flags (core s' t)" for t
    using that D(3) [of t] assms(3,5) by blast
  show "THREAD_FLAGS_QUEUED \<notin> t_flags (core s' t)" if "THREAD_FLAGS_SLEEP \<in> t_flags (core s' t)" for t
    using that D(5) [of t] assms(3,5) by blast
  show "THREAD_FLAGS_RUNNING \<in> t_flags (core s' t) \<and> THREAD_FLAGS_SLEEP \<notin> t_flags (core s' t)
      \<and> current_thread s' c \<noteq> Some t" if "THREAD_FLAGS_DEAD \<in> t_flags (core s' t)" for t c
    using that D(7) [of t c] assms(2,3) by simp
qed (use excl_butD(1-6) [OF assms(1)] assms in auto)

lemma next_ok:
  assumes ok: "rq_ok s Q" "excl_but X s" "idle_ok s" and r: "runqueuenext cpu mp s = Some (r, s')"
  shows "cpus s' = cpus s \<and> procs s' = procs s \<and> excl_but X s' \<and> idle_ok s' \<and>
    (case r of
       None \<Rightarrow> s' = s \<and> best s Q cpu mp = None
     | Some n \<Rightarrow> rq_ok s' (\<lambda>j. remove1 n (Q j)) \<and> limbo s' cpu n \<and> THREAD_FLAGS_QUEUED \<in> t_flags (core s n)
         \<and> core s' = (core s)(n := core s n\<lparr>t_flags := t_flags (core s n) - {THREAD_FLAGS_QUEUED}\<rparr>))"
proof (cases "best s Q cpu mp")
  case None
  with r runqueuenext_best [OF ok(1), of cpu mp] ok show ?thesis by auto
next
  case (Some n)
  note b = best_queued [OF ok(1) Some]
  have s': "s' = dequeue (t_priority (core s n)) n s" and rn: "r = Some n"
    using r runqueuenext_best [OF ok(1), of cpu mp] Some by auto
  have idle: "c_idlethread (cpus s c) = n \<Longrightarrow> c = cpu" for c
    using b(4) ok(3) by (auto simp: idle_ok_def eligible_core)
  have "excl_but X s'"
    by (rule excl_flags [OF ok(2)]) (auto simp: s' dequeue_core split: if_splits)
  moreover have "idle_ok s'"
    using ok(3) by (auto simp: idle_ok_def s' dequeue_core current_thread_def)
  moreover have "limbo s' cpu n"
    using excl_but_running_not_queued [OF ok(2) b(1)] idle by (auto simp: limbo_def s' dequeue_core)
  ultimately show ?thesis
    using dequeue_ok [OF ok(1) b(2,3)] b(1) by (simp add: s' rn dequeue_core)
qed

lemma next_total: "rq_ok s Q \<Longrightarrow> \<exists>r s'. runqueuenext cpu mp s = Some (r, s')"
  by (simp add: runqueuenext_best split: option.splits)

lemma insert_ok:
  assumes ok: "rq_ok s Q" "excl_but X s" "idle_ok s"
    and "t_flags (core s t) \<inter> {THREAD_FLAGS_QUEUED, THREAD_FLAGS_RUNNING, THREAD_FLAGS_SLEEP} = {}"
  shows "\<exists>s' Q'. runqueueinsert t s = Some s' \<and> rq_ok s' Q' \<and> excl_but X s' \<and> idle_ok s' \<and> cpus s' = cpus s
    \<and> procs s' = procs s
    \<and> core s' = (core s)(t := core s t\<lparr>t_flags := t_flags (core s t) \<union> {THREAD_FLAGS_QUEUED}\<rparr>)"
proof -
  have "t_priority (core s t) < 64" using ok(3) by (simp add: idle_ok_def)
  with runqueueinsert_ok [OF ok(1) _ _ refl, of t] assms(4)
  obtain s' where s': "runqueueinsert t s = Some s'" "rq_ok s' (Q(t_priority (core s t) := Q (t_priority (core s t)) @ [t]))"
    "cpus s' = cpus s" "procs s' = procs s"
    "core s' = (core s)(t := core s t\<lparr>t_flags := t_flags (core s t) \<union> {THREAD_FLAGS_QUEUED}\<rparr>)"
    by blast
  have "excl_but X s'"
    using assms(4) by (intro excl_flags [OF ok(2)]) (auto simp: s'(5) current_thread_cong [OF s'(3)] split: if_splits)
  moreover have "idle_ok s'"
    using ok(3) by (auto simp: idle_ok_def s'(3,5) current_thread_def)
  ultimately show ?thesis using s' by blast
qed

lemma clear_ok:
  assumes ok: "rq_ok s Q" "excl_but {} s" "idle_ok s" and c: "current_thread s cpu = Some c"
  shows "rq_ok (flags_off c {THREAD_FLAGS_RUNNING} s) Q" "excl_but {cpu} (flags_off c {THREAD_FLAGS_RUNNING} s)"
    "idle_ok (flags_off c {THREAD_FLAGS_RUNNING} s)"
proof -
  note D = excl_butD [OF ok(2)]
  let ?s = "flags_off c {THREAD_FLAGS_RUNNING} s"
  have only: "current_thread s c' = Some c \<longleftrightarrow> c' = cpu" for c'
    using D(2) [of c' c cpu] c by auto
  show "excl_but {cpu} ?s"
  proof (rule excl_butI)
    show "c1 = c2" if "current_thread ?s c1 = Some t" "current_thread ?s c2 = Some t" for c1 c2 t
      using that D(2) by simp
    show "THREAD_FLAGS_RUNNING \<in> t_flags (core ?s t) \<longleftrightarrow> c' \<notin> {cpu}" if "current_thread ?s c' = Some t" for c' t
      using that D(1) [of c' t] only [of c'] c by (cases "t = c") auto
    show "THREAD_FLAGS_DEAD \<in> t_flags (core ?s t) \<or> (\<exists>c. current_thread ?s c = Some t)"
      if "THREAD_FLAGS_RUNNING \<in> t_flags (core ?s t)" for t
      using that D(4) [of t] by (auto split: if_splits)
    show "THREAD_FLAGS_RUNNING \<in> t_flags (core ?s t) \<and> THREAD_FLAGS_SLEEP \<notin> t_flags (core ?s t)
        \<and> current_thread ?s c' \<noteq> Some t" if "THREAD_FLAGS_DEAD \<in> t_flags (core ?s t)" for t c'
      using that D(7) [of t c'] D(7) [of t cpu] c by (auto split: if_splits)
  qed (use D(1-6) in auto)
  show "rq_ok ?s Q" by (rule rq_ok_frame [OF ok(1)]) auto
  show "idle_ok ?s" using ok(3) by (auto simp: idle_ok_def)
qed


definition sched_inv :: "sched \<Rightarrow> bool" where
  "sched_inv s \<longleftrightarrow> (\<exists>Q. rq_ok s Q) \<and> excl_but {} s \<and> idle_ok s"

text \<open>A CPU that gave up its thread may run a thread from the queues, or its idle thread when there is none.\<close>

lemma idle_limbo:
  assumes "rq_ok s Q" "excl_but {cpu} s" "idle_ok s" and "best s Q cpu ANY_PRIO = None"
  shows "limbo s cpu (c_idlethread (cpus s cpu))"
proof -
  let ?i = "c_idlethread (cpus s cpu)"
  have i: "t_cputarget (core s ?i) = Some cpu" "t_priority (core s ?i) < 64"
    "THREAD_FLAGS_SLEEP \<notin> t_flags (core s ?i)" "THREAD_FLAGS_DEAD \<notin> t_flags (core s ?i)"
    "\<And>c'. current_thread s c' = Some ?i \<Longrightarrow> c' = cpu"
    using assms(3) by (auto simp: idle_ok_def)
  have "THREAD_FLAGS_QUEUED \<notin> t_flags (core s ?i)"
    using i(1,2) by (intro best_None [OF assms(1,4)]) (auto simp: eligible_core ANY_PRIO_def)
  moreover have "THREAD_FLAGS_RUNNING \<notin> t_flags (core s ?i)"
    using excl_butD(1) [OF assms(2), of cpu ?i] excl_butD(4) [OF assms(2), of ?i] i(4,5) by blast
  moreover have "c = cpu" if "c_idlethread (cpus s c) = ?i" for c
    using assms(3) that i(1) unfolding idle_ok_def by (metis option.inject)
  ultimately show ?thesis using i(3) by (auto simp: limbo_def)
qed

lemma best_cong:
  "(\<And>t. t_cputarget (core s' t) = t_cputarget (core s t)) \<Longrightarrow> best s' Q cpu mp = best s Q cpu mp"
  by (simp add: best_def eligible_core fun_eq_iff [symmetric] cong: find_cong)

lemma switch_inv:
  assumes "rq_ok s Q" "excl_but {cpu} s" "idle_ok s" "limbo s cpu n"
  shows "\<exists>s'. switch_thread cpu (current_thread s cpu) n s = Some s' \<and> sched_inv s'"
  using switch_ok [OF assms] by (auto simp: sched_inv_def)

lemma give_up:
  assumes ok: "rq_ok s Q" "excl_but {} s" "idle_ok s" and c: "current_thread s cpu = Some c"
    and r: "runqueuenext cpu mp s = Some (r, s1)" and any: "r = None \<Longrightarrow> mp = ANY_PRIO"
    and s2: "s2 = flags_off c {THREAD_FLAGS_RUNNING} s1"
  shows "\<exists>Q'. rq_ok s2 Q' \<and> excl_but {cpu} s2 \<and> idle_ok s2 \<and> limbo s2 cpu (or_idle s2 cpu r)"
    and "r \<noteq> Some c" and "cpus s2 = cpus s" and "core s2 c = core s c\<lparr>t_flags := t_flags (core s c) - {THREAD_FLAGS_RUNNING}\<rparr>"
proof -
  note n = next_ok [OF ok r]
  have nq: "THREAD_FLAGS_QUEUED \<notin> t_flags (core s c)"
    using excl_butD(1) [OF ok(2) c] excl_butD(3) [OF ok(2), of c] by simp
  then show rc: "r \<noteq> Some c" using n by auto
  show "cpus s2 = cpus s" using n by (simp add: s2)
  have core1: "core s1 c = core s c" using n rc by (auto split: option.splits)
  then show "core s2 c = core s c\<lparr>t_flags := t_flags (core s c) - {THREAD_FLAGS_RUNNING}\<rparr>" by (simp add: s2)
  obtain Q1 where ok1: "rq_ok s1 Q1" "excl_but {} s1" "idle_ok s1" and lim: "r = Some m \<Longrightarrow> limbo s1 cpu m" for m
    using n ok(1) by (cases r) auto
  have c1: "current_thread s1 cpu = Some c" using n c by (simp add: current_thread_def)
  note ok2 = clear_ok [OF ok1 c1, folded s2]
  have "limbo s2 cpu (or_idle s2 cpu r)"
  proof (cases r)
    case None
    with n any have "s1 = s" "best s Q cpu ANY_PRIO = None" by auto
    moreover from this have "rq_ok s2 Q" using clear_ok(1) [OF ok c] by (simp add: s2)
    moreover have "best s2 Q cpu ANY_PRIO = best s Q cpu ANY_PRIO"
      using \<open>s1 = s\<close> by (intro best_cong) (simp add: s2)
    ultimately show ?thesis using idle_limbo [OF _ ok2(2,3)] None by (simp add: or_idle_def)
  next
    case (Some m)
    with lim rc show ?thesis by (auto simp: limbo_def or_idle_def s2)
  qed
  with ok2 show "\<exists>Q'. rq_ok s2 Q' \<and> excl_but {cpu} s2 \<and> idle_ok s2 \<and> limbo s2 cpu (or_idle s2 cpu r)" by blast
qed

text \<open>Queueing the thread that was given up, then switching.\<close>

lemma requeue_switch:
  assumes ok: "rq_ok s Q" "excl_but {cpu} s" "idle_ok s" "limbo s cpu n" and "n \<noteq> c"
    and "t_flags (core s c) \<inter> {THREAD_FLAGS_QUEUED, THREAD_FLAGS_RUNNING, THREAD_FLAGS_SLEEP} = {}"
  shows "\<exists>s1. runqueueinsert c s = Some s1 \<and> cpus s1 = cpus s \<and> (\<exists>Q'. rq_ok s1 Q') \<and> excl_but {cpu} s1 \<and> idle_ok s1
    \<and> (\<exists>s2. switch_thread cpu (current_thread s1 cpu) n s1 = Some s2 \<and> sched_inv s2)"
proof -
  from insert_ok [OF ok(1-3) assms(6)] obtain s1 Q' where s1: "runqueueinsert c s = Some s1" "rq_ok s1 Q'"
    "excl_but {cpu} s1" "idle_ok s1" "cpus s1 = cpus s"
    "core s1 = (core s)(c := core s c\<lparr>t_flags := t_flags (core s c) \<union> {THREAD_FLAGS_QUEUED}\<rparr>)"
    by blast
  have "limbo s1 cpu n" using ok(4) assms(5) by (simp add: limbo_def s1)
  from switch_inv [OF s1(2-4) this] s1 show ?thesis by blast
qed

lemma current_flags:
  assumes "excl_but {} s" and "current_thread s cpu = Some c"
  shows "THREAD_FLAGS_RUNNING \<in> t_flags (core s c)" and "THREAD_FLAGS_QUEUED \<notin> t_flags (core s c)"
  using excl_butD(1) [OF assms] excl_butD(3) [OF assms(1), of c] by simp_all

text \<open>An interrupted sleep: the thread goes on running, and the thread that was picked goes back.\<close>

lemma wake_self:
  assumes ok: "rq_ok s Q" "excl_but {} s" "idle_ok s" and c: "current_thread s cpu = Some c"
    and s': "s' = upd_thread c (\<lambda>th. th\<lparr>t_wakeupreason := x, t_sleeplock := False\<rparr>)
      (flags_off c {THREAD_FLAGS_SLEEP, THREAD_FLAGS_INTERRUPTIBLE} s)"
  shows "sched_inv s'"
proof -
  note D = excl_butD [OF ok(2)]
  have "excl_but {} s'"
  proof (rule excl_butI)
    show "c1 = c2" if "current_thread s' c1 = Some t" "current_thread s' c2 = Some t" for c1 c2 t
      using that D(2) by (simp add: s')
    show "THREAD_FLAGS_DEAD \<in> t_flags (core s' t) \<or> (\<exists>c. current_thread s' c = Some t)"
      if "THREAD_FLAGS_RUNNING \<in> t_flags (core s' t)" for t
      using that D(4) [of t] by (auto simp: s' split: if_splits)
    show "THREAD_FLAGS_RUNNING \<in> t_flags (core s' t) \<and> THREAD_FLAGS_SLEEP \<notin> t_flags (core s' t)
        \<and> current_thread s' c' \<noteq> Some t" if "THREAD_FLAGS_DEAD \<in> t_flags (core s' t)" for t c'
      using that D(7) [of t c'] by (auto simp: s' split: if_splits)
  qed (use D(1-6) in \<open>auto simp: s'\<close>)
  moreover have "rq_ok s' Q"
    by (rule rq_ok_frame [OF ok(1)]) (auto simp: s')
  moreover have "idle_ok s'" using ok(3) by (auto simp: s' idle_ok_def)
  ultimately show ?thesis by (auto simp: sched_inv_def)
qed

lemma put_back:
  assumes ok: "rq_ok s Q" "excl_but {} s" "idle_ok s" and r: "runqueuenext cpu mp s = Some (r, s1)"
  shows "\<exists>s2 Q2. (case r of Some m \<Rightarrow> runqueueinsert m s1 | None \<Rightarrow> Some s1) = Some s2
    \<and> rq_ok s2 Q2 \<and> excl_but {} s2 \<and> idle_ok s2 \<and> cpus s2 = cpus s1"
proof (cases r)
  case None
  with next_ok [OF ok r] ok show ?thesis by auto
next
  case (Some m)
  note n = next_ok [OF ok r]
  then have "limbo s1 cpu m" using Some by simp
  then have "t_flags (core s1 m) \<inter> {THREAD_FLAGS_QUEUED, THREAD_FLAGS_RUNNING, THREAD_FLAGS_SLEEP} = {}"
    unfolding limbo_def by blast
  from insert_ok [OF _ _ _ this] n Some show ?thesis by fastforce
qed

lemma yield_inv:
  assumes inv: "sched_inv s" and c: "current_thread s cpu = Some c"
  shows "\<exists>s'. yield cpu s = Some s' \<and> sched_inv s'"
proof -
  from inv obtain Q where ok: "rq_ok s Q" "excl_but {} s" "idle_ok s" by (auto simp: sched_inv_def)
  let ?sl = "THREAD_FLAGS_SLEEP \<in> flags s c"
  define mp where "mp = (if ?sl then ANY_PRIO else t_priority (threads s c))"
  obtain r s1 where r: "runqueuenext cpu mp s = Some (r, s1)" using next_total [OF ok(1)] by blast
  note n = next_ok [OF ok r]
  have c1: "current_thread s1 cpu = Some c" using n c by (simp add: current_thread_def)
  let ?intr = "?sl \<and> (t_shouldexit (threads s1 c) \<or> gotsignal s1 c) \<and> THREAD_FLAGS_INTERRUPTIBLE \<in> flags s1 c"
  have Y: "yield_select cpu s =
    (if ?intr
     then map_option (\<lambda>s. (None, upd_thread c (\<lambda>th. th\<lparr>t_wakeupreason := SCHED_WAKEUP_REASON_INTERRUPTED,
              t_sleeplock := False\<rparr>) (flags_off c {THREAD_FLAGS_SLEEP, THREAD_FLAGS_INTERRUPTIBLE} s)))
            (case r of Some n \<Rightarrow> runqueueinsert n s1 | None \<Rightarrow> Some s1)
     else if r \<noteq> None \<or> ?sl
     then map_option (\<lambda>s. (Some (or_idle s cpu r), s))
            (if ?sl then Some (flags_off c {THREAD_FLAGS_RUNNING} s1)
             else runqueueinsert c (flags_off c {THREAD_FLAGS_RUNNING} s1))
     else Some (None, s1))"
    by (simp only: yield_select_def Let_def c option.case mp_def [symmetric] r prod.case)
  consider (intr) "?intr" | (switch) "\<not> ?intr" "r \<noteq> None \<or> ?sl" | (stay) "\<not> ?intr" "r = None" "\<not> ?sl" by blast
  then show ?thesis
  proof cases
    case intr
    from put_back [OF ok r] obtain s2 Q2 where s2:
      "(case r of Some m \<Rightarrow> runqueueinsert m s1 | None \<Rightarrow> Some s1) = Some s2"
      "rq_ok s2 Q2" "excl_but {} s2" "idle_ok s2" "cpus s2 = cpus s1" by blast
    have "current_thread s2 cpu = Some c" using c1 s2(5) by (simp add: current_thread_def)
    from wake_self [OF s2(2-4) this refl] intr show ?thesis
      by (auto simp: yield_def Y s2(1))
  next
    case switch
    define s2 where "s2 = flags_off c {THREAD_FLAGS_RUNNING} s1"
    from switch(2) have "r = None \<Longrightarrow> mp = ANY_PRIO" by (auto simp: mp_def)
    note g = give_up [OF ok c r this s2_def]
    obtain Q2 where ok2: "rq_ok s2 Q2" "excl_but {cpu} s2" "idle_ok s2" "limbo s2 cpu (or_idle s2 cpu r)"
      using g(1) by blast
    show ?thesis
    proof (cases ?sl)
      case True
      with switch_inv [OF ok2] switch show ?thesis
        by (auto simp: yield_def Y s2_def)
    next
      case False
      with switch(2) obtain m where m: "r = Some m" by auto
      have "t_flags (core s2 c) \<inter> {THREAD_FLAGS_QUEUED, THREAD_FLAGS_RUNNING, THREAD_FLAGS_SLEEP} = {}"
        using g(4) current_flags [OF ok(2) c] False by (auto simp: core_fields(1))
      from requeue_switch [OF ok2 _ this] g(2) m obtain s3 where s3: "runqueueinsert c s2 = Some s3"
        "\<exists>s4. switch_thread cpu (current_thread s3 cpu) m s3 = Some s4 \<and> sched_inv s4"
        by (auto simp: or_idle_def)
      then show ?thesis using switch False m
        by (auto simp: yield_def Y s2_def or_idle_def)
    qed
  next
    case stay
    with n inv show ?thesis
      by (auto simp: yield_def Y)
  qed
qed


lemma preempted_flag:
  assumes "rq_ok s Q" "excl_but X s" "idle_ok s" and "f = THREAD_FLAGS_PREEMPTED"
  shows "rq_ok (flags_off t {f} s) Q" "excl_but X (flags_off t {f} s)" "idle_ok (flags_off t {f} s)"
    "rq_ok (flags_on t {f} s) Q" "excl_but X (flags_on t {f} s)" "idle_ok (flags_on t {f} s)"
  using assms(3,4)
  by (auto intro!: rq_ok_frame [OF assms(1)] excl_flags [OF assms(2)] simp: idle_ok_def split: if_splits)

text \<open>Giving up a thread that \<open>switch_thread\<close> switches back to.\<close>

lemma switch_clear:
  "switch_thread cpu (Some c) n (flags_off c {THREAD_FLAGS_RUNNING} s) = switch_thread cpu (Some c) n s"
proof -
  have "flags_off c {THREAD_FLAGS_RUNNING} (set_current cpu (Some n) (flags_off c {THREAD_FLAGS_RUNNING} s)) =
      flags_off c {THREAD_FLAGS_RUNNING} (set_current cpu (Some n) s)"
    by (simp add: flags_off_def set_current_def upd_thread_def)
  then show ?thesis by (simp add: switch_thread_def Let_def)
qed

lemma dopreempt_inv:
  assumes inv: "sched_inv s" and c: "current_thread s cpu = Some c" and awake: "THREAD_FLAGS_SLEEP \<notin> flags s c"
  shows "\<exists>s'. dopreempt cpu s = Some s' \<and> sched_inv s'"
proof -
  from inv obtain Q where ok: "rq_ok s Q" "excl_but {} s" "idle_ok s" by (auto simp: sched_inv_def)
  let ?mp = "t_priority (threads s c)"
  obtain r s1 where r: "runqueuenext cpu ?mp s = Some (r, s1)" using next_total [OF ok(1)] by blast
  note n = next_ok [OF ok r]
  note cf = current_flags [OF ok(2) c]
  have rc: "r \<noteq> Some c" using n cf by auto
  obtain Q1 where ok1: "rq_ok s1 Q1" "excl_but {} s1" "idle_ok s1" using n ok by (cases r) auto
  have cur1: "current_thread s1 cpu = Some c" using n c by (simp add: current_thread_def)
  have core1: "core s1 c = core s c" using n rc by (auto split: option.splits)
  let ?s2 = "flags_off c {THREAD_FLAGS_PREEMPTED} s1"
  let ?s3 = "flags_off c {THREAD_FLAGS_RUNNING} ?s2"
  note ok2 = preempted_flag(1-3) [OF ok1 refl, of c]
  have cur2: "current_thread ?s2 cpu = Some c" using cur1 by simp
  note ok3 = clear_ok [OF ok2 cur2]
  have fl: "t_flags (core ?s3 c) \<inter> {THREAD_FLAGS_QUEUED, THREAD_FLAGS_RUNNING, THREAD_FLAGS_SLEEP} = {}"
    using cf awake by (auto simp: core1 core_fields(1))
  show ?thesis
  proof (cases r)
    case None
    have "limbo ?s3 cpu c"
      using fl ok2(3) cur2 by (auto simp: limbo_def idle_ok_def)
    from switch_inv [OF ok3 this] cur1 None show ?thesis
      by (auto simp: dopreempt_def preempt_select_def c r Let_def switch_clear)
  next
    case (Some m)
    have "limbo ?s3 cpu m" using n rc Some by (auto simp: limbo_def)
    moreover have "m \<noteq> c" using rc Some by simp
    ultimately obtain s4 where "runqueueinsert c ?s3 = Some s4"
      "\<exists>s5. switch_thread cpu (current_thread s4 cpu) m s4 = Some s5 \<and> sched_inv s5"
      using requeue_switch [OF ok3 _ _ fl] by blast
    with Some show ?thesis
      by (auto simp: dopreempt_def preempt_select_def c r Let_def)
  qed
qed

lemma prepare_sleep_inv:
  assumes inv: "sched_inv s" and c: "current_thread s cpu = Some c" and "\<And>c'. c_idlethread (cpus s c') \<noteq> c"
  shows "\<exists>s'. sched_prepare_sleep cpu i s = Some s' \<and> sched_inv s'"
proof -
  from inv obtain Q where ok: "rq_ok s Q" "excl_but {} s" "idle_ok s" by (auto simp: sched_inv_def)
  define F where "F = {THREAD_FLAGS_SLEEP} \<union> (if i then {THREAD_FLAGS_INTERRUPTIBLE} else {})"
  let ?s = "flags_on c F (upd_thread c (\<lambda>th. th\<lparr>t_sleeplock := True\<rparr>) s)"
  have F: "THREAD_FLAGS_SLEEP \<in> F" "THREAD_FLAGS_RUNNING \<notin> F" "THREAD_FLAGS_QUEUED \<notin> F" "THREAD_FLAGS_DEAD \<notin> F"
    by (auto simp: F_def)
  note D = excl_butD [OF ok(2)] and cf = current_flags [OF ok(2) c]
  have "excl_but {} ?s"
  proof (rule excl_butI)
    show "c1 = c2" if "current_thread ?s c1 = Some t" "current_thread ?s c2 = Some t" for c1 c2 t
      using that D(2) by simp
    show "THREAD_FLAGS_DEAD \<in> t_flags (core ?s t) \<or> (\<exists>c. current_thread ?s c = Some t)"
      if "THREAD_FLAGS_RUNNING \<in> t_flags (core ?s t)" for t
      using that D(4) [of t] F by (auto split: if_splits)
    show "THREAD_FLAGS_QUEUED \<notin> t_flags (core ?s t)" if "THREAD_FLAGS_SLEEP \<in> t_flags (core ?s t)" for t
      using that D(5) [of t] F cf by (auto split: if_splits)
    show "THREAD_FLAGS_RUNNING \<in> t_flags (core ?s t) \<and> THREAD_FLAGS_SLEEP \<notin> t_flags (core ?s t)
        \<and> current_thread ?s c' \<noteq> Some t" if "THREAD_FLAGS_DEAD \<in> t_flags (core ?s t)" for t c'
      using that D(7) [of t c'] D(7) [of t cpu] c F by (auto split: if_splits)
  qed (use D(1-6) F c in auto)
  moreover have "rq_ok ?s Q" using F by (intro rq_ok_frame [OF ok(1)]) auto
  moreover have "idle_ok ?s" using ok(3) F assms(3) by (auto simp: idle_ok_def)
  ultimately show ?thesis by (auto simp: sched_prepare_sleep_def c F_def sched_inv_def)
qed

lemma sched_queue_inv:
  assumes ok: "rq_ok s Q" "excl_but {} s" "idle_ok s"
    and fl: "t_flags (core s t) \<inter> {THREAD_FLAGS_QUEUED, THREAD_FLAGS_RUNNING, THREAD_FLAGS_SLEEP} = {}"
  shows "\<exists>s'. sched_queue t s = Some s' \<and> sched_inv s'"
  using insert_ok [OF ok fl] fl by (auto simp: sched_queue_def core_fields(1) sched_inv_def)

lemma sched_wakeup_inv:
  assumes inv: "sched_inv s" and lock: "\<not> t_sleeplock (threads s t)"
  shows "\<exists>b s'. sched_wakeup t r s = Some (b, s') \<and> sched_inv s'"
proof (cases "THREAD_FLAGS_SLEEP \<notin> flags s t
      \<or> r = SCHED_WAKEUP_REASON_INTERRUPTED \<and> THREAD_FLAGS_INTERRUPTIBLE \<notin> flags s t")
  case True
  with inv show ?thesis by (auto simp: sched_wakeup_def)
next
  case False
  from inv obtain Q where ok: "rq_ok s Q" "excl_but {} s" "idle_ok s" by (auto simp: sched_inv_def)
  note D = excl_butD [OF ok(2)]
  let ?s = "upd_thread t (\<lambda>th. th\<lparr>t_wakeupreason := r\<rparr>) (flags_off t {THREAD_FLAGS_SLEEP, THREAD_FLAGS_INTERRUPTIBLE} s)"
  have sl: "THREAD_FLAGS_SLEEP \<in> t_flags (core s t)" using False by (simp add: core_fields(1))
  with lock D(6) [of t] have nocur: "\<And>c. current_thread s c \<noteq> Some t" by (auto simp: core_fields(4))
  have "excl_but {} ?s"
  proof (rule excl_butI)
    show "c1 = c2" if "current_thread ?s c1 = Some x" "current_thread ?s c2 = Some x" for c1 c2 x
      using that D(2) by simp
    show "THREAD_FLAGS_DEAD \<in> t_flags (core ?s x) \<or> (\<exists>c. current_thread ?s c = Some x)"
      if "THREAD_FLAGS_RUNNING \<in> t_flags (core ?s x)" for x
      using that D(4) [of x] by (auto split: if_splits)
    show "THREAD_FLAGS_RUNNING \<in> t_flags (core ?s x) \<and> THREAD_FLAGS_SLEEP \<notin> t_flags (core ?s x)
        \<and> current_thread ?s c' \<noteq> Some x" if "THREAD_FLAGS_DEAD \<in> t_flags (core ?s x)" for x c'
      using that D(7) [of x c'] by (auto split: if_splits)
  qed (use D(1-6) nocur in auto)
  moreover have "rq_ok ?s Q" by (rule rq_ok_frame [OF ok(1)]) auto
  moreover have "idle_ok ?s" using ok(3) by (auto simp: idle_ok_def)
  moreover have "t_flags (core ?s t) \<inter> {THREAD_FLAGS_QUEUED, THREAD_FLAGS_RUNNING, THREAD_FLAGS_SLEEP} = {}"
    using D(4,5,7) [of t] sl nocur by auto
  ultimately obtain s' where "sched_queue t ?s = Some s'" "sched_inv s'" using sched_queue_inv by blast
  with False show ?thesis by (auto simp: sched_wakeup_def)
qed


lemma stop_inv:
  assumes ok: "rq_ok s Q" "excl_but {cpu} s" "idle_ok s" and c: "current_thread s cpu = None"
  shows "\<exists>s'. sched_stop_current_thread cpu s = Some s' \<and> sched_inv s'"
proof -
  obtain r s1 where r: "runqueuenext cpu ANY_PRIO s = Some (r, s1)" using next_total [OF ok(1)] by blast
  note n = next_ok [OF ok r]
  obtain Q1 where ok1: "rq_ok s1 Q1" "excl_but {cpu} s1" "idle_ok s1" "limbo s1 cpu (or_idle s1 cpu r)"
  proof (cases r)
    case None
    with n idle_limbo [OF ok] ok that [of Q] show ?thesis by (auto simp: or_idle_def)
  next
    case (Some m)
    with n that show ?thesis by (auto simp: or_idle_def)
  qed
  from switch_inv [OF ok1] show ?thesis
    by (simp add: sched_stop_current_thread_def stop_select_def c r)
qed

lemma threadexit_inv:
  assumes inv: "sched_inv s" and c: "current_thread s cpu = Some c" and awake: "THREAD_FLAGS_SLEEP \<notin> flags s c"
    and noidle: "\<And>c'. c_idlethread (cpus s c') \<noteq> c"
  shows "\<exists>s'. threadexit_internal cpu s = Some s' \<and> sched_inv s'"
proof -
  from inv obtain Q where ok: "rq_ok s Q" "excl_but {} s" "idle_ok s" by (auto simp: sched_inv_def)
  let ?s = "flags_on c {THREAD_FLAGS_DEAD} (set_current cpu None s)"
  note D = excl_butD [OF ok(2)] and cf = current_flags [OF ok(2) c]
  have sl: "THREAD_FLAGS_SLEEP \<notin> t_flags (core s c)" using awake by (simp add: core_fields(1))
  have only: "current_thread s c' = Some c \<Longrightarrow> c' = cpu" for c' using D(2) [of c' c cpu] c by auto
  have "excl_but {cpu} ?s"
  proof (rule excl_butI)
    show "c1 = c2" if "current_thread ?s c1 = Some t" "current_thread ?s c2 = Some t" for c1 c2 t
      using that D(2) by (auto split: if_splits)
    show "THREAD_FLAGS_DEAD \<in> t_flags (core ?s t) \<or> (\<exists>c. current_thread ?s c = Some t)"
      if run: "THREAD_FLAGS_RUNNING \<in> t_flags (core ?s t)" for t
    proof (cases "t = c")
      case False
      have "current_thread ?s ca = Some t" if "current_thread s ca = Some t" for ca
        using that False c by auto
      moreover from False run D(4) [of t]
      have "THREAD_FLAGS_DEAD \<in> t_flags (core ?s t) \<or> (\<exists>ca. current_thread s ca = Some t)" by auto
      ultimately show ?thesis by blast
    qed simp
    show "t_sleeplock (core ?s t) \<longleftrightarrow> THREAD_FLAGS_SLEEP \<in> t_flags (core ?s t) \<and> (\<exists>c. current_thread ?s c = Some t)" for t
    proof (cases "t = c")
      case True
      then show ?thesis using D(6) [of t] sl by simp
    next
      case False
      then have "current_thread ?s ca = Some t \<longleftrightarrow> current_thread s ca = Some t" for ca using c by auto
      with False D(6) [of t] show ?thesis by simp
    qed
    show "THREAD_FLAGS_RUNNING \<in> t_flags (core ?s t) \<and> THREAD_FLAGS_SLEEP \<notin> t_flags (core ?s t)
        \<and> current_thread ?s c' \<noteq> Some t" if "THREAD_FLAGS_DEAD \<in> t_flags (core ?s t)" for t c'
      using that D(7) [of t c'] cf sl only by (auto split: if_splits)
    show "THREAD_FLAGS_RUNNING \<in> t_flags (core ?s t) \<longleftrightarrow> c' \<notin> {cpu}" if "current_thread ?s c' = Some t" for c' t
      using that D(1) [of c' t] by (auto split: if_splits)
  qed (use D(3,5) in \<open>auto split: if_splits\<close>)
  moreover have "rq_ok ?s Q" by (rule rq_ok_frame [OF ok(1)]) auto
  moreover have "idle_ok ?s" using ok(3) noidle by (auto simp: idle_ok_def)
  ultimately show ?thesis using stop_inv [of ?s Q cpu] by (simp add: threadexit_internal_def c)
qed

text \<open>A running thread that is no idle thread may change its priority and its target CPU.\<close>

lemma retarget:
  assumes ok: "rq_ok s Q" "excl_but {} s" "idle_ok s" and c: "current_thread s cpu = Some c"
    and noidle: "\<And>c'. c_idlethread (cpus s c') \<noteq> c" and "p < 64"
  shows "rq_ok (upd_thread c (\<lambda>th. th\<lparr>t_cputarget := x\<rparr>) s) Q" "excl_but {} (upd_thread c (\<lambda>th. th\<lparr>t_cputarget := x\<rparr>) s)"
    "idle_ok (upd_thread c (\<lambda>th. th\<lparr>t_cputarget := x\<rparr>) s)"
    "rq_ok (upd_thread c (\<lambda>th. th\<lparr>t_priority := p\<rparr>) s) Q" "excl_but {} (upd_thread c (\<lambda>th. th\<lparr>t_priority := p\<rparr>) s)"
    "idle_ok (upd_thread c (\<lambda>th. th\<lparr>t_priority := p\<rparr>) s)"
  using assms current_flags(2) [OF ok(2) c]
  by (auto intro!: rq_ok_frame [OF ok(1)] excl_flags [OF ok(2)] simp: idle_ok_def split: if_splits)

lemma reschedule_inv:
  assumes inv: "sched_inv s" and c: "current_thread s cpu = Some c" and awake: "THREAD_FLAGS_SLEEP \<notin> flags s c"
    and noidle: "\<And>c'. c_idlethread (cpus s c') \<noteq> c"
  shows "\<exists>s'. sched_reschedule_on_cpu cpu cpu' target s = Some s' \<and> sched_inv s'"
proof -
  from inv obtain Q where ok: "rq_ok s Q" "excl_but {} s" "idle_ok s" by (auto simp: sched_inv_def)
  let ?s1 = "upd_thread c (\<lambda>th. th\<lparr>t_cputarget := Some cpu'\<rparr>) s"
  note ok1 = retarget(1-3) [OF ok c noidle, of 0 "Some cpu'"]
  have c1: "current_thread ?s1 cpu = Some c" and noidle1: "\<And>c'. c_idlethread (cpus ?s1 c') \<noteq> c"
    using c noidle by simp_all
  show ?thesis
  proof (cases "cpu' = cpu")
    case True
    with ok1 retarget(1-3) [OF ok1 c1 noidle1, of 0] show ?thesis
      by (auto simp: sched_reschedule_on_cpu_def c Let_def sched_inv_def)
  next
    case False
    define s2 where "s2 = upd_thread c (\<lambda>th. th\<lparr>t_priority := 0\<rparr>) ?s1"
    have ok2: "rq_ok s2 Q" "excl_but {} s2" "idle_ok s2"
      unfolding s2_def using retarget(4-6) [OF ok1 c1 noidle1] by simp_all
    have c2: "current_thread s2 cpu = Some c" using c by (simp add: s2_def)
    obtain r s3 where r: "runqueuenext cpu ANY_PRIO s2 = Some (r, s3)" using next_total [OF ok2(1)] by blast
    define s4 where "s4 = flags_off c {THREAD_FLAGS_RUNNING} s3"
    note g = give_up [OF ok2 c2 r refl s4_def]
    obtain Q4 where ok4: "rq_ok s4 Q4" "excl_but {cpu} s4" "idle_ok s4" "limbo s4 cpu (or_idle s4 cpu r)"
      using g(1) by blast
    have "or_idle s4 cpu r \<noteq> c" using g(2,3) noidle by (auto simp: or_idle_def s2_def split: option.splits)
    moreover have "t_flags (core s4 c) \<inter> {THREAD_FLAGS_QUEUED, THREAD_FLAGS_RUNNING, THREAD_FLAGS_SLEEP} = {}"
      using g(4) current_flags [OF ok2(2) c2] awake by (auto simp: s2_def core_fields(1))
    ultimately obtain s5 where "runqueueinsert c s4 = Some s5" "cpus s5 = cpus s4"
      "\<exists>s6. switch_thread cpu (current_thread s5 cpu) (or_idle s4 cpu r) s5 = Some s6 \<and> sched_inv s6"
      using requeue_switch [OF ok4] by blast
    moreover from this(2) have "or_idle s5 cpu r = or_idle s4 cpu r" by (simp add: or_idle_def split: option.split)
    ultimately show ?thesis
      using False by (simp add: sched_reschedule_on_cpu_def c Let_def reschedule_yield_def s2_def [symmetric] c2 r
          s4_def [symmetric])
  qed
qed


lemma resume_inv:
  assumes inv: "sched_inv s" and c: "current_thread s cpu = Some c" and noidle: "\<And>c'. c_idlethread (cpus s c') \<noteq> c"
    and "p < 64"
  shows "\<exists>s'. sched_reschedule_resume cpu old p target s = Some s' \<and> sched_inv s'"
proof -
  from inv obtain Q where ok: "rq_ok s Q" "excl_but {} s" "idle_ok s" by (auto simp: sched_inv_def)
  let ?x = "if target then t_cputarget (threads s c) else old"
  let ?s1 = "upd_thread c (\<lambda>th. th\<lparr>t_priority := p\<rparr>) s"
  let ?s2 = "upd_thread c (\<lambda>th. th\<lparr>t_cputarget := ?x\<rparr>) ?s1"
  note ok1 = retarget(4-6) [OF ok c noidle assms(4)]
  have "current_thread ?s1 cpu = Some c" "\<And>c'. c_idlethread (cpus ?s1 c') \<noteq> c" using c noidle by simp_all
  note ok2 = retarget(1-3) [OF ok1 this, of 0 ?x]
  have "sched_reschedule_resume cpu old p target s = Some ?s2"
    by (simp add: sched_reschedule_resume_def c upd_thread_def)
  with ok2 show ?thesis by (auto simp: sched_inv_def)
qed

subsection \<open>Steps and properties\<close>

text \<open>
  The steps of the system when every function runs in one piece. Only the idle threads never sleep,
  exit or move; interrupts are off while a thread prepares to sleep, so it is not preempted; the
  waker waits for the sleep lock.
\<close>

inductive sched_step :: "sched \<Rightarrow> sched \<Rightarrow> bool" where
  step_yield: "current_thread s cpu = Some c \<Longrightarrow> yield cpu s = Some s' \<Longrightarrow> sched_step s s'"
| step_preempt: "current_thread s cpu = Some c \<Longrightarrow> THREAD_FLAGS_SLEEP \<notin> flags s c \<Longrightarrow>
    dopreempt cpu s = Some s' \<Longrightarrow> sched_step s s'"
| step_sleep: "current_thread s cpu = Some c \<Longrightarrow> (\<forall>c'. c_idlethread (cpus s c') \<noteq> c) \<Longrightarrow>
    \<not> t_sleeplock (threads s c) \<Longrightarrow> sched_prepare_sleep cpu i s = Some s' \<Longrightarrow> sched_step s s'"
| step_wakeup: "\<not> t_sleeplock (threads s t) \<Longrightarrow> sched_wakeup t r s = Some (b, s') \<Longrightarrow> sched_step s s'"
| step_new: "flags s t = {} \<Longrightarrow> sched_queue t s = Some s' \<Longrightarrow> sched_step s s'"
| step_exit: "current_thread s cpu = Some c \<Longrightarrow> THREAD_FLAGS_SLEEP \<notin> flags s c \<Longrightarrow>
    (\<forall>c'. c_idlethread (cpus s c') \<noteq> c) \<Longrightarrow> threadexit_internal cpu s = Some s' \<Longrightarrow> sched_step s s'"
| step_move: "current_thread s cpu = Some c \<Longrightarrow> THREAD_FLAGS_SLEEP \<notin> flags s c \<Longrightarrow>
    (\<forall>c'. c_idlethread (cpus s c') \<noteq> c) \<Longrightarrow> sched_reschedule_on_cpu cpu cpu' target s = Some s' \<Longrightarrow> sched_step s s'"
| step_moved: "current_thread s cpu = Some c \<Longrightarrow> (\<forall>c'. c_idlethread (cpus s c') \<noteq> c) \<Longrightarrow> p < 64 \<Longrightarrow>
    sched_reschedule_resume cpu old p target s = Some s' \<Longrightarrow> sched_step s s'"

lemma sched_step_inv:
  assumes "sched_step s s'" and "sched_inv s"
  shows "sched_inv s'"
  using assms
proof cases
  case (step_new t)
  then have "t_flags (core s t) = {}" by (simp add: core_fields(1))
  with step_new assms(2) sched_queue_inv [of s _ t] show ?thesis by (auto simp: sched_inv_def)
qed (use assms(2) yield_inv dopreempt_inv prepare_sleep_inv sched_wakeup_inv threadexit_inv reschedule_inv
      resume_inv in \<open>metis option.inject prod.inject\<close>)+

lemma sched_steps_inv: "sched_step\<^sup>*\<^sup>* s s' \<Longrightarrow> sched_inv s \<Longrightarrow> sched_inv s'"
  by (induction rule: rtranclp_induct) (auto intro: sched_step_inv)


text \<open>
  Three CPUs run the threads 0, 2 and 3, thread 1 is queued; thread \<open>c + 4\<close> is the idle thread of
  CPU \<open>c\<close>.
\<close>

definition ex_thread :: thread where
  "ex_thread = \<lparr>t_next = None, t_prev = None, t_sleepnext = None, t_sleepprev = None, t_proc = None,
     t_cputarget = None, t_flags = {}, t_priority = 0, t_sleeplock = False, t_wakeupreason = 0,
     t_shouldexit = False, t_mask = {}, t_pending = {}, t_urgent = {}\<rparr>"

definition ex_sched :: sched where
  "ex_sched = \<lparr>threads = (\<lambda>t.
       if t = 1 then ex_thread\<lparr>t_flags := {THREAD_FLAGS_QUEUED}\<rparr>
       else if t = 0 \<or> t = 3 then ex_thread\<lparr>t_flags := {THREAD_FLAGS_RUNNING}\<rparr>
       else if t = 2 then ex_thread\<lparr>t_flags := {THREAD_FLAGS_RUNNING}, t_priority := 1\<rparr>
       else ex_thread\<lparr>t_cputarget := Some (t - 4), t_priority := 3\<rparr>),
     procs = (\<lambda>_. \<lparr>ps_pending = {}, ps_actions = (\<lambda>_. SIG_DFL)\<rparr>),
     runqueue = (\<lambda>i. if i = 0 then \<lparr>rq_list = Some 1, rq_last = Some 1\<rparr> else \<lparr>rq_list = None, rq_last = None\<rparr>),
     runqueuebitmap = 1,
     cpus = (\<lambda>c. \<lparr>c_thread = (if c = 0 then Some 0 else if c = 1 then Some 2 else if c = 2 then Some 3 else None),
        c_idlethread = c + 4\<rparr>)\<rparr>"

definition ex_queues :: "nat \<Rightarrow> tid list" where
  "ex_queues i = (if i = 0 then [1] else [])"

lemma ex_rq_ok: "rq_ok ex_sched ex_queues"
  by (auto simp: rq_ok_def qlinks_def dllist_def ex_sched_def ex_queues_def ex_thread_def nextp_def prevp_def
      core_def bit_1_iff)

lemma ex_sched_inv: "sched_inv ex_sched"
proof -
  have "excl_but {} ex_sched"
  proof (rule excl_butI)
    fix t
    assume "THREAD_FLAGS_RUNNING \<in> t_flags (core ex_sched t)"
    then have "t = 0 \<or> t = 2 \<or> t = 3" by (auto simp: ex_sched_def ex_thread_def core_def split: if_splits)
    moreover have "current_thread ex_sched 0 = Some 0" "current_thread ex_sched 1 = Some 2"
      "current_thread ex_sched 2 = Some 3" by (simp_all add: ex_sched_def current_thread_def)
    ultimately show "THREAD_FLAGS_DEAD \<in> t_flags (core ex_sched t) \<or> (\<exists>c. current_thread ex_sched c = Some t)"
      by blast
  qed (auto simp: ex_sched_def ex_thread_def core_def current_thread_def split: if_splits)
  moreover have "idle_ok ex_sched"
    by (auto simp: idle_ok_def ex_sched_def ex_thread_def core_def current_thread_def split: if_splits)
  ultimately show ?thesis using ex_rq_ok by (auto simp: sched_inv_def)
qed

text \<open>
  C2: starting from a well-formed state, however the CPUs' yields, preemptions, sleeps, wake-ups,
  exits and moves are ordered, a thread runs on at most one CPU, carries the running flag there and
  is in no run queue.
\<close>

theorem one_cpu_per_thread:
  assumes "sched_step\<^sup>*\<^sup>* s s'" and "sched_inv s" and "current_thread s' c = Some t"
  shows "(\<forall>c'. current_thread s' c' = Some t \<longrightarrow> c' = c) \<and> THREAD_FLAGS_RUNNING \<in> flags s' t
    \<and> THREAD_FLAGS_QUEUED \<notin> flags s' t"
proof -
  have "excl_but {} s'" using sched_steps_inv [OF assms(1,2)] by (simp add: sched_inv_def)
  note D = excl_butD [OF this]
  show ?thesis using D(1,2) [OF assms(3)] D(3) by (auto simp: core_fields(1))
qed

theorem one_cpu_per_thread_witness:
  "current_thread (the (sched_prepare_sleep 0 True ex_sched)) 1 \<noteq> Some 0
    \<and> THREAD_FLAGS_RUNNING \<in> flags (the (sched_prepare_sleep 0 True ex_sched)) 0
    \<and> THREAD_FLAGS_QUEUED \<notin> flags (the (sched_prepare_sleep 0 True ex_sched)) 0"
proof -
  let ?s = "the (sched_prepare_sleep 0 True ex_sched)"
  have cur: "current_thread ex_sched 0 = Some 0" by (simp add: ex_sched_def current_thread_def)
  then have s: "sched_prepare_sleep 0 True ex_sched = Some ?s" "current_thread ?s 0 = Some 0"
    by (simp_all add: sched_prepare_sleep_def)
  have "sched_step ex_sched ?s"
    by (rule step_sleep [OF cur _ _ s(1)]) (simp_all add: ex_sched_def ex_thread_def)
  then show ?thesis using one_cpu_per_thread [OF _ ex_sched_inv s(2)] by auto
qed

text \<open>
  C26: in a well-formed state no assertion of the scheduler fails: on every CPU with a thread \<open>yield\<close>
  and, unless the thread prepares to sleep, the preemption go through, and so does waking any thread
  whose sleep lock is free.
\<close>

theorem scheduler_asserts_hold:
  assumes "sched_inv s"
  shows "(\<forall>cpu c. current_thread s cpu = Some c \<longrightarrow> yield cpu s \<noteq> None
       \<and> (THREAD_FLAGS_SLEEP \<notin> flags s c \<longrightarrow> dopreempt cpu s \<noteq> None))
    \<and> (\<forall>t r. \<not> t_sleeplock (threads s t) \<longrightarrow> sched_wakeup t r s \<noteq> None)"
proof (intro conjI allI impI)
  show "yield cpu s \<noteq> None" if "current_thread s cpu = Some c" for cpu c
    using yield_inv [OF assms that] by auto
  show "dopreempt cpu s \<noteq> None" if "current_thread s cpu = Some c" "THREAD_FLAGS_SLEEP \<notin> flags s c" for cpu c
    using dopreempt_inv [OF assms that] by auto
  show "sched_wakeup t r s \<noteq> None" if "\<not> t_sleeplock (threads s t)" for t r
    using sched_wakeup_inv [OF assms that, of r] by auto
qed

theorem scheduler_asserts_hold_witness:
  "yield 0 ex_sched \<noteq> None \<and> dopreempt 0 ex_sched \<noteq> None \<and> sched_wakeup 1 0 ex_sched \<noteq> None"
  using scheduler_asserts_hold [OF ex_sched_inv]
  by (auto simp: ex_sched_def current_thread_def flags_def ex_thread_def)

text \<open>
  C25: the linked queues and their bitmap implement 64 FIFO queues. Picking a thread returns the first
  thread that may run on the CPU in the lowest-numbered queue that has one, up to the limit, and
  takes it out of its queue.
\<close>

theorem runqueuenext_refines:
  assumes "rq_ok s Q"
  shows "\<exists>s'. runqueuenext cpu minprio s = Some (best s Q cpu minprio, s')
    \<and> rq_ok s' (case best s Q cpu minprio of None \<Rightarrow> Q | Some t \<Rightarrow> (\<lambda>i. remove1 t (Q i)))"
proof (cases "best s Q cpu minprio")
  case None
  with assms runqueuenext_best [OF assms] show ?thesis by simp
next
  case (Some t)
  with runqueuenext_best [OF assms] dequeue_ok [OF assms best_queued(2,3) [OF assms Some]] show ?thesis by simp
qed

theorem runqueuenext_refines_witness:
  "\<exists>s'. runqueuenext 0 5 ex_sched = Some (best ex_sched ex_queues 0 5, s')
    \<and> rq_ok s' (case best ex_sched ex_queues 0 5 of None \<Rightarrow> ex_queues | Some t \<Rightarrow> (\<lambda>i. remove1 t (ex_queues i)))"
  by (rule runqueuenext_refines [OF ex_rq_ok])

text \<open>
  Queueing a thread that is neither queued nor running puts it at the end of the queue of its
  priority and changes no other queue.
\<close>

lemma sched_queue_refines:
  assumes "rq_ok s Q" and "THREAD_FLAGS_QUEUED \<notin> flags s t" and "THREAD_FLAGS_RUNNING \<notin> flags s t"
    and "p = t_priority (threads s t)" and "p < 64"
  shows "\<exists>s'. sched_queue t s = Some s' \<and> rq_ok s' (Q(p := Q p @ [t]))"
  using runqueueinsert_ok [OF assms(1), of t p] assms(2-5)
  by (auto simp: sched_queue_def core_fields)

end
