(* ===== verification/Yield_Race.thy ===== *)
theory Yield_Race
  imports Scheduler
begin

text \<open>
  The scheduler with its functions split where they give up the run queue lock. \<open>yield\<close> releases
  \<open>runqueuelock\<close> before it calls \<open>switch_thread\<close>, which takes it again to change the flags of the old
  and the new thread (\<^verbatim>\<open>src/kernel-src/sys/scheduler/scheduler.c\<close>). Other CPUs run in the gap; the
  theory shows a run in which two CPUs end up with the same thread.
\<close>

text \<open>
  The same functions with the gap the code has: \<open>yield\<close> gives up the run queue lock once it has
  chosen a thread, and \<open>switch_thread\<close> takes it again. In between, the CPU has a switch pending
  from its old thread to the new one.
\<close>

inductive gap_step ::
    "sched \<times> (cpuid \<Rightarrow> (tid option \<times> tid) option) \<Rightarrow> sched \<times> (cpuid \<Rightarrow> (tid option \<times> tid) option) \<Rightarrow> bool" where
  gap_stay: "pend cpu = None \<Longrightarrow> yield_select cpu s = Some (None, s') \<Longrightarrow> gap_step (s, pend) (s', pend)"
| gap_select: "pend cpu = None \<Longrightarrow> yield_select cpu s = Some (Some n, s') \<Longrightarrow>
    gap_step (s, pend) (s', pend(cpu := Some (current_thread s cpu, n)))"
| gap_switch: "pend cpu = Some (c, n) \<Longrightarrow> switch_thread cpu c n s = Some s' \<Longrightarrow>
    gap_step (s, pend) (s', pend(cpu := None))"
| gap_sleep: "pend cpu = None \<Longrightarrow> current_thread s cpu = Some c \<Longrightarrow> \<not> t_sleeplock (threads s c) \<Longrightarrow>
    sched_prepare_sleep cpu i s = Some s' \<Longrightarrow> gap_step (s, pend) (s', pend)"
| gap_wakeup: "\<not> t_sleeplock (threads s t) \<Longrightarrow> sched_wakeup t r s = Some (b, s') \<Longrightarrow>
    gap_step (s, pend) (s', pend)"

definition g1 :: sched where "g1 = snd (the (yield_select 0 ex_sched))"
definition g2 :: sched where "g2 = snd (the (yield_select 1 g1))"
definition g3 :: sched where "g3 = the (switch_thread 1 (Some 2) 0 g2)"
definition g4 :: sched where "g4 = the (sched_prepare_sleep 1 False g3)"
definition g5 :: sched where "g5 = the (switch_thread 0 (Some 0) 1 g4)"
definition g6 :: sched where "g6 = snd (the (sched_wakeup 0 0 g5))"
definition g7 :: sched where "g7 = snd (the (yield_select 2 g6))"
definition g8 :: sched where "g8 = the (switch_thread 2 (Some 3) 0 g7)"

lemma select_result: "map_option fst x = Some v \<Longrightarrow> x = Some (v, snd (the x))"
  by (cases x) auto

lemma race_run:
  "yield_select 0 ex_sched = Some (Some 1, g1)" "current_thread ex_sched 0 = Some 0"
  "yield_select 1 g1 = Some (Some 0, g2)" "current_thread g1 1 = Some 2"
  "switch_thread 1 (Some 2) 0 g2 = Some g3" "current_thread g3 1 = Some 0" "\<not> t_sleeplock (threads g3 0)"
  "sched_prepare_sleep 1 False g3 = Some g4" "switch_thread 0 (Some 0) 1 g4 = Some g5"
  "\<not> t_sleeplock (threads g5 0)" "sched_wakeup 0 0 g5 = Some (True, g6)"
  "yield_select 2 g6 = Some (Some 0, g7)" "current_thread g6 2 = Some 3"
  "switch_thread 2 (Some 3) 0 g7 = Some g8"
  "current_thread g8 1 = Some 0" "current_thread g8 2 = Some 0"
proof -
  have "map_option fst (yield_select 0 ex_sched) = Some (Some 1)" by code_simp
  from select_result [OF this] show "yield_select 0 ex_sched = Some (Some 1, g1)" by (simp add: g1_def)
  have "map_option fst (yield_select 1 g1) = Some (Some 0)" by code_simp
  from select_result [OF this] show "yield_select 1 g1 = Some (Some 0, g2)" by (simp add: g2_def)
  have "switch_thread 1 (Some 2) 0 g2 \<noteq> None" by code_simp
  then show "switch_thread 1 (Some 2) 0 g2 = Some g3" by (auto simp: g3_def)
  have "sched_prepare_sleep 1 False g3 \<noteq> None" by code_simp
  then show "sched_prepare_sleep 1 False g3 = Some g4" by (auto simp: g4_def)
  have "switch_thread 0 (Some 0) 1 g4 \<noteq> None" by code_simp
  then show "switch_thread 0 (Some 0) 1 g4 = Some g5" by (auto simp: g5_def)
  have "map_option fst (sched_wakeup 0 0 g5) = Some True" by code_simp
  from select_result [OF this] show "sched_wakeup 0 0 g5 = Some (True, g6)" by (simp add: g6_def)
  have "map_option fst (yield_select 2 g6) = Some (Some 0)" by code_simp
  from select_result [OF this] show "yield_select 2 g6 = Some (Some 0, g7)" by (simp add: g7_def)
  have "switch_thread 2 (Some 3) 0 g7 \<noteq> None" by code_simp
  then show "switch_thread 2 (Some 3) 0 g7 = Some g8" by (auto simp: g8_def)
qed code_simp+

text \<open>
  C3: with the gap, two CPUs can come to run the same thread. From a well-formed state, CPU 0 yields
  thread 0 and has not switched yet when CPU 1 picks thread 0, which prepares to sleep there; the
  switch of CPU 0 then clears the running flag and releases the sleep lock of thread 0, a waker
  queues it, and CPU 2 picks it while CPU 1 still runs it.
\<close>

theorem yield_race_runs_thread_twice:
  "\<exists>s s' t. sched_inv s \<and> gap_step\<^sup>*\<^sup>* (s, \<lambda>_. None) (s', \<lambda>_. None)
     \<and> current_thread s' 1 = Some t \<and> current_thread s' 2 = Some t"
proof -
  let ?n = "\<lambda>_ :: cpuid. None :: (tid option \<times> tid) option"
  note st = race_run
  have "gap_step\<^sup>*\<^sup>* (ex_sched, ?n) (g1, ?n(0 := Some (Some 0, 1)))"
    using gap_select [of ?n 0, OF _ st(1)] st(2) by (intro r_into_rtranclp) simp
  also have "gap_step\<^sup>*\<^sup>* (g1, ?n(0 := Some (Some 0, 1)))
      (g2, ?n(0 := Some (Some 0, 1), 1 := Some (Some 2, 0)))"
    using gap_select [of "?n(0 := Some (Some 0, 1))" 1, OF _ st(3)] st(4) by (intro r_into_rtranclp) simp
  also have "gap_step\<^sup>*\<^sup>* (g2, ?n(0 := Some (Some 0, 1), 1 := Some (Some 2, 0))) (g3, ?n(0 := Some (Some 0, 1)))"
    using gap_switch [of "?n(0 := Some (Some 0, 1), 1 := Some (Some 2, 0))" 1, OF _ st(5)]
    by (intro r_into_rtranclp) (simp add: fun_upd_idem)
  also have "gap_step\<^sup>*\<^sup>* (g3, ?n(0 := Some (Some 0, 1))) (g4, ?n(0 := Some (Some 0, 1)))"
    by (intro r_into_rtranclp gap_sleep [OF _ st(6,7,8)]) simp
  also have "gap_step\<^sup>*\<^sup>* (g4, ?n(0 := Some (Some 0, 1))) (g5, ?n)"
    using gap_switch [of "?n(0 := Some (Some 0, 1))" 0, OF _ st(9)]
    by (intro r_into_rtranclp) (simp add: fun_upd_idem)
  also have "gap_step\<^sup>*\<^sup>* (g5, ?n) (g6, ?n)"
    by (intro r_into_rtranclp gap_wakeup [OF st(10,11)])
  also have "gap_step\<^sup>*\<^sup>* (g6, ?n) (g7, ?n(2 := Some (Some 3, 0)))"
    using gap_select [of ?n 2, OF _ st(12)] st(13) by (intro r_into_rtranclp) simp
  also have "gap_step\<^sup>*\<^sup>* (g7, ?n(2 := Some (Some 3, 0))) (g8, ?n)"
    using gap_switch [of "?n(2 := Some (Some 3, 0))" 2, OF _ st(14)]
    by (intro r_into_rtranclp) (simp add: fun_upd_idem)
  finally show ?thesis using ex_sched_inv st(15,16) by blast
qed

end
