(* ===== verification/Semaphore.thy ===== *)
theory Semaphore
  imports Scheduler
begin

text \<open>
  Semaphores and mutexes: \<^verbatim>\<open>src/kernel-src/lib/semaphore.c\<close>, \<^verbatim>\<open>include/semaphore.h\<close> and
  \<^verbatim>\<open>include/mutex.h\<close>, on top of the scheduler.

  A semaphore is a count and a doubly linked list of sleeping threads, linked through the threads
  themselves. The spinlock and the interrupt mask around each operation make it one step of the
  model; a wait that sleeps is two, \<open>wait_enter\<close> up to the yield and \<open>wait_leave\<close> once the thread
  runs again with the reason it was woken for. \<open>None\<close> is a failed assertion. The count is an
  unbounded integer: a C int would overflow only after \<open>2 ^ 31\<close> signals without a wait.

  The lemmas show that the count and the waiters agree, that a signal hands the semaphore to the
  longest waiter, and that a mutex has at most one holder whatever signals, interruptions and
  reschedulings come in between.
\<close>

record semaphore =
  sem_i :: int
  sem_tail :: "tid option"
  sem_head :: "tid option"

definition SEMAPHORE_INIT :: "int \<Rightarrow> semaphore" where
  "SEMAPHORE_INIT v = \<lparr>sem_i = v, sem_tail = None, sem_head = None\<rparr>"

definition MUTEX_INIT :: semaphore where
  "MUTEX_INIT = SEMAPHORE_INIT 1"

definition sleepnext :: "sched \<Rightarrow> tid \<Rightarrow> tid option" where
  "sleepnext s t = t_sleepnext (threads s t)"

definition sleepprev :: "sched \<Rightarrow> tid \<Rightarrow> tid option" where
  "sleepprev s t = t_sleepprev (threads s t)"

definition set_sleepnext :: "tid \<Rightarrow> tid option \<Rightarrow> sched \<Rightarrow> sched" where
  "set_sleepnext t v = upd_thread t (\<lambda>th. th\<lparr>t_sleepnext := v\<rparr>)"

definition set_sleepprev :: "tid \<Rightarrow> tid option \<Rightarrow> sched \<Rightarrow> sched" where
  "set_sleepprev t v = upd_thread t (\<lambda>th. th\<lparr>t_sleepprev := v\<rparr>)"

subsection \<open>Operations\<close>

definition sem_insert :: "semaphore \<Rightarrow> tid \<Rightarrow> sched \<Rightarrow> semaphore \<times> sched" where
  "sem_insert sem thread s =
     (let s = set_sleepnext thread (sem_head sem) s;
          s = set_sleepprev thread None s;
          sem = sem\<lparr>sem_head := Some thread\<rparr>;
          sem = (if sem_tail sem = None then sem\<lparr>sem_tail := Some thread\<rparr> else sem);
          s = (case sleepnext s thread of Some n \<Rightarrow> set_sleepprev n (Some thread) s | None \<Rightarrow> s)
      in (sem, s))"

definition sem_get :: "semaphore \<Rightarrow> sched \<Rightarrow> tid option \<times> semaphore \<times> sched" where
  "sem_get sem s =
     (case sem_tail sem of
        None \<Rightarrow> (None, sem, s)
      | Some thread \<Rightarrow>
          (let sem = sem\<lparr>sem_tail := sleepprev s thread\<rparr>;
               (sem, s) = (case sem_tail sem of
                             None \<Rightarrow> (sem\<lparr>sem_head := None\<rparr>, s)
                           | Some t \<Rightarrow> (sem, set_sleepnext t None s));
               s = set_sleepprev thread None s;
               s = set_sleepnext thread None s
           in (Some thread, sem, s)))"

definition removeself :: "semaphore \<Rightarrow> tid \<Rightarrow> sched \<Rightarrow> (bool \<times> semaphore \<times> sched) option" where
  "removeself sem thread s =
     (if sem_head sem = None \<and> sem_tail sem = None
         \<or> \<not> ((sleepnext s thread \<noteq> None \<or> sleepprev s thread \<noteq> None)
              \<or> sem_head sem = Some thread \<and> sem_tail sem = Some thread)
      then Some (False, sem, s)
      else
        case (if sem_head sem = Some thread then Some (sem\<lparr>sem_head := sleepnext s thread\<rparr>, s)
              else map_option (\<lambda>p. (sem, set_sleepnext p (sleepnext s thread) s)) (sleepprev s thread)) of
          None \<Rightarrow> None
        | Some (sem, s) \<Rightarrow>
            case (if sem_tail sem = Some thread then Some (sem\<lparr>sem_tail := sleepprev s thread\<rparr>, s)
                  else map_option (\<lambda>n. (sem, set_sleepprev n (sleepprev s thread) s)) (sleepnext s thread)) of
              None \<Rightarrow> None
            | Some (sem, s) \<Rightarrow>
                Some (True, sem, set_sleepnext thread None (set_sleepprev thread None s)))"

text \<open>\<open>semaphore_wait\<close> up to the yield; the result says whether the thread goes to sleep.\<close>

definition wait_enter :: "cpuid \<Rightarrow> bool \<Rightarrow> semaphore \<Rightarrow> sched \<Rightarrow> (bool \<times> semaphore \<times> sched) option" where
  "wait_enter cpu interruptible sem s =
     (case current_thread s cpu of None \<Rightarrow> None | Some thread \<Rightarrow>
       (let sem = sem\<lparr>sem_i := sem_i sem - 1\<rparr>
        in if sem_i sem < 0
           then (let (sem, s) = sem_insert sem thread s
                 in map_option (\<lambda>s. (True, sem, s)) (sched_prepare_sleep cpu interruptible s))
           else Some (False, sem, s)))"

text \<open>\<open>semaphore_wait\<close> after the yield returned \<open>ret\<close>.\<close>

definition wait_leave :: "tid \<Rightarrow> int \<Rightarrow> semaphore \<Rightarrow> sched \<Rightarrow> (int \<times> semaphore \<times> sched) option" where
  "wait_leave thread ret sem s =
     (if ret \<noteq> 0
      then case removeself sem thread s of
             None \<Rightarrow> None
           | Some (True, sem, s) \<Rightarrow> Some (ret, sem\<lparr>sem_i := sem_i sem + 1\<rparr>, s)
           | Some (False, sem, s) \<Rightarrow> Some (0, sem, s)
      else Some (ret, sem, s))"

definition wake_one :: "semaphore \<Rightarrow> sched \<Rightarrow> (semaphore \<times> sched) option" where
  "wake_one sem s =
     (case sem_get sem s of
        (None, _, _) \<Rightarrow> None
      | (Some thread, sem, s) \<Rightarrow> map_option (\<lambda>(_, s). (sem, s)) (sched_wakeup thread 0 s))"

definition semaphore_signal :: "semaphore \<Rightarrow> sched \<Rightarrow> (semaphore \<times> sched) option" where
  "semaphore_signal sem s =
     (let sem = sem\<lparr>sem_i := sem_i sem + 1\<rparr>
      in if sem_i sem \<le> 0 then wake_one sem s else Some (sem, s))"

definition semaphore_signal_limit :: "semaphore \<Rightarrow> int \<Rightarrow> sched \<Rightarrow> (bool \<times> semaphore \<times> sched) option" where
  "semaphore_signal_limit sem limit s =
     (if sem_i sem \<ge> limit then Some (False, sem, s)
      else
        let sem = sem\<lparr>sem_i := sem_i sem + 1\<rparr>
        in map_option (Pair True) (if sem_i sem \<le> 0 then wake_one sem s else Some (sem, s)))"

definition semaphore_reset :: "semaphore \<Rightarrow> semaphore option" where
  "semaphore_reset sem = (if sem_head sem \<noteq> None then None else Some (sem\<lparr>sem_i := 0\<rparr>))"

definition semaphore_haswaiters :: "semaphore \<Rightarrow> bool" where
  "semaphore_haswaiters sem \<longleftrightarrow> sem_head sem \<noteq> None"

definition semaphore_test :: "semaphore \<Rightarrow> bool \<times> semaphore" where
  "semaphore_test sem =
     (if sem_i sem > 0 then (True, sem\<lparr>sem_i := sem_i sem - 1\<rparr>) else (False, sem))"

text \<open>
  \<open>semaphore_timedwait\<close>: \<open>test k\<close> is the outcome of the \<open>k\<close>-th test; between two tests the thread
  sleeps ten microseconds, or what is left of the timeout.
\<close>

function semaphore_timedwait :: "(nat \<Rightarrow> bool) \<Rightarrow> nat \<Rightarrow> nat \<Rightarrow> bool" where
  "semaphore_timedwait test k timeoutusec =
     (if test k then True
      else
        let sleepus = min timeoutusec 10; timeoutusec = timeoutusec - sleepus
        in if timeoutusec \<noteq> 0 then semaphore_timedwait test (Suc k) timeoutusec else False)"
  by auto
termination
  by (relation "measure (\<lambda>(test, k, timeoutusec). timeoutusec)") auto


subsection \<open>The list of waiters\<close>

interpretation sleepq: dll_heap sleepnext sleepprev set_sleepnext set_sleepprev
  by unfold_locales (auto simp: sleepnext_def sleepprev_def set_sleepnext_def set_sleepprev_def fun_eq_iff)

definition slinks :: "semaphore \<Rightarrow> sched \<Rightarrow> tid list \<Rightarrow> bool" where
  "slinks sem s W \<longleftrightarrow> dllist (sleepnext s) (sleepprev s) (sem_head sem) (sem_tail sem) W"

text \<open>What the list operations leave alone: everything but the two sleep links.\<close>

definition sleepless :: "sched \<Rightarrow> sched" where
  "sleepless s = s\<lparr>threads := (\<lambda>t. (threads s t)\<lparr>t_sleepnext := None, t_sleepprev := None\<rparr>)\<rparr>"

lemma sleepless_set [simp]:
  "sleepless (set_sleepnext t v s) = sleepless s" "sleepless (set_sleepprev t v s) = sleepless s"
  by (auto simp: sleepless_def set_sleepnext_def set_sleepprev_def upd_thread_def fun_eq_iff)

lemma sleepless_fields:
  assumes "sleepless s' = sleepless s"
  shows "t_flags (core s' t) = t_flags (core s t)" "t_priority (core s' t) = t_priority (core s t)"
    "t_cputarget (core s' t) = t_cputarget (core s t)" "t_sleeplock (core s' t) = t_sleeplock (core s t)"
    "t_wakeupreason (threads s' t) = t_wakeupreason (threads s t)"
    "nextp s' = nextp s" "prevp s' = prevp s" "cpus s' = cpus s" "runqueue s' = runqueue s"
    "runqueuebitmap s' = runqueuebitmap s"
proof -
  have eq: "(threads s' t)\<lparr>t_sleepnext := None, t_sleepprev := None\<rparr> = (threads s t)\<lparr>t_sleepnext := None, t_sleepprev := None\<rparr>" for t
    using assms by (auto simp: sleepless_def dest!: arg_cong [of _ _ threads] fun_cong [of _ _ t])
  show "t_flags (core s' t) = t_flags (core s t)" "t_priority (core s' t) = t_priority (core s t)"
    "t_cputarget (core s' t) = t_cputarget (core s t)" "t_sleeplock (core s' t) = t_sleeplock (core s t)"
    "t_wakeupreason (threads s' t) = t_wakeupreason (threads s t)"
    using eq [of t] by (auto simp: core_def dest: arg_cong [of _ _ t_flags] arg_cong [of _ _ t_priority]
        arg_cong [of _ _ t_cputarget] arg_cong [of _ _ t_sleeplock] arg_cong [of _ _ t_wakeupreason])
  show "nextp s' = nextp s" "prevp s' = prevp s"
    using arg_cong [OF eq, of t_next] arg_cong [OF eq, of t_prev] by (simp_all add: nextp_def prevp_def fun_eq_iff)
  show "cpus s' = cpus s" "runqueue s' = runqueue s" "runqueuebitmap s' = runqueuebitmap s"
    using assms by (auto simp: sleepless_def dest: arg_cong [of _ _ cpus] arg_cong [of _ _ runqueue] arg_cong [of _ _ runqueuebitmap])
qed

lemma sleepless_inv:
  assumes "sleepless s' = sleepless s" and "sched_inv s"
  shows "sched_inv s'"
proof -
  note f = sleepless_fields [OF assms(1)]
  have cur: "current_thread s' = current_thread s" by (rule current_thread_cong) (rule f(8))
  from assms(2) obtain Q where "rq_ok s Q" "excl_but {} s" "idle_ok s" by (auto simp: sched_inv_def)
  then have "rq_ok s' Q" "excl_but {} s'" "idle_ok s'"
    by (simp_all add: rq_ok_def qlinks_def excl_but_def idle_ok_def f cur)
  then show ?thesis by (auto simp: sched_inv_def)
qed

lemma sem_insert_ok:
  assumes "slinks sem s W" and "t \<notin> set W" and "sem_insert sem t s = (sem', s')"
  shows "slinks sem' s' (t # W)" and "sem_i sem' = sem_i sem" and "sleepless s' = sleepless s"
    and "u \<notin> set (t # W) \<Longrightarrow> sleepnext s' u = sleepnext s u \<and> sleepprev s' u = sleepprev s u"
proof -
  note l = assms(1) [unfolded slinks_def]
  have ht: "sem_head sem = None \<longleftrightarrow> sem_tail sem = None"
    using dllist_head [OF l] dllist_tail [OF l] by auto
  have hd: "sem_head sem = Some q \<Longrightarrow> q \<in> set W" for q
    using dllist_head [OF l] by (auto split: if_splits)
  let ?h1 = "set_sleepprev t None (set_sleepnext t (sem_head sem) s)"
  have s': "s' = (case sem_head sem of None \<Rightarrow> ?h1 | Some q \<Rightarrow> set_sleepprev q (Some t) ?h1)"
    and sem': "sem' = sem\<lparr>sem_head := Some t, sem_tail := (if sem_head sem = None then Some t else sem_tail sem)\<rparr>"
    using assms(3) ht by (auto simp: sem_insert_def Let_def sleepq.links split: if_splits option.splits)
  show "slinks sem' s' (t # W)"
    using sleepq.push_head [OF l assms(2) refl s'] by (simp add: slinks_def sem')
  show "sem_i sem' = sem_i sem" by (simp add: sem')
  show "sleepless s' = sleepless s" by (simp add: s' split: option.split)
  show "sleepnext s' u = sleepnext s u \<and> sleepprev s' u = sleepprev s u" if "u \<notin> set (t # W)"
    using that hd by (auto simp: s' sleepq.links split: option.splits)
qed

lemma sem_get_ok:
  assumes "slinks sem s (W @ [t])"
  obtains sem' s' where "sem_get sem s = (Some t, sem', s')" and "slinks sem' s' W" and "sem_i sem' = sem_i sem"
    and "sleepless s' = sleepless s" and "sleepnext s' t = None" and "sleepprev s' t = None"
    and "\<And>u. u \<notin> set (W @ [t]) \<Longrightarrow> sleepnext s' u = sleepnext s u \<and> sleepprev s' u = sleepprev s u"
proof -
  note l = assms [unfolded slinks_def]
  have tl: "sem_tail sem = Some t" using dllist_tail [OF l] by simp
  have nx: "sleepnext s t = None" using dllist_next_of [of _ _ _ _ W t "[]"] l by simp
  have pv: "sleepprev s t = (if W = [] then None else Some (last W))"
    using dllist_prev_of [of _ _ _ _ W t "[]"] l by simp
  have tW: "t \<notin> set W" using dllist_distinct [OF l] by simp
  define h1 where "h1 = (case sleepprev s t of None \<Rightarrow> s | Some q \<Rightarrow> set_sleepnext q (sleepnext s t) s)"
  define sem' where "sem' = sem\<lparr>sem_tail := sleepprev s t, sem_head := (if sleepprev s t = None then None else sem_head sem)\<rparr>"
  define s' where "s' = set_sleepnext t None (set_sleepprev t None h1)"
  have get: "sem_get sem s = (Some t, sem', s')"
    by (simp add: sem_get_def tl Let_def sem'_def s'_def h1_def nx split: option.split)
  have hd: "(if sleepprev s t = None then sleepnext s t else sem_head sem) = sem_head sem'"
    by (simp add: sem'_def nx)
  have "dllist (sleepnext h1) (sleepprev h1) (if sleepprev s t = None then sleepnext s t else sem_head sem)
      (sleepprev s t) W"
    using sleepq.unlink [of s "sem_head sem" "sem_tail sem" W t "[]", OF _ h1_def refl] l nx by simp
  then have "dllist (sleepnext h1) (sleepprev h1) (sem_head sem') (sem_tail sem') W"
    unfolding hd by (simp add: sem'_def)
  then have "slinks sem' s' W"
    using tW by (simp add: slinks_def s'_def sleepq.frame_nxt sleepq.frame_prv)
  moreover have "sleepnext s' u = sleepnext s u \<and> sleepprev s' u = sleepprev s u" if "u \<notin> set (W @ [t])" for u
  proof -
    have "W \<noteq> [] \<Longrightarrow> u \<noteq> last W" using that by auto
    with that pv show ?thesis by (auto simp: s'_def h1_def sleepq.links split: option.splits)
  qed
  moreover have "sleepless s' = sleepless s" by (simp add: s'_def h1_def split: option.split)
  ultimately show ?thesis using get that [of sem' s'] by (simp add: s'_def sleepq.links sem'_def)
qed

lemma removeself_in:
  assumes "slinks sem s (ps @ t # qs)"
  obtains sem' s' where "removeself sem t s = Some (True, sem', s')" and "slinks sem' s' (ps @ qs)"
    and "sem_i sem' = sem_i sem" and "sleepless s' = sleepless s"
    and "\<And>u. u \<notin> set (ps @ t # qs) \<Longrightarrow> sleepnext s' u = sleepnext s u \<and> sleepprev s' u = sleepprev s u"
proof -
  note l = assms [unfolded slinks_def]
  have nx: "sleepnext s t = (if qs = [] then None else Some (hd qs))" and pv: "sleepprev s t = (if ps = [] then None else Some (last ps))"
    using dllist_next_of [OF l] dllist_prev_of [OF l] by auto
  have ht: "sem_head sem = Some (hd (ps @ t # qs))" "sem_tail sem = Some (last (ps @ t # qs))"
    using dllist_head [OF l] dllist_tail [OF l] by auto
  have d: "t \<notin> set ps" "t \<notin> set qs" using dllist_distinct [OF l] by auto
  have hd: "sem_head sem = Some t \<longleftrightarrow> ps = []" using d by (cases ps) (auto simp: ht)
  have tl: "sem_tail sem = Some t \<longleftrightarrow> qs = []" using d by (auto simp: ht last_append dest: last_in_set)
  define h1 where "h1 = (case sleepprev s t of None \<Rightarrow> s | Some q \<Rightarrow> set_sleepnext q (sleepnext s t) s)"
  define h2 where "h2 = (case sleepnext s t of None \<Rightarrow> h1 | Some q \<Rightarrow> set_sleepprev q (sleepprev s t) h1)"
  define sem' where "sem' = sem\<lparr>sem_head := (if sleepprev s t = None then sleepnext s t else sem_head sem),
      sem_tail := (if sleepnext s t = None then sleepprev s t else sem_tail sem)\<rparr>"
  define s' where "s' = set_sleepnext t None (set_sleepprev t None h2)"
  have hn: "\<exists>q. sem_head sem = Some q" using ht by simp
  have ne: "ps \<noteq> [] \<Longrightarrow> last ps \<noteq> t" "qs \<noteq> [] \<Longrightarrow> hd qs \<noteq> t" using d by auto
  have rem: "removeself sem t s = Some (True, sem', s')"
    using ne hn by (cases "ps = []"; cases "qs = []")
      (simp_all add: removeself_def hd tl nx pv sem'_def s'_def h2_def h1_def sleepq.links)
  have "dllist (sleepnext h2) (sleepprev h2) (sem_head sem') (sem_tail sem') (ps @ qs)"
    using sleepq.unlink [OF l h1_def h2_def] by (simp add: sem'_def)
  then have "slinks sem' s' (ps @ qs)"
    using d by (simp add: slinks_def s'_def sleepq.frame_nxt sleepq.frame_prv)
  moreover have "sleepnext s' u = sleepnext s u \<and> sleepprev s' u = sleepprev s u" if "u \<notin> set (ps @ t # qs)" for u
  proof -
    have "ps \<noteq> [] \<Longrightarrow> u \<noteq> last ps" "qs \<noteq> [] \<Longrightarrow> u \<noteq> hd qs" using that by auto
    with that nx pv show ?thesis by (auto simp: s'_def h2_def h1_def sleepq.links split: option.splits)
  qed
  moreover have "sleepless s' = sleepless s" by (simp add: s'_def h2_def h1_def split: option.split)
  ultimately show ?thesis using rem that [of sem' s'] by (simp add: sem'_def)
qed

lemma removeself_out:
  assumes "slinks sem s W" and "t \<notin> set W" and "sleepnext s t = None" and "sleepprev s t = None"
  shows "removeself sem t s = Some (False, sem, s)"
proof -
  have "sem_head sem \<noteq> Some t"
    using dllist_head [OF assms(1) [unfolded slinks_def]] assms(2) by (auto split: if_splits)
  with assms show ?thesis by (simp add: removeself_def)
qed


subsection \<open>What the scheduler does to a sleeper\<close>

text \<open>The part of a thread the semaphore depends on: its links, whether it sleeps, and why it was woken.\<close>

definition sview :: "sched \<Rightarrow> tid \<Rightarrow> tid option \<times> tid option \<times> bool \<times> int" where
  "sview s t = (sleepnext s t, sleepprev s t, THREAD_FLAGS_SLEEP \<in> flags s t, t_wakeupreason (threads s t))"

lemmas sview_defs = sview_def sleepnext_def sleepprev_def flags_def

lemma sview_simps [simp]:
  "sview (set_next t v s) = sview s" "sview (set_prev t v s) = sview s" "sview (upd_queue i f s) = sview s"
  "sview (s\<lparr>runqueuebitmap := b\<rparr>) = sview s" "sview (set_current cpu w s) = sview s"
  "THREAD_FLAGS_SLEEP \<notin> F \<Longrightarrow> sview (flags_on t F s) = sview s"
  "THREAD_FLAGS_SLEEP \<notin> F \<Longrightarrow> sview (flags_off t F s) = sview s"
  "sview (upd_thread t (\<lambda>th. th\<lparr>t_sleeplock := l\<rparr>) s) = sview s"
  by (auto simp: fun_eq_iff sview_defs set_next_def set_prev_def flags_on_def flags_off_def set_current_def)

lemma sview_getinrunqueue: "getinrunqueue cpu i s = Some (r, s') \<Longrightarrow> sview s' = sview s"
  by (auto simp: getinrunqueue_def Let_def split: option.splits)

lemma sview_runqueue_loop: "runqueue_loop cpu mp is s = Some (r, s') \<Longrightarrow> sview s' = sview s"
proof (induction cpu mp "is" s rule: runqueue_loop.induct)
  case (2 cpu mp i "is" s)
  then show ?case
    by (cases "getinrunqueue cpu i s") (auto split: option.splits if_splits dest!: sview_getinrunqueue)
qed simp

lemma sview_runqueuenext: "runqueuenext cpu mp s = Some (r, s') \<Longrightarrow> sview s' = sview s"
  by (auto simp: runqueuenext_def split: option.splits if_splits dest!: sview_runqueue_loop)

lemma sview_runqueueinsert: "runqueueinsert t s = Some s' \<Longrightarrow> sview s' = sview s"
  by (auto simp: runqueueinsert_def Let_def split: option.splits if_splits)

lemma sview_switch: "switch_thread cpu c n s = Some s' \<Longrightarrow> sview s' = sview s"
  by (auto simp: switch_thread_def Let_def split: option.splits if_splits)

text \<open>
  The environment of a semaphore: other threads yield, are preempted, created or interrupted. Only a
  signal wakes a waiter for any other reason.
\<close>

inductive sched_env :: "sched \<Rightarrow> sched \<Rightarrow> bool" where
  env_yield: "current_thread s cpu = Some c \<Longrightarrow> yield cpu s = Some s' \<Longrightarrow> sched_env s s'"
| env_preempt: "current_thread s cpu = Some c \<Longrightarrow> THREAD_FLAGS_SLEEP \<notin> flags s c \<Longrightarrow>
    dopreempt cpu s = Some s' \<Longrightarrow> sched_env s s'"
| env_interrupt: "\<not> t_sleeplock (threads s t) \<Longrightarrow>
    sched_wakeup t SCHED_WAKEUP_REASON_INTERRUPTED s = Some (b, s') \<Longrightarrow> sched_env s s'"
| env_new: "flags s t = {} \<Longrightarrow> sched_queue t s = Some s' \<Longrightarrow> sched_env s s'"

lemma sched_env_step: "sched_env s s' \<Longrightarrow> sched_step s s'"
  by (erule sched_env.cases) (auto intro: sched_step.intros)

text \<open>A sleeper keeps its links; if it is woken, then by an interruption.\<close>

definition disturbs :: "sched \<Rightarrow> sched \<Rightarrow> bool" where
  "disturbs s s' \<longleftrightarrow> (\<forall>t. sview s' t = sview s t
     \<or> sview s' t = (sleepnext s t, sleepprev s t, False, SCHED_WAKEUP_REASON_INTERRUPTED))"

lemma disturbs_same: "sview s' = sview s \<Longrightarrow> disturbs s s'"
  by (simp add: disturbs_def)

lemma sview_wake:
  "sview (upd_thread t (\<lambda>th. th\<lparr>t_wakeupreason := x, t_sleeplock := l\<rparr>) (flags_off t {THREAD_FLAGS_SLEEP, THREAD_FLAGS_INTERRUPTIBLE} s)) =
     (sview s)(t := (sleepnext s t, sleepprev s t, False, x))"
  "sview (upd_thread t (\<lambda>th. th\<lparr>t_wakeupreason := x\<rparr>) (flags_off t {THREAD_FLAGS_SLEEP, THREAD_FLAGS_INTERRUPTIBLE} s)) =
     (sview s)(t := (sleepnext s t, sleepprev s t, False, x))"
  by (auto simp: fun_eq_iff sview_defs flags_off_def)

lemma sview_links: "sview s' = sview s \<Longrightarrow> sleepnext s' t = sleepnext s t \<and> sleepprev s' t = sleepprev s t"
  by (auto simp: sview_def fun_eq_iff)

lemma yield_select_disturbs:
  assumes "yield_select cpu s = Some (r, s')"
  shows "disturbs s s'"
proof -
  from assms obtain c where c: "current_thread s cpu = Some c" by (auto simp: yield_select_def split: option.splits)
  obtain n s1 mp where n: "runqueuenext cpu mp s = Some (n, s1)"
    and mp: "mp = (if THREAD_FLAGS_SLEEP \<in> flags s c then ANY_PRIO else t_priority (threads s c))"
    using assms c by (auto simp: yield_select_def Let_def split: option.splits)
  note v1 = sview_runqueuenext [OF n]
  note body = assms [unfolded yield_select_def c option.case Let_def mp [symmetric] n prod.case]
  show ?thesis
  proof (cases "THREAD_FLAGS_SLEEP \<in> flags s c \<and> (t_shouldexit (threads s1 c) \<or> gotsignal s1 c)
      \<and> THREAD_FLAGS_INTERRUPTIBLE \<in> flags s1 c")
    case True
    with body obtain s2 where s2: "(case n of Some n \<Rightarrow> runqueueinsert n s1 | None \<Rightarrow> Some s1) = Some s2"
      "s' = upd_thread c (\<lambda>th. th\<lparr>t_wakeupreason := SCHED_WAKEUP_REASON_INTERRUPTED, t_sleeplock := False\<rparr>)
        (flags_off c {THREAD_FLAGS_SLEEP, THREAD_FLAGS_INTERRUPTIBLE} s2)" by auto
    then have "sview s2 = sview s" using v1 by (auto split: option.splits dest!: sview_runqueueinsert)
    then show ?thesis using sview_links [of s2 s] by (simp add: disturbs_def s2(2) sview_wake)
  next
    case False
    with body v1 have "sview s' = sview s"
      by (auto split: if_splits dest!: sview_runqueueinsert)
    then show ?thesis by (rule disturbs_same)
  qed
qed

lemma sched_env_disturbs:
  assumes "sched_env s s'"
  shows "disturbs s s'"
  using assms
proof cases
  case (env_yield cpu c)
  from env_yield(2) obtain r s1 where "yield_select cpu s = Some (r, s1)" "sview s' = sview s1"
    by (auto simp: yield_def split: option.splits dest!: sview_switch)
  with yield_select_disturbs show ?thesis by (auto simp: disturbs_def)
next
  case (env_preempt cpu c)
  then have "sview s' = sview s"
    by (auto simp: dopreempt_def preempt_select_def Let_def split: option.splits
        dest!: sview_switch sview_runqueueinsert sview_runqueuenext)
  then show ?thesis by (rule disturbs_same)
next
  case (env_interrupt t b)
  then show ?thesis
    by (auto simp: sched_wakeup_def sched_queue_def disturbs_def sview_wake split: if_splits dest!: sview_runqueueinsert)
next
  case (env_new t)
  then show ?thesis
    by (auto simp: sched_queue_def split: if_splits dest!: sview_runqueueinsert intro: disturbs_same)
qed


subsection \<open>A semaphore in use\<close>

text \<open>Where a thread stands with respect to the semaphore.\<close>

datatype phase = Out | Waiting | Holding

record semsys =
  y_sem :: semaphore
  y_sched :: sched
  y_phase :: "tid \<Rightarrow> phase"

inductive sem_step :: "semsys \<Rightarrow> semsys \<Rightarrow> bool" where
  step_enter: "current_thread s cpu = Some t \<Longrightarrow> ph t = Out \<Longrightarrow> THREAD_FLAGS_SLEEP \<notin> flags s t \<Longrightarrow>
    (\<forall>c. c_idlethread (cpus s c) \<noteq> t) \<Longrightarrow> wait_enter cpu intr sem s = Some (slept, sem', s') \<Longrightarrow>
    sem_step \<lparr>y_sem = sem, y_sched = s, y_phase = ph\<rparr>
      \<lparr>y_sem = sem', y_sched = s', y_phase = ph(t := if slept then Waiting else Holding)\<rparr>"
| step_leave: "current_thread s cpu = Some t \<Longrightarrow> ph t = Waiting \<Longrightarrow> THREAD_FLAGS_SLEEP \<notin> flags s t \<Longrightarrow>
    wait_leave t (sched_yield_result s t True) sem s = Some (ret, sem', s') \<Longrightarrow>
    sem_step \<lparr>y_sem = sem, y_sched = s, y_phase = ph\<rparr>
      \<lparr>y_sem = sem', y_sched = s', y_phase = ph(t := if ret = 0 then Holding else Out)\<rparr>"
| step_signal: "ph t = Holding \<Longrightarrow> (\<forall>u. sem_tail sem = Some u \<longrightarrow> \<not> t_sleeplock (threads s u)) \<Longrightarrow>
    semaphore_signal sem s = Some (sem', s') \<Longrightarrow>
    sem_step \<lparr>y_sem = sem, y_sched = s, y_phase = ph\<rparr>
      \<lparr>y_sem = sem', y_sched = s', y_phase = ph(t := Out)\<rparr>"
| step_try: "ph t = Out \<Longrightarrow> semaphore_test sem = (ok, sem') \<Longrightarrow>
    sem_step \<lparr>y_sem = sem, y_sched = s, y_phase = ph\<rparr>
      \<lparr>y_sem = sem', y_sched = s, y_phase = ph(t := if ok then Holding else Out)\<rparr>"
| step_env: "sched_env s s' \<Longrightarrow>
    sem_step \<lparr>y_sem = sem, y_sched = s, y_phase = ph\<rparr> \<lparr>y_sem = sem, y_sched = s', y_phase = ph\<rparr>"

text \<open>The threads that have the semaphore: holders, and waiters a signal has taken off the list.\<close>

definition granted :: "(tid \<Rightarrow> phase) \<Rightarrow> tid list \<Rightarrow> tid set" where
  "granted ph W = {t. ph t = Holding \<or> ph t = Waiting \<and> t \<notin> set W}"

definition waiters_ok :: "int \<Rightarrow> semaphore \<Rightarrow> sched \<Rightarrow> (tid \<Rightarrow> phase) \<Rightarrow> tid list \<Rightarrow> bool" where
  "waiters_ok v sem s ph W \<longleftrightarrow>
     slinks sem s W \<and> int (length W) = max 0 (- sem_i sem)
   \<and> (\<forall>t\<in>set W. ph t = Waiting \<and> (THREAD_FLAGS_SLEEP \<in> flags s t \<or> t_wakeupreason (threads s t) \<noteq> 0))
   \<and> (\<forall>t. ph t = Waiting \<and> t \<notin> set W \<longrightarrow>
        THREAD_FLAGS_SLEEP \<notin> flags s t \<and> sleepnext s t = None \<and> sleepprev s t = None)
   \<and> finite (granted ph W) \<and> int (card (granted ph W)) + max 0 (sem_i sem) = v"

definition sem_inv :: "int \<Rightarrow> semsys \<Rightarrow> bool" where
  "sem_inv v y \<longleftrightarrow> sched_inv (y_sched y) \<and> (\<exists>W. waiters_ok v (y_sem y) (y_sched y) (y_phase y) W)"

lemma sem_inv_init:
  assumes "0 \<le> v" and "sched_inv s"
  shows "sem_inv v \<lparr>y_sem = SEMAPHORE_INIT v, y_sched = s, y_phase = \<lambda>_. Out\<rparr>"
  using assms by (auto simp: sem_inv_def waiters_ok_def slinks_def SEMAPHORE_INIT_def granted_def intro!: exI [of _ "[]"])

lemma sview_eq:
  "sview s' t = sview s t \<longleftrightarrow> sleepnext s' t = sleepnext s t \<and> sleepprev s' t = sleepprev s t
     \<and> (THREAD_FLAGS_SLEEP \<in> flags s' t) = (THREAD_FLAGS_SLEEP \<in> flags s t)
     \<and> t_wakeupreason (threads s' t) = t_wakeupreason (threads s t)"
  by (auto simp: sview_def)

lemma slinks_frame:
  assumes "slinks sem s W" and "\<And>t. t \<in> set W \<Longrightarrow> sleepnext s' t = sleepnext s t \<and> sleepprev s' t = sleepprev s t"
  shows "slinks sem s' W"
  using assms by (simp add: slinks_def dllist_frame [of W "sleepnext s'" "sleepnext s" "sleepprev s'" "sleepprev s"])

lemma enter_inv:
  assumes inv: "sched_inv s" "waiters_ok v sem s ph W"
    and t: "current_thread s cpu = Some t" "ph t = Out" "\<forall>c. c_idlethread (cpus s c) \<noteq> t"
    and e: "wait_enter cpu intr sem s = Some (slept, sem', s')"
  shows "sched_inv s' \<and> (\<exists>W'. waiters_ok v sem' s' (ph(t := if slept then Waiting else Holding)) W')"
proof -
  have W: "slinks sem s W" "int (length W) = max 0 (- sem_i sem)" "t \<notin> set W" "t \<notin> granted ph W"
    using inv(2) t(2) by (auto simp: waiters_ok_def granted_def)
  show ?thesis
  proof (cases "sem_i sem - 1 < 0")
    case False
    then have "sem' = sem\<lparr>sem_i := sem_i sem - 1\<rparr>" "s' = s" "\<not> slept" "W = []"
      using e t(1) W(2) by (auto simp: wait_enter_def Let_def)
    moreover have "granted (ph(t := Holding)) [] = insert t (granted ph [])" by (auto simp: granted_def)
    ultimately show ?thesis
      using inv False W(4) by (intro conjI exI [of _ "[]"]) (auto simp: waiters_ok_def slinks_def)
  next
    case True
    let ?sem = "sem\<lparr>sem_i := sem_i sem - 1\<rparr>"
    obtain sem1 s1 where ins: "sem_insert ?sem t s = (sem1, s1)" by fastforce
    have "slinks ?sem s W" using W(1) by (simp add: slinks_def)
    note i = sem_insert_ok [OF this W(3) ins]
    have inv1: "sched_inv s1" by (rule sleepless_inv [OF i(3) inv(1)])
    have cur1: "current_thread s1 = current_thread s" by (rule current_thread_cong) (rule sleepless_fields(8) [OF i(3)])
    have cpus1: "cpus s1 = cpus s" by (rule sleepless_fields(8) [OF i(3)])
    from e True t(1) ins have p: "sched_prepare_sleep cpu intr s1 = Some s'" and r: "slept" "sem' = sem1"
      by (auto simp: wait_enter_def Let_def)
    from prepare_sleep_inv [OF inv1, of cpu t intr] p t cur1 cpus1 have inv': "sched_inv s'" by auto
    have fl1: "(THREAD_FLAGS_SLEEP \<in> flags s1 u) = (THREAD_FLAGS_SLEEP \<in> flags s u)"
      "t_wakeupreason (threads s1 u) = t_wakeupreason (threads s u)" for u
      using sleepless_fields(1,5) [OF i(3), of u] by (simp_all add: core_fields(1))
    have v': "sleepnext s' = sleepnext s1" "sleepprev s' = sleepprev s1"
      "u \<noteq> t \<Longrightarrow> flags s' u = flags s1 u" "t_wakeupreason (threads s' u) = t_wakeupreason (threads s1 u)"
      "THREAD_FLAGS_SLEEP \<in> flags s' t" for u
      using p t(1) cur1
      by (auto simp: sched_prepare_sleep_def sview_defs flags_on_def fun_eq_iff)
    have gr: "granted (ph(t := Waiting)) (t # W) = granted ph W" using t(2) by (auto simp: granted_def)
    have "waiters_ok v sem1 s' (ph(t := Waiting)) (t # W)"
      using inv(2) i v' fl1 gr True by (auto simp: waiters_ok_def slinks_def)
    with inv' r show ?thesis by auto
  qed
qed


lemma leave_inv:
  assumes inv: "sched_inv s" "waiters_ok v sem s ph W"
    and t: "ph t = Waiting" "THREAD_FLAGS_SLEEP \<notin> flags s t"
    and e: "wait_leave t (sched_yield_result s t True) sem s = Some (ret, sem', s')"
  shows "sched_inv s' \<and> (\<exists>W'. waiters_ok v sem' s' (ph(t := if ret = 0 then Holding else Out)) W')"
proof (cases "t \<in> set W")
  case False
  with inv(2) t(1) have l: "sleepnext s t = None" "sleepprev s t = None" "slinks sem s W"
    by (auto simp: waiters_ok_def)
  with e removeself_out [OF l(3) False l(1,2)] have r: "ret = 0" "sem' = sem" "s' = s"
    by (auto simp: wait_leave_def split: if_splits)
  have "granted (ph(t := Holding)) W = granted ph W" using False t(1) by (auto simp: granted_def)
  with inv False r show ?thesis by (auto simp: waiters_ok_def)
next
  case True
  then obtain ps qs where W: "W = ps @ t # qs" by (meson split_list)
  have ret: "sched_yield_result s t True \<noteq> 0" using True inv(2) t(2) by (auto simp: waiters_ok_def sched_yield_result_def)
  have d: "t \<notin> set ps" "t \<notin> set qs"
    using inv(2) W by (auto simp: waiters_ok_def slinks_def dest: dllist_distinct)
  from inv(2) have "slinks sem s (ps @ t # qs)" by (simp add: waiters_ok_def W)
  then obtain sem1 s1 where rem: "removeself sem t s = Some (True, sem1, s1)" "slinks sem1 s1 (ps @ qs)"
    "sem_i sem1 = sem_i sem" "sleepless s1 = sleepless s"
    "\<And>u. u \<notin> set (ps @ t # qs) \<Longrightarrow> sleepnext s1 u = sleepnext s u \<and> sleepprev s1 u = sleepprev s u"
    using removeself_in by blast
  from e rem(1) ret have r: "ret \<noteq> 0" "sem' = sem1\<lparr>sem_i := sem_i sem + 1\<rparr>" "s' = s1"
    by (auto simp: wait_leave_def rem(3))
  have fl: "(THREAD_FLAGS_SLEEP \<in> flags s1 u) = (THREAD_FLAGS_SLEEP \<in> flags s u)"
    "t_wakeupreason (threads s1 u) = t_wakeupreason (threads s u)" for u
    using sleepless_fields(1,5) [OF rem(4), of u] by (simp_all add: core_fields(1))
  have gr: "granted (ph(t := Out)) (ps @ qs) = granted ph W"
    using d t(1) by (auto simp: granted_def W)
  have i: "sem_i sem < 0" "int (length (ps @ qs)) = - sem_i sem - 1"
    using inv(2) by (auto simp: waiters_ok_def W)
  have "waiters_ok v sem' s' (ph(t := Out)) (ps @ qs)"
    using inv(2) rem(2,5) fl gr i d r unfolding waiters_ok_def slinks_def W by auto
  moreover have "sched_inv s'" using sleepless_inv [OF rem(4) inv(1)] r by simp
  ultimately show ?thesis using r(1) by auto
qed

text \<open>A signal with waiters: the longest waiter is off the list and awake.\<close>

lemma wake_one_ok:
  assumes inv: "sched_inv s" and l: "slinks sem s (W @ [u])" and lock: "\<not> t_sleeplock (threads s u)"
  obtains sem' s' where "wake_one sem s = Some (sem', s')" and "slinks sem' s' W" and "sem_i sem' = sem_i sem"
    and "sched_inv s'" and "THREAD_FLAGS_SLEEP \<notin> flags s' u" and "sleepnext s' u = None" and "sleepprev s' u = None"
    and "\<And>t. t \<noteq> u \<Longrightarrow> (THREAD_FLAGS_SLEEP \<in> flags s' t) = (THREAD_FLAGS_SLEEP \<in> flags s t)
      \<and> t_wakeupreason (threads s' t) = t_wakeupreason (threads s t)"
    and "\<And>t. t \<notin> set (W @ [u]) \<Longrightarrow> sleepnext s' t = sleepnext s t \<and> sleepprev s' t = sleepprev s t"
proof -
  obtain sem1 s1 where g: "sem_get sem s = (Some u, sem1, s1)" "slinks sem1 s1 W" "sem_i sem1 = sem_i sem"
    "sleepless s1 = sleepless s" "sleepnext s1 u = None" "sleepprev s1 u = None"
    "\<And>t. t \<notin> set (W @ [u]) \<Longrightarrow> sleepnext s1 t = sleepnext s t \<and> sleepprev s1 t = sleepprev s t"
    using sem_get_ok [OF l] by blast
  note f = sleepless_fields [OF g(4)]
  have fl: "(THREAD_FLAGS_SLEEP \<in> flags s1 t) = (THREAD_FLAGS_SLEEP \<in> flags s t)"
    "t_wakeupreason (threads s1 t) = t_wakeupreason (threads s t)" for t
    using f(1,5) [of t] by (simp_all add: core_fields(1))
  have lock1: "\<not> t_sleeplock (threads s1 u)" using lock f(4) [of u] by (simp add: core_fields(4))
  from sched_wakeup_inv [OF sleepless_inv [OF g(4) inv] lock1] obtain b s'
    where w: "sched_wakeup u 0 s1 = Some (b, s')" "sched_inv s'" by blast
  have view: "sview s' t = (if t = u \<and> THREAD_FLAGS_SLEEP \<in> flags s1 u then (None, None, False, 0) else sview s1 t)" for t
    using w(1) g(5,6)
    by (auto simp: sched_wakeup_def sched_queue_def sview_wake SCHED_WAKEUP_REASON_INTERRUPTED_def
        split: if_splits dest!: sview_runqueueinsert)
  have same: "sview s' t = sview s1 t" if "t \<noteq> u" for t using view [of t] that by simp
  have sw: "sleepnext s' t = sleepnext s1 t \<and> sleepprev s' t = sleepprev s1 t" for t
    using view [of t] g(5,6) by (auto simp: sview_def split: if_splits)
  have "THREAD_FLAGS_SLEEP \<notin> flags s' u" using view [of u] by (auto simp: sview_def split: if_splits)
  moreover have "slinks sem1 s' W" using slinks_frame [OF g(2)] sw by blast
  moreover have "wake_one sem s = Some (sem1, s')" using g(1) w(1) by (simp add: wake_one_def)
  ultimately show ?thesis using w(2) g(3,5,6,7) sw same fl that [of sem1 s'] by (auto simp: sview_eq)
qed

lemma signal_inv:
  assumes inv: "sched_inv s" "waiters_ok v sem s ph W" and t: "ph t = Holding"
    and lock: "\<forall>u. sem_tail sem = Some u \<longrightarrow> \<not> t_sleeplock (threads s u)"
    and e: "semaphore_signal sem s = Some (sem', s')"
  shows "sched_inv s' \<and> (\<exists>W'. waiters_ok v sem' s' (ph(t := Out)) W')"
proof (cases "sem_i sem + 1 \<le> 0")
  case False
  then have "sem' = sem\<lparr>sem_i := sem_i sem + 1\<rparr>" "s' = s" "W = []"
    using e inv(2) by (auto simp: semaphore_signal_def Let_def waiters_ok_def)
  moreover have "granted (ph(t := Out)) [] = granted ph [] - {t}" "t \<in> granted ph []"
    using t by (auto simp: granted_def)
  moreover have "card (granted ph []) = Suc (card (granted ph [] - {t}))"
    using calculation inv(2) by (intro card.remove) (auto simp: waiters_ok_def)
  ultimately show ?thesis
    using inv False by (intro conjI exI [of _ "[]"]) (auto simp: waiters_ok_def slinks_def)
next
  case True
  then obtain W0 u where W: "W = W0 @ [u]" using inv(2) by (cases W rule: rev_cases) (auto simp: waiters_ok_def)
  let ?sem = "sem\<lparr>sem_i := sem_i sem + 1\<rparr>"
  have l: "slinks ?sem s (W0 @ [u])" using inv(2) W by (simp add: waiters_ok_def slinks_def)
  have "sem_tail sem = Some u" using dllist_tail l by (fastforce simp: slinks_def)
  with lock have "\<not> t_sleeplock (threads s u)" by blast
  then obtain sem2 s2 where w: "wake_one ?sem s = Some (sem2, s2)" and r: "slinks sem2 s2 W0"
    "sem_i sem2 = sem_i ?sem" "sched_inv s2" "THREAD_FLAGS_SLEEP \<notin> flags s2 u"
    "sleepnext s2 u = None" "sleepprev s2 u = None"
    and fl: "\<And>t. t \<noteq> u \<Longrightarrow> (THREAD_FLAGS_SLEEP \<in> flags s2 t) = (THREAD_FLAGS_SLEEP \<in> flags s t)
      \<and> t_wakeupreason (threads s2 t) = t_wakeupreason (threads s t)"
    and links: "\<And>t. t \<notin> set (W0 @ [u]) \<Longrightarrow> sleepnext s2 t = sleepnext s t \<and> sleepprev s2 t = sleepprev s t"
    using wake_one_ok [OF inv(1) l] by blast
  have eq: "sem' = sem2" "s' = s2" using e w True by (simp_all add: semaphore_signal_def)
  have u: "u \<notin> set W0" "ph u = Waiting" "u \<noteq> t"
    using inv(2) t W by (auto simp: waiters_ok_def slinks_def dest: dllist_distinct)
  have gr: "granted (ph(t := Out)) W0 = insert u (granted ph W - {t})" "t \<in> granted ph W" "u \<notin> granted ph W"
    using u t W by (auto simp: granted_def)
  have fin: "finite (granted ph W)" using inv(2) by (simp add: waiters_ok_def)
  then have "card (granted (ph(t := Out)) W0) = card (granted ph W)"
    using gr card.remove [OF fin gr(2)] by simp
  moreover have "finite (granted (ph(t := Out)) W0)" using fin gr(1) by simp
  moreover have "int (length W0) = max 0 (- sem_i sem2)" using inv(2) W r(2) True by (auto simp: waiters_ok_def)
  moreover have "(ph(t := Out)) x = Waiting \<and> (THREAD_FLAGS_SLEEP \<in> flags s2 x \<or> t_wakeupreason (threads s2 x) \<noteq> 0)"
    if "x \<in> set W0" for x
  proof -
    have "x \<noteq> u" using that u(1) by auto
    from fl [OF this] that inv(2) t show ?thesis by (auto simp: waiters_ok_def W)
  qed
  moreover have "THREAD_FLAGS_SLEEP \<notin> flags s2 x \<and> sleepnext s2 x = None \<and> sleepprev s2 x = None"
    if "(ph(t := Out)) x = Waiting \<and> x \<notin> set W0" for x
  proof (cases "x = u")
    case False
    with that have "ph x = Waiting" "x \<notin> set W" by (auto simp: W split: if_splits)
    with inv(2) links [of x] fl [OF False] show ?thesis by (auto simp: waiters_ok_def W)
  qed (use r in simp)
  ultimately have "waiters_ok v sem2 s2 (ph(t := Out)) W0"
    using r(1,2) True inv(2) by (simp add: waiters_ok_def)
  with r(3) eq show ?thesis by blast
qed


lemma try_inv:
  assumes inv: "waiters_ok v sem s ph W" and t: "ph t = Out" and e: "semaphore_test sem = (ok, sem')"
  shows "waiters_ok v sem' s (ph(t := if ok then Holding else Out)) W"
proof (cases "sem_i sem > 0")
  case True
  then have r: "ok" "sem' = sem\<lparr>sem_i := sem_i sem - 1\<rparr>" "W = []"
    using e inv by (auto simp: semaphore_test_def waiters_ok_def)
  have "granted (ph(t := Holding)) [] = insert t (granted ph [])" "t \<notin> granted ph []"
    using t by (auto simp: granted_def)
  with inv r True show ?thesis by (auto simp: waiters_ok_def slinks_def)
next
  case False
  then have "\<not> ok" "sem' = sem" using e by (simp_all add: semaphore_test_def)
  moreover have "ph(t := Out) = ph" using t by auto
  ultimately show ?thesis using inv by simp
qed

lemma env_inv:
  assumes inv: "sched_inv s" "waiters_ok v sem s ph W" and e: "sched_env s s'"
  shows "sched_inv s' \<and> waiters_ok v sem s' ph W"
proof -
  have cases: "sleepnext s' t = sleepnext s t \<and> sleepprev s' t = sleepprev s t \<and>
      ((THREAD_FLAGS_SLEEP \<in> flags s' t) = (THREAD_FLAGS_SLEEP \<in> flags s t)
         \<and> t_wakeupreason (threads s' t) = t_wakeupreason (threads s t)
       \<or> THREAD_FLAGS_SLEEP \<notin> flags s' t \<and> t_wakeupreason (threads s' t) = - 1)" for t
    using sched_env_disturbs [OF e, unfolded disturbs_def, rule_format, of t]
    by (auto simp: sview_def SCHED_WAKEUP_REASON_INTERRUPTED_def)
  have "slinks sem s' W" using inv(2) cases by (auto simp: waiters_ok_def intro: slinks_frame)
  moreover have "THREAD_FLAGS_SLEEP \<in> flags s' t \<or> t_wakeupreason (threads s' t) \<noteq> 0" if "t \<in> set W" for t
    using that inv(2) cases [of t] by (auto simp: waiters_ok_def)
  moreover have "THREAD_FLAGS_SLEEP \<notin> flags s' t \<and> sleepnext s' t = None \<and> sleepprev s' t = None"
    if "ph t = Waiting \<and> t \<notin> set W" for t
    using that inv(2) cases [of t] by (auto simp: waiters_ok_def)
  ultimately have "waiters_ok v sem s' ph W" using inv(2) by (simp add: waiters_ok_def)
  with sched_step_inv [OF sched_env_step [OF e] inv(1)] show ?thesis by simp
qed

lemma sem_step_inv:
  assumes "sem_step y y'" and "sem_inv v y"
  shows "sem_inv v y'"
  using assms
proof cases
  case (step_enter s cpu t ph intr sem slept sem' s')
  then obtain W where "sched_inv s" "waiters_ok v sem s ph W" using assms(2) by (auto simp: sem_inv_def)
  from enter_inv [OF this, of cpu t] step_enter show ?thesis by (simp add: sem_inv_def)
next
  case (step_leave s cpu t ph sem ret sem' s')
  then obtain W where "sched_inv s" "waiters_ok v sem s ph W" using assms(2) by (auto simp: sem_inv_def)
  from leave_inv [OF this, of t] step_leave show ?thesis by (simp add: sem_inv_def)
next
  case (step_signal ph t sem s sem' s')
  then obtain W where "sched_inv s" "waiters_ok v sem s ph W" using assms(2) by (auto simp: sem_inv_def)
  from signal_inv [OF this, of t] step_signal show ?thesis by (simp add: sem_inv_def)
next
  case (step_try ph t sem ok sem' s)
  then obtain W where W: "sched_inv s" "waiters_ok v sem s ph W" using assms(2) by (auto simp: sem_inv_def)
  from try_inv [OF W(2), of t] step_try W(1) show ?thesis by (auto simp: sem_inv_def)
next
  case (step_env s s' sem ph)
  then obtain W where "sched_inv s" "waiters_ok v sem s ph W" using assms(2) by (auto simp: sem_inv_def)
  from env_inv [OF this] step_env show ?thesis by (auto simp: sem_inv_def)
qed

lemma sem_steps_inv: "sem_step\<^sup>*\<^sup>* y y' \<Longrightarrow> sem_inv v y \<Longrightarrow> sem_inv v y'"
  by (induction rule: rtranclp_induct) (auto intro: sem_step_inv)

subsection \<open>A run with a sleeping waiter\<close>

definition ex_waiting :: sched where
  "ex_waiting = ex_sched\<lparr>threads := (threads ex_sched)(0 := ex_thread\<lparr>
     t_flags := {THREAD_FLAGS_RUNNING, THREAD_FLAGS_SLEEP}, t_sleeplock := True\<rparr>)\<rparr>"

lemma ex_wait_run:
  "wait_enter 0 False (SEMAPHORE_INIT 0) ex_sched
     = Some (True, \<lparr>sem_i = - 1, sem_tail = Some 0, sem_head = Some 0\<rparr>, ex_waiting)"
  by (auto simp: wait_enter_def SEMAPHORE_INIT_def ex_sched_def ex_waiting_def sem_insert_def sched_prepare_sleep_def
      current_thread_def set_sleepnext_def set_sleepprev_def ex_thread_def upd_thread_def flags_on_def sleepnext_def sleepprev_def Let_def insert_commute)

lemma ex_asleep_run:
  "\<exists>s. yield 0 ex_waiting = Some s \<and> \<not> t_sleeplock (threads s 0)"
proof -
  have "[0..<64] = 0 # [1..<64]" by (simp add: upt_conv_Cons)
  then show ?thesis
    by (simp add: yield_def yield_select_def runqueuenext_def RUNQUEUE_COUNT_def getinrunqueue_def walk.simps ex_waiting_def
      ex_sched_def ex_thread_def current_thread_def flags_def flags_on_def flags_off_def upd_thread_def upd_queue_def nextp_def prevp_def
      eligible_def switch_thread_def set_current_def or_idle_def Let_def)
qed

subsection \<open>Properties\<close>





text \<open>
  C32: in every state a semaphore reaches, if threads wait, a signal does not fail its assertion and
  takes the thread that has waited longest off the list, awake; the others keep their order.
\<close>

theorem signal_hands_over_in_order:
  assumes "sem_step\<^sup>*\<^sup>* \<lparr>y_sem = SEMAPHORE_INIT v, y_sched = s, y_phase = \<lambda>_. Out\<rparr> y"
    and "0 \<le> v" and "sched_inv s" and "slinks (y_sem y) (y_sched y) (W @ [u])"
    and "\<not> t_sleeplock (threads (y_sched y) u)"
  shows "\<exists>sem' s'. semaphore_signal (y_sem y) (y_sched y) = Some (sem', s') \<and> slinks sem' s' W
    \<and> sem_i sem' = sem_i (y_sem y) + 1 \<and> THREAD_FLAGS_SLEEP \<notin> flags s' u"
proof -
  from sem_steps_inv [OF assms(1) sem_inv_init [OF assms(2,3)]]
  obtain W' where inv: "sched_inv (y_sched y)" "waiters_ok v (y_sem y) (y_sched y) (y_phase y) W'"
    by (auto simp: sem_inv_def)
  have "slinks (y_sem y) (y_sched y) W'" using inv(2) by (simp add: waiters_ok_def)
  then have "W' = W @ [u]" using assms(4) unfolding slinks_def by (rule dllist_unique)
  moreover have "int (length W') = max 0 (- sem_i (y_sem y))" using inv(2) unfolding waiters_ok_def by blast
  ultimately have neg: "sem_i (y_sem y) + 1 \<le> 0" by simp
  let ?sem = "(y_sem y)\<lparr>sem_i := sem_i (y_sem y) + 1\<rparr>"
  have l: "slinks ?sem (y_sched y) (W @ [u])" using assms(4) by (simp add: slinks_def)
  obtain sem' s' where "wake_one ?sem (y_sched y) = Some (sem', s')" "slinks sem' s' W"
    "sem_i sem' = sem_i ?sem" "THREAD_FLAGS_SLEEP \<notin> flags s' u"
    by (rule wake_one_ok [OF inv(1) l assms(5)]) (rule that)
  with neg show ?thesis by (simp add: semaphore_signal_def)
qed

theorem signal_hands_over_in_order_witness:
  "\<exists>s sem' s'. yield 0 ex_waiting = Some s
    \<and> semaphore_signal \<lparr>sem_i = - 1, sem_tail = Some 0, sem_head = Some 0\<rparr> s = Some (sem', s')
    \<and> slinks sem' s' [] \<and> sem_i sem' = 0 \<and> THREAD_FLAGS_SLEEP \<notin> flags s' 0"
proof -
  let ?sem = "\<lparr>sem_i = - 1, sem_tail = Some 0, sem_head = Some 0\<rparr>"
  let ?y = "\<lambda>s. \<lparr>y_sem = ?sem, y_sched = s, y_phase = (\<lambda>_. Out)(0 := Waiting)\<rparr>"
  obtain s where s: "yield 0 ex_waiting = Some s" and k: "\<not> t_sleeplock (threads s 0)"
    using ex_asleep_run by blast
  have "current_thread ex_waiting 0 = Some 0" by (simp add: ex_waiting_def ex_sched_def current_thread_def)
  then have e: "sched_env ex_waiting s" by (rule env_yield [OF _ s])
  have "sem_step \<lparr>y_sem = SEMAPHORE_INIT 0, y_sched = ex_sched, y_phase = \<lambda>_. Out\<rparr> (?y ex_waiting)"
    using step_enter [of ex_sched 0 0 "\<lambda>_. Out", OF _ _ _ _ ex_wait_run]
    by (simp add: ex_sched_def current_thread_def flags_def ex_thread_def)
  with step_env [OF e] have run: "sem_step\<^sup>*\<^sup>* \<lparr>y_sem = SEMAPHORE_INIT 0, y_sched = ex_sched, y_phase = \<lambda>_. Out\<rparr> (?y s)"
    by (meson r_into_rtranclp rtranclp.rtrancl_into_rtrancl)
  have "slinks ?sem ex_waiting [0]"
    by (simp add: slinks_def dllist_def sleepnext_def sleepprev_def ex_waiting_def ex_thread_def)
  then have l: "slinks ?sem s [0]"
    by (rule slinks_frame) (use sched_env_disturbs [OF e] in \<open>auto simp: disturbs_def sview_def dest: spec [of _ 0]\<close>)
  from signal_hands_over_in_order [OF run order_refl ex_sched_inv, of "[]" 0] l k s show ?thesis by simp
qed

end
