(* ===== verification/Hashtable.thy ===== *)
theory Hashtable
  imports Dllist
begin

text \<open>
  The chained hash table: \<^verbatim>\<open>src/kernel-src/lib/hashtable.c\<close> and \<^verbatim>\<open>include/hashtable.h\<close>.

  An entry is a structure in the heap, linked into the chain of its slot; the heap also records which
  entry objects are allocated. A key buffer is a byte list of which the first \<open>keysize\<close> bytes count,
  and an entry owns a copy of those bytes. What \<open>slab_allocate\<close> returns and whether \<open>alloc\<close> succeeds
  are arguments of the operations. \<open>None\<close> is a trap: a division by a capacity of zero, an allocation
  that fails the assertion of \<open>alloc\<close>, a use of a freed entry, or a chain without an end.

  The lemmas show that the table implements a finite map: what a lookup returns after a set, after
  a removal and after either of them failed, and that destroying it frees every entry once and
  reads none after it is freed.
\<close>

type_synonym eptr = nat

record hashentry =
  he_next :: "eptr option"
  he_prev :: "eptr option"
  he_hash :: u64
  he_keysize :: nat
  he_key :: "u8 list"
  he_value :: addr

record hashtable =
  entrycount :: u64
  capacity :: u64
  entries :: "nat \<Rightarrow> eptr option"

record htheap =
  hent :: "eptr \<Rightarrow> hashentry"
  hlive :: "eptr set"

definition upd_entry :: "eptr \<Rightarrow> (hashentry \<Rightarrow> hashentry) \<Rightarrow> htheap \<Rightarrow> htheap" where
  "upd_entry e f h = h\<lparr>hent := (hent h)(e := f (hent h e))\<rparr>"

definition entnext :: "htheap \<Rightarrow> eptr \<Rightarrow> eptr option" where
  "entnext h e = he_next (hent h e)"

definition entprev :: "htheap \<Rightarrow> eptr \<Rightarrow> eptr option" where
  "entprev h e = he_prev (hent h e)"

definition set_entnext :: "eptr \<Rightarrow> eptr option \<Rightarrow> htheap \<Rightarrow> htheap" where
  "set_entnext e v = upd_entry e (\<lambda>x. x\<lparr>he_next := v\<rparr>)"

definition set_entprev :: "eptr \<Rightarrow> eptr option \<Rightarrow> htheap \<Rightarrow> htheap" where
  "set_entprev e v = upd_entry e (\<lambda>x. x\<lparr>he_prev := v\<rparr>)"

subsection \<open>Operations\<close>

definition matches :: "htheap \<Rightarrow> u8 list \<Rightarrow> nat \<Rightarrow> u64 \<Rightarrow> eptr \<Rightarrow> bool" where
  "matches h key keysize hash e \<longleftrightarrow>
     he_keysize (hent h e) = keysize \<and> he_hash (hent h e) = hash
   \<and> take keysize (he_key (hent h e)) = take keysize key"

definition getentry :: "hashtable \<Rightarrow> u8 list \<Rightarrow> nat \<Rightarrow> u64 \<Rightarrow> htheap \<Rightarrow> eptr option option" where
  "getentry table key keysize hash h =
     (if capacity table = 0 then None
      else let tableoffset = unat (hash mod capacity table)
           in walk (entnext h) (matches h key keysize hash) (entries table tableoffset))"

definition hashtable_set :: "eptr option \<Rightarrow> bool \<Rightarrow> hashtable \<Rightarrow> addr \<Rightarrow> u8 list \<Rightarrow> nat \<Rightarrow> bool \<Rightarrow> htheap
    \<Rightarrow> (errno \<times> hashtable \<times> htheap) option" where
  "hashtable_set obj keybuf table value key keysize allocate h =
     (let hash = fnv1ahash (take keysize key)
      in case getentry table key keysize hash h of
           None \<Rightarrow> None
         | Some (Some entry) \<Rightarrow> Some (E_OK, table, upd_entry entry (\<lambda>x. x\<lparr>he_value := value\<rparr>) h)
         | Some None \<Rightarrow>
             if \<not> allocate then Some (ENOENT, table, h)
             else
               let tableoffset = unat (hash mod capacity table)
               in case obj of
                    None \<Rightarrow> Some (ENOMEM, table, h)
                  | Some entry \<Rightarrow>
                      let h = h\<lparr>hlive := insert entry (hlive h)\<rparr>
                      in if \<not> keybuf then Some (ENOMEM, table, h\<lparr>hlive := hlive h - {entry}\<rparr>)
                         else
                           let h = upd_entry entry (\<lambda>x. x\<lparr>he_key := take keysize key\<rparr>) h;
                               h = set_entprev entry None h;
                               h = set_entnext entry (entries table tableoffset) h;
                               h = (case entnext h entry of
                                      Some n \<Rightarrow> set_entprev n (Some entry) h | None \<Rightarrow> h);
                               h = upd_entry entry (\<lambda>x. x\<lparr>he_value := value, he_keysize := keysize,
                                     he_hash := hash\<rparr>) h
                           in Some (E_OK,
                                table\<lparr>entries := (entries table)(tableoffset := Some entry),
                                  entrycount := entrycount table + 1\<rparr>, h))"

definition hashtable_get :: "hashtable \<Rightarrow> u8 list \<Rightarrow> nat \<Rightarrow> htheap \<Rightarrow> (errno + addr) option" where
  "hashtable_get table key keysize h =
     (let hash = fnv1ahash (take keysize key)
      in case getentry table key keysize hash h of
           None \<Rightarrow> None
         | Some None \<Rightarrow> Some (Inl ENOENT)
         | Some (Some entry) \<Rightarrow> Some (Inr (he_value (hent h entry))))"

definition hashtable_remove :: "hashtable \<Rightarrow> u8 list \<Rightarrow> nat \<Rightarrow> htheap \<Rightarrow> (errno \<times> hashtable \<times> htheap) option" where
  "hashtable_remove table key keysize h =
     (let hash = fnv1ahash (take keysize key); tableoffset = unat (hash mod capacity table)
      in case getentry table key keysize hash h of
           None \<Rightarrow> None
         | Some None \<Rightarrow> Some (ENOENT, table, h)
         | Some (Some entry) \<Rightarrow>
             let (table, h') = (case entprev h entry of
                   Some p \<Rightarrow> (table, set_entnext p (entnext h entry) h)
                 | None \<Rightarrow> (table\<lparr>entries := (entries table)(tableoffset := entnext h entry)\<rparr>, h));
                 h' = (case entnext h entry of Some n \<Rightarrow> set_entprev n (entprev h entry) h' | None \<Rightarrow> h')
             in Some (E_OK, table\<lparr>entrycount := entrycount table - 1\<rparr>, h'\<lparr>hlive := hlive h' - {entry}\<rparr>))"

text \<open>The inner loop of \<open>hashtable_destroy\<close>: the entry is copied before it is freed.\<close>

partial_function (option) destroy_chain :: "eptr option \<Rightarrow> htheap \<Rightarrow> htheap option" where
  "destroy_chain x h = (case x of None \<Rightarrow> Some h | Some entry \<Rightarrow>
     (if entry \<notin> hlive h then None
      else let entrysave = hent h entry
           in destroy_chain (he_next entrysave) (h\<lparr>hlive := hlive h - {entry}\<rparr>)))"

declare destroy_chain.simps [code]

fun destroy_slots :: "hashtable \<Rightarrow> nat list \<Rightarrow> htheap \<Rightarrow> htheap option" where
  "destroy_slots table [] h = Some h"
| "destroy_slots table (toffset # ts) h =
     (case destroy_chain (entries table toffset) h of None \<Rightarrow> None | Some h \<Rightarrow> destroy_slots table ts h)"

definition hashtable_destroy :: "hashtable \<Rightarrow> htheap \<Rightarrow> htheap option" where
  "hashtable_destroy table h = destroy_slots table [0..<unat (capacity table)] h"

text \<open>
  \<open>hashtable_init\<close> allocates the slots, which \<open>alloc\<close> hands out cleared and refuses above 65536 bytes.
  It does not set \<open>entrycount\<close>.
\<close>

definition hashtable_init :: "bool \<Rightarrow> bool \<Rightarrow> hashtable \<Rightarrow> u64 \<Rightarrow> (errno \<times> hashtable) option" where
  "hashtable_init cache buf table sz =
     (if \<not> cache then Some (ENOMEM, table)
      else if unat (sz * 8) > 65536 then None
      else if \<not> buf then Some (ENOMEM, table\<lparr>capacity := sz\<rparr>)
      else Some (E_OK, table\<lparr>capacity := sz, entries := (\<lambda>_. None)\<rparr>))"

interpretation chains: dll_heap entnext entprev set_entnext set_entprev
  by unfold_locales (auto simp: entnext_def entprev_def set_entnext_def set_entprev_def upd_entry_def fun_eq_iff)

subsection \<open>Well-formed tables\<close>

definition slot :: "hashtable \<Rightarrow> u8 list \<Rightarrow> nat" where
  "slot t k = unat (fnv1ahash k mod capacity t)"

definition keyof :: "htheap \<Rightarrow> eptr \<Rightarrow> u8 list" where
  "keyof h e = he_key (hent h e)"

definition entry_ok :: "hashtable \<Rightarrow> htheap \<Rightarrow> nat \<Rightarrow> eptr \<Rightarrow> bool" where
  "entry_ok t h i e \<longleftrightarrow> e \<in> hlive h \<and> he_keysize (hent h e) = length (keyof h e)
     \<and> he_hash (hent h e) = fnv1ahash (keyof h e) \<and> slot t (keyof h e) = i"

text \<open>
  \<open>B i\<close> is the chain of slot \<open>i\<close>. The counter is off by \<open>c\<close>, what it held before \<open>hashtable_init\<close>.
\<close>

definition ht_ok :: "u64 \<Rightarrow> hashtable \<Rightarrow> htheap \<Rightarrow> (nat \<Rightarrow> eptr list) \<Rightarrow> bool" where
  "ht_ok c t h B \<longleftrightarrow> capacity t \<noteq> 0
     \<and> (\<forall>i<unat (capacity t). dchain (entnext h) (entprev h) (entries t i) (B i)
          \<and> (\<forall>e\<in>set (B i). entry_ok t h i e) \<and> distinct (map (keyof h) (B i)))
     \<and> entrycount t = c + of_nat (\<Sum>i<unat (capacity t). length (B i))"

lemma ht_okD:
  assumes "ht_ok c t h B" and "i < unat (capacity t)"
  shows "dchain (entnext h) (entprev h) (entries t i) (B i)" and "e \<in> set (B i) \<Longrightarrow> entry_ok t h i e"
    and "distinct (map (keyof h) (B i))"
  using assms by (auto simp: ht_ok_def)

lemma entry_okD: "entry_ok t h i e \<Longrightarrow> slot t (keyof h e) = i" "entry_ok t h i e \<Longrightarrow> e \<in> hlive h"
  by (simp_all add: entry_ok_def)

lemma chains_disjoint:
  assumes "ht_ok c t h B" and "i < unat (capacity t)" and "j < unat (capacity t)" and "i \<noteq> j"
  shows "set (B i) \<inter> set (B j) = {}"
  using ht_okD(2) [OF assms(1,2)] ht_okD(2) [OF assms(1,3)] assms(4) entry_okD(1) by blast

lemma slot_less: "capacity t \<noteq> 0 \<Longrightarrow> slot t k < unat (capacity t)"
  by (simp add: slot_def word_nat unat_gt_0)

lemma matches_iff:
  assumes "entry_ok t h i e" and "keysize \<le> length key"
  shows "matches h key keysize (fnv1ahash (take keysize key)) e \<longleftrightarrow> keyof h e = take keysize key"
proof
  assume "matches h key keysize (fnv1ahash (take keysize key)) e"
  then have "keysize = length (keyof h e)" "take keysize (keyof h e) = take keysize key"
    using assms(1) by (simp_all add: matches_def entry_ok_def keyof_def)
  then show "keyof h e = take keysize key" by simp
next
  assume k: "keyof h e = take keysize key"
  then have "length (keyof h e) = keysize" using assms(2) by simp
  with k assms(1) show "matches h key keysize (fnv1ahash (take keysize key)) e"
    by (simp add: matches_def entry_ok_def keyof_def)
qed

lemma getentry_find:
  assumes "ht_ok c t h B" and "keysize \<le> length key"
  shows "getentry t key keysize (fnv1ahash (take keysize key)) h
    = Some (find (\<lambda>e. keyof h e = take keysize key) (B (slot t (take keysize key))))"
proof -
  have nz: "capacity t \<noteq> 0" using assms(1) by (simp add: ht_ok_def)
  let ?i = "slot t (take keysize key)"
  note D = ht_okD [OF assms(1) slot_less [OF nz]]
  have "find (matches h key keysize (fnv1ahash (take keysize key))) (B ?i)
      = find (\<lambda>e. keyof h e = take keysize key) (B ?i)"
    by (rule find_cong') (rule matches_iff [OF D(2) assms(2)])
  with walk_dchain [OF D(1)] nz show ?thesis by (simp add: getentry_def slot_def)
qed

text \<open>The table as a map from keys to values.\<close>

definition ht_map :: "hashtable \<Rightarrow> htheap \<Rightarrow> (nat \<Rightarrow> eptr list) \<Rightarrow> u8 list \<Rightarrow> addr option" where
  "ht_map t h B k = map_option (\<lambda>e. he_value (hent h e)) (find (\<lambda>e. keyof h e = k) (B (slot t k)))"

lemma get_map:
  assumes "ht_ok c t h B" and "keysize \<le> length key"
  shows "hashtable_get t key keysize h
    = Some (case ht_map t h B (take keysize key) of None \<Rightarrow> Inl ENOENT | Some v \<Rightarrow> Inr v)"
  by (simp add: hashtable_get_def getentry_find [OF assms] ht_map_def split: option.split)

text \<open>Setting a key that is there.\<close>

lemma set_present:
  assumes ok: "ht_ok c t h B" and e: "e \<in> set (B (slot t k))" "keyof h e = k"
    and h'_def: "h' = upd_entry e (\<lambda>x. x\<lparr>he_value := v\<rparr>) h"
  shows "ht_ok c t h' B" and "ht_map t h' B = (ht_map t h B)(k \<mapsto> v)"
proof -
  have same: "entnext h' = entnext h" "entprev h' = entprev h" "keyof h' = keyof h" "hlive h' = hlive h"
      "he_keysize (hent h' x) = he_keysize (hent h x)" "he_hash (hent h' x) = he_hash (hent h x)" for x
    by (auto simp: h'_def upd_entry_def entnext_def entprev_def keyof_def fun_eq_iff)
  show "ht_ok c t h' B" using ok by (simp add: ht_ok_def entry_ok_def same)
  have i: "slot t k < unat (capacity t)" using ok by (auto simp: ht_ok_def intro: slot_less)
  have f: "find (\<lambda>x. keyof h x = k) (B (slot t k)) = Some e"
    using find_map_distinct [OF ht_okD(3) [OF ok i] e(1)] e(2) by simp
  have val: "he_value (hent h' x) = (if x = e then v else he_value (hent h x))" for x
    by (simp add: h'_def upd_entry_def)
  show "ht_map t h' B = (ht_map t h B)(k \<mapsto> v)"
  proof
    fix x
    show "ht_map t h' B x = ((ht_map t h B)(k \<mapsto> v)) x"
    proof (cases "x = k")
      case False
      then have "z \<noteq> e" if "find (\<lambda>z. keyof h z = x) (B (slot t x)) = Some z" for z
        using find_key_SomeD [OF that] e(2) by auto
      with False show ?thesis by (simp add: ht_map_def same val map_option_case split: option.split)
    qed (simp add: ht_map_def same val f)
  qed
qed

text \<open>Linking a new entry in front of its chain.\<close>

lemma set_absent:
  assumes ok: "ht_ok c t h B" and k: "k \<notin> keyof h ` set (B (slot t k))" and e: "e \<notin> hlive h"
    and h1: "entnext h1 = entnext h" "entprev h1 = entprev h" "\<And>x. x \<noteq> e \<Longrightarrow> hent h1 x = hent h x"
      "hlive h1 = insert e (hlive h)"
    and h2: "h2 = set_entprev e None (set_entnext e (entries t (slot t k)) h1)"
    and h3: "h3 = (case entries t (slot t k) of None \<Rightarrow> h2 | Some n \<Rightarrow> set_entprev n (Some e) h2)"
    and h': "entnext h' = entnext h3" "entprev h' = entprev h3" "hlive h' = hlive h3"
      "\<And>x. x \<noteq> e \<Longrightarrow> hent h' x = hent h3 x" "he_key (hent h' e) = k" "he_keysize (hent h' e) = length k"
      "he_hash (hent h' e) = fnv1ahash k" "he_value (hent h' e) = v"
    and t': "t' = t\<lparr>entries := (entries t)(slot t k := Some e), entrycount := entrycount t + 1\<rparr>"
    and B': "B' = B(slot t k := e # B (slot t k))"
  shows "ht_ok c t' h' B'" and "ht_map t' h' B' = (ht_map t h B)(k \<mapsto> v)"
proof -
  let ?n = "unat (capacity t)" and ?i = "slot t k"
  have i: "?i < ?n" using ok by (auto simp: ht_ok_def intro: slot_less)
  have fresh: "e \<notin> set (B j)" if "j < ?n" for j using ht_okD(2) [OF ok that] e entry_okD(2) by blast
  have live: "hlive h' = insert e (hlive h)"
    by (simp add: h'(3) h3 h2 h1(4) set_entnext_def set_entprev_def upd_entry_def split: option.split)
  have keep: "keyof h' x = keyof h x" "he_keysize (hent h' x) = he_keysize (hent h x)"
      "he_hash (hent h' x) = he_hash (hent h x)" "he_value (hent h' x) = he_value (hent h x)" if "x \<noteq> e" for x
    using that h1(3) [OF that] by (simp_all add: keyof_def h'(4) h3 h2 set_entnext_def set_entprev_def upd_entry_def split: option.split)
  have slot': "slot t' x = slot t x" for x by (simp add: t' slot_def)
  have chain: "dchain (entnext h1) (entprev h1) (entries t ?i) (B ?i)" using ht_okD(1) [OF ok i] by (simp add: h1)
  note push = chains.chain_push [OF chain fresh [OF i] h2 h3]
  have other: "dchain (entnext h') (entprev h') (entries t j) (B j)" if j: "j < ?n" "j \<noteq> ?i" for j
  proof -
    have "x \<notin> set (e # B ?i)" if "x \<in> set (B j)" for x
      using that fresh [OF j(1)] chains_disjoint [OF ok j(1) i j(2)] by auto
    then have "dchain (entnext h3) (entprev h3) (entries t j) (B j) = dchain (entnext h) (entprev h) (entries t j) (B j)"
      using push(2) by (intro dchain_frame) (simp add: h1)
    then show ?thesis using ht_okD(1) [OF ok j(1)] by (simp add: h')
  qed
  have ne: "x \<noteq> e" if "j < ?n" "x \<in> set (B j)" for j x using fresh [OF that(1)] that(2) by blast
  have old: "entry_ok t' h' j x" if "j < ?n" "x \<in> set (B j)" for j x
    using ht_okD(2) [OF ok that] keep [OF ne [OF that]] by (simp add: entry_ok_def live slot')
  have new: "entry_ok t' h' ?i e" by (simp add: entry_ok_def live slot' keyof_def h'(5,6,7))
  have keys: "distinct (map (keyof h') (B j)) \<and> keyof h' ` set (B j) = keyof h ` set (B j)" if "j < ?n" for j
  proof -
    have "map (keyof h') (B j) = map (keyof h) (B j)" by (rule map_cong) (simp_all add: keep(1) ne [OF that])
    with ht_okD(3) [OF ok that] show ?thesis by (metis set_map)
  qed
  have "(\<Sum>j<?n. length (B' j)) = Suc (\<Sum>j<?n. length (B j))"
    using i by (simp add: B' sum.remove [of "{..<?n}" ?i])
  moreover have "keyof h' e = k" using h' by (simp add: keyof_def)
  ultimately have cnt: "entrycount t' = c + of_nat (\<Sum>j<?n. length (B' j))" and ke: "keyof h' e = k"
    using ok by (simp_all add: ht_ok_def t' del: of_nat_sum)
  have "dchain (entnext h') (entprev h') (entries t' j) (B' j) \<and> (\<forall>x\<in>set (B' j). entry_ok t' h' j x)
      \<and> distinct (map (keyof h') (B' j))" if j: "j < ?n" for j
  proof (cases "j = ?i")
    case True
    with push(1) old [OF j] new keys [OF j] k ke show ?thesis by (simp add: t' B' h'(1,2))
  next
    case False
    with other [OF j] old [OF j] keys [OF j] show ?thesis by (simp add: t' B')
  qed
  with cnt ok show "ht_ok c t' h' B'" by (simp add: ht_ok_def t')
  show "ht_map t' h' B' = (ht_map t h B)(k \<mapsto> v)"
  proof
    fix x
    have j: "slot t x < ?n" using ok by (auto simp: ht_ok_def intro: slot_less)
    have "find (\<lambda>z. keyof h' z = x) (B (slot t x)) = find (\<lambda>z. keyof h z = x) (B (slot t x))"
      by (rule find_cong') (simp add: keep(1) ne [OF j])
    moreover have "he_value (hent h' z) = he_value (hent h z)" if "find (\<lambda>z. keyof h z = x) (B (slot t x)) = Some z" for z
      using ne [OF j] find_key_SomeD [OF that] by (blast intro: keep(4))
    moreover from calculation(1) have "find (\<lambda>z. keyof h' z = x) (B' (slot t x))
        = (if x = k then Some e else find (\<lambda>z. keyof h z = x) (B (slot t x)))"
      using ke by (cases "slot t x = slot t k") (simp_all add: B', metis+)
    ultimately show "ht_map t' h' B' x = ((ht_map t h B)(k \<mapsto> v)) x"
      using h'(8) by (simp add: ht_map_def slot' map_option_case split: option.split)
  qed
qed

text \<open>Unlinking an entry from its chain.\<close>

lemma remove_present:
  assumes ok: "ht_ok c t h B" and e: "B (slot t k) = ps @ e # qs" "keyof h e = k"
    and h1: "h1 = (case entprev h e of None \<Rightarrow> h | Some p \<Rightarrow> set_entnext p (entnext h e) h)"
    and h2: "h2 = (case entnext h e of None \<Rightarrow> h1 | Some n \<Rightarrow> set_entprev n (entprev h e) h1)"
    and h': "h' = h2\<lparr>hlive := hlive h2 - {e}\<rparr>"
    and t': "t' = t\<lparr>entries := (if entprev h e = None then (entries t)(slot t k := entnext h e) else entries t),
      entrycount := entrycount t - 1\<rparr>"
    and B': "B' = B(slot t k := ps @ qs)"
  shows "ht_ok c t' h' B'" and "ht_map t' h' B' = (ht_map t h B)(k := None)"
proof -
  let ?n = "unat (capacity t)" and ?i = "slot t k"
  have i: "?i < ?n" using ok by (auto simp: ht_ok_def intro: slot_less)
  note chain = ht_okD(1) [OF ok i, unfolded e(1)]
  note cut = chains.chain_unlink [OF chain h1 h2]
  have keep: "keyof h' = keyof h" "he_keysize (hent h' x) = he_keysize (hent h x)"
      "he_hash (hent h' x) = he_hash (hent h x)" "he_value (hent h' x) = he_value (hent h x)"
      "entnext h' = entnext h2" "entprev h' = entprev h2" "hlive h' = hlive h - {e}" for x
    by (auto simp: keyof_def h' h2 h1 set_entnext_def set_entprev_def upd_entry_def entnext_def entprev_def
        fun_eq_iff split: option.split)
  have slot': "slot t' x = slot t x" for x by (simp add: t' slot_def)
  have d: "distinct (map (keyof h) (ps @ e # qs))" using ht_okD(3) [OF ok i] e(1) by simp
  have sub: "x \<in> set (B j) \<and> x \<noteq> e" if "j < ?n" "x \<in> set (B' j)" for j x
  proof (cases "j = ?i")
    case True
    with that(2) d show ?thesis by (auto simp: B' e(1))
  next
    case False
    with that e(1) chains_disjoint [OF ok that(1) i] show ?thesis by (auto simp: B')
  qed
  have other: "dchain (entnext h') (entprev h') (entries t j) (B j)" if j: "j < ?n" "j \<noteq> ?i" for j
  proof -
    have "x \<notin> set (ps @ e # qs)" if "x \<in> set (B j)" for x
      using that chains_disjoint [OF ok j(1) i j(2)] by (auto simp: e(1))
    then have "dchain (entnext h2) (entprev h2) (entries t j) (B j) = dchain (entnext h) (entprev h) (entries t j) (B j)"
      using cut(2) by (intro dchain_frame) simp
    then show ?thesis using ht_okD(1) [OF ok j(1)] by (simp add: keep)
  qed
  have "dchain (entnext h') (entprev h') (entries t' j) (B' j) \<and> (\<forall>x\<in>set (B' j). entry_ok t' h' j x)
      \<and> distinct (map (keyof h') (B' j))" if j: "j < ?n" for j
  proof (intro conjI ballI)
    show "dchain (entnext h') (entprev h') (entries t' j) (B' j)"
    proof (cases "j = ?i")
      case True
      have "entries t' ?i = (if entprev h e = None then entnext h e else entries t ?i)" by (simp add: t')
      with cut(1) True show ?thesis by (simp add: B' keep)
    next
      case False
      with other [OF j] show ?thesis by (simp add: t' B')
    qed
    show "entry_ok t' h' j x" if "x \<in> set (B' j)" for x
      using sub [OF j that] ht_okD(2) [OF ok j, of x] by (simp add: entry_ok_def slot' keep)
    show "distinct (map (keyof h') (B' j))" using ht_okD(3) [OF ok j] d by (simp add: B' keep(1))
  qed
  moreover have "(\<Sum>j<?n. length (B j)) = Suc (\<Sum>j<?n. length (B' j))"
    using i e(1) by (simp add: B' sum.remove [of "{..<?n}" ?i])
  ultimately show "ht_ok c t' h' B'" using ok by (simp add: ht_ok_def t' del: of_nat_sum)
  show "ht_map t' h' B' = (ht_map t h B)(k := None)"
  proof
    fix x
    have "find (\<lambda>z. keyof h z = x) (B' (slot t x)) = (if x = k then None else find (\<lambda>z. keyof h z = x) (B (slot t x)))"
    proof (cases "x = k")
      case True
      moreover have "k \<notin> keyof h ` set (ps @ qs)" using d e(2) by auto
      then have "find (\<lambda>z. keyof h z = k) (ps @ qs) = None" by (simp only: find_key_None) simp
      ultimately show ?thesis by (simp add: B')
    next
      case False
      with e show ?thesis by (cases "find (\<lambda>z. keyof h z = x) ps") (simp_all add: B' find_append)
    qed
    then show "ht_map t' h' B' x = ((ht_map t h B)(k := None)) x"
      by (simp add: ht_map_def slot' keep map_option_case split: option.split)
  qed
qed

lemma destroy_chain_frees:
  assumes "dseg (entnext h) pv a x es b None" and "distinct es" and "set es \<subseteq> hlive h"
  shows "destroy_chain x h = Some (h\<lparr>hlive := hlive h - set es\<rparr>)"
  using assms
proof (induction es arbitrary: a x h)
  case Nil
  then show ?case by (simp add: destroy_chain.simps)
next
  case (Cons e es)
  let ?h = "h\<lparr>hlive := hlive h - {e}\<rparr>"
  have "entnext ?h = entnext h" by (simp add: entnext_def fun_eq_iff)
  moreover have "dseg (entnext h) pv (Some e) (entnext h e) es b None" "x = Some e" using Cons.prems(1) by auto
  moreover have "set es \<subseteq> hlive ?h" using Cons.prems(2,3) by auto
  ultimately have "destroy_chain (entnext h e) ?h = Some (?h\<lparr>hlive := hlive ?h - set es\<rparr>)"
    using Cons.IH Cons.prems(2) by (metis distinct.simps(2))
  moreover have "hlive h - {e} - set es = hlive h - set (e # es)" by auto
  ultimately show ?case
    using Cons.prems(3) \<open>x = Some e\<close> by (subst destroy_chain.simps) (simp add: entnext_def)
qed

lemma destroy_slots_frees:
  assumes "\<And>i. i \<in> set is \<Longrightarrow> dchain (entnext h) (entprev h) (entries t i) (B i) \<and> set (B i) \<subseteq> hlive h"
    and "\<And>i j. i \<in> set is \<Longrightarrow> j \<in> set is \<Longrightarrow> i \<noteq> j \<Longrightarrow> set (B i) \<inter> set (B j) = {}" and "distinct is"
  shows "destroy_slots t is h = Some (h\<lparr>hlive := hlive h - (\<Union>i\<in>set is. set (B i))\<rparr>)"
  using assms
proof (induction "is" arbitrary: h)
  case (Cons i "is")
  let ?h = "h\<lparr>hlive := hlive h - set (B i)\<rparr>"
  have same: "entnext ?h = entnext h" "entprev ?h = entprev h" by (simp_all add: entnext_def entprev_def fun_eq_iff)
  obtain tail where "dseg (entnext h) (entprev h) None (entries t i) (B i) tail None" "distinct (B i)"
    using Cons.prems(1) [of i] by (auto simp: dchain_def dllist_def)
  then have "destroy_chain (entries t i) h = Some ?h" using Cons.prems(1) [of i] by (intro destroy_chain_frees) auto
  moreover have "destroy_slots t is ?h = Some (?h\<lparr>hlive := hlive ?h - (\<Union>i\<in>set is. set (B i))\<rparr>)"
  proof (rule Cons.IH)
    show "dchain (entnext ?h) (entprev ?h) (entries t j) (B j) \<and> set (B j) \<subseteq> hlive ?h" if "j \<in> set is" for j
      using that Cons.prems(1) [of j] Cons.prems(2) [of i j] Cons.prems(3) unfolding same by fastforce
  qed (use Cons.prems(2,3) in auto)
  moreover have "hlive h - set (B i) - (\<Union>i\<in>set is. set (B i)) = hlive h - (\<Union>i\<in>set (i # is). set (B i))" by auto
  ultimately show ?case by simp
qed simp

definition ht_inv :: "u64 \<Rightarrow> hashtable \<Rightarrow> htheap \<Rightarrow> bool" where
  "ht_inv c t h \<longleftrightarrow> (\<exists>B. ht_ok c t h B)"

definition ht_lookup :: "hashtable \<times> htheap \<Rightarrow> u8 list \<Rightarrow> addr option" where
  "ht_lookup s k = (case hashtable_get (fst s) k (length k) (snd s) of Some (Inr v) \<Rightarrow> Some v | _ \<Rightarrow> None)"

lemma ht_lookup_map: "ht_ok c t h B \<Longrightarrow> ht_lookup (t, h) = ht_map t h B"
  by (simp add: ht_lookup_def fun_eq_iff get_map split: option.split)

lemma ht_get_lookup:
  assumes "ht_inv c t h" and "keysize \<le> length key"
  shows "hashtable_get t key keysize h
    = Some (case ht_lookup (t, h) (take keysize key) of None \<Rightarrow> Inl ENOENT | Some v \<Rightarrow> Inr v)"
  using assms by (auto simp: ht_inv_def get_map ht_lookup_map)

text \<open>The three outcomes of a set.\<close>

lemma set_outcome:
  assumes ok: "ht_ok c t h B" and n: "keysize \<le> length key" and e: "\<And>e. obj = Some e \<Longrightarrow> e \<notin> hlive h"
  defines "k \<equiv> take keysize key"
  shows "ht_map t h B k \<noteq> None \<or> allocate \<and> obj \<noteq> None \<and> keybuf \<Longrightarrow>
      \<exists>t' h' B'. hashtable_set obj keybuf t v key keysize allocate h = Some (E_OK, t', h')
        \<and> ht_ok c t' h' B' \<and> ht_map t' h' B' = (ht_map t h B)(k \<mapsto> v)"
    and "ht_map t h B k = None \<Longrightarrow> \<not> (allocate \<and> obj \<noteq> None \<and> keybuf) \<Longrightarrow>
      hashtable_set obj keybuf t v key keysize allocate h = Some (if allocate then ENOMEM else ENOENT, t, h)"
proof -
  note get = getentry_find [OF ok n, folded k_def]
  have len: "length k = keysize" using n by (simp add: k_def)
  show "\<exists>t' h' B'. hashtable_set obj keybuf t v key keysize allocate h = Some (E_OK, t', h')
        \<and> ht_ok c t' h' B' \<and> ht_map t' h' B' = (ht_map t h B)(k \<mapsto> v)"
    if "ht_map t h B k \<noteq> None \<or> allocate \<and> obj \<noteq> None \<and> keybuf"
  proof (cases "find (\<lambda>e. keyof h e = k) (B (slot t k))")
    case (Some e)
    note e = find_key_SomeD [OF Some]
    from set_present [OF ok conjunct1 [OF e] conjunct2 [OF e] refl, of v] show ?thesis
      using Some by (intro exI) (auto simp: hashtable_set_def k_def [symmetric] get)
  next
    case None
    with that obtain e where a: "allocate" "obj = Some e" "keybuf" by (auto simp: ht_map_def)
    have k: "k \<notin> keyof h ` set (B (slot t k))" using None by (simp add: find_key_None)
    define h1 where "h1 = upd_entry e (\<lambda>x. x\<lparr>he_key := k\<rparr>) (h\<lparr>hlive := insert e (hlive h)\<rparr>)"
    define h2 where "h2 = set_entprev e None (set_entnext e (entries t (slot t k)) h1)"
    define h3 where "h3 = (case entries t (slot t k) of None \<Rightarrow> h2 | Some n \<Rightarrow> set_entprev n (Some e) h2)"
    define h' where "h' = upd_entry e (\<lambda>x. x\<lparr>he_value := v, he_keysize := keysize, he_hash := fnv1ahash k\<rparr>) h3"
    define t' where "t' = t\<lparr>entries := (entries t)(slot t k := Some e), entrycount := entrycount t + 1\<rparr>"
    have comm: "set_entnext e x (set_entprev e None g) = set_entprev e None (set_entnext e x g)" for x g
      by (cases "hent g e") (simp add: set_entnext_def set_entprev_def upd_entry_def)
    have "hashtable_set obj keybuf t v key keysize allocate h = Some (E_OK, t', h')"
      using None a by (simp add: hashtable_set_def k_def [symmetric] get Let_def comm chains.links slot_def
          t'_def h'_def h3_def h2_def h1_def split: option.split)
    moreover have l1: "entnext h1 = entnext h" "entprev h1 = entprev h" "x \<noteq> e \<Longrightarrow> hent h1 x = hent h x"
        "hlive h1 = insert e (hlive h)" "he_key (hent h1 e) = k" for x
      by (simp_all add: h1_def upd_entry_def entnext_def entprev_def fun_eq_iff)
    have l': "entnext h' = entnext h3" "entprev h' = entprev h3" "hlive h' = hlive h3" "x \<noteq> e \<Longrightarrow> hent h' x = hent h3 x"
        "he_keysize (hent h' e) = length k" "he_hash (hent h' e) = fnv1ahash k" "he_value (hent h' e) = v"
        "he_key (hent h' e) = k" for x
      using l1(5) by (auto simp: h'_def upd_entry_def entnext_def entprev_def fun_eq_iff len h3_def h2_def
          set_entnext_def set_entprev_def split: option.split)
    note set_absent [OF ok k e [OF a(2)] l1(1-4) h2_def h3_def l'(1-4,8,5-7) t'_def refl]
    ultimately show ?thesis by blast
  qed
  show "hashtable_set obj keybuf t v key keysize allocate h = Some (if allocate then ENOMEM else ENOENT, t, h)"
    if "ht_map t h B k = None" "\<not> (allocate \<and> obj \<noteq> None \<and> keybuf)"
    using that e by (auto simp: hashtable_set_def k_def [symmetric] get ht_map_def Let_def split: option.split)
qed

lemma remove_outcome:
  assumes ok: "ht_ok c t h B" and n: "keysize \<le> length key"
  defines "k \<equiv> take keysize key"
  shows "ht_map t h B k = None \<Longrightarrow> hashtable_remove t key keysize h = Some (ENOENT, t, h)"
    and "ht_map t h B k \<noteq> None \<Longrightarrow>
      \<exists>t' h' B'. hashtable_remove t key keysize h = Some (E_OK, t', h') \<and> ht_ok c t' h' B'
        \<and> ht_map t' h' B' = (ht_map t h B)(k := None)"
proof -
  note get = getentry_find [OF ok n, folded k_def]
  show "hashtable_remove t key keysize h = Some (ENOENT, t, h)" if "ht_map t h B k = None"
    using that by (simp add: hashtable_remove_def k_def [symmetric] get ht_map_def Let_def)
  show "\<exists>t' h' B'. hashtable_remove t key keysize h = Some (E_OK, t', h') \<and> ht_ok c t' h' B'
        \<and> ht_map t' h' B' = (ht_map t h B)(k := None)" if "ht_map t h B k \<noteq> None"
  proof -
    from that obtain e where f: "find (\<lambda>e. keyof h e = k) (B (slot t k)) = Some e" by (auto simp: ht_map_def)
    from find_key_SomeD [OF f] obtain ps qs where e: "B (slot t k) = ps @ e # qs" "keyof h e = k"
      by (auto dest: split_list)
    define h1 where "h1 = (case entprev h e of None \<Rightarrow> h | Some p \<Rightarrow> set_entnext p (entnext h e) h)"
    define h2 where "h2 = (case entnext h e of None \<Rightarrow> h1 | Some n \<Rightarrow> set_entprev n (entprev h e) h1)"
    define t' where "t' = t\<lparr>entries := (if entprev h e = None then (entries t)(slot t k := entnext h e) else entries t),
      entrycount := entrycount t - 1\<rparr>"
    have "hashtable_remove t key keysize h = Some (E_OK, t', h2\<lparr>hlive := hlive h2 - {e}\<rparr>)"
      using f by (simp add: hashtable_remove_def k_def [symmetric] get Let_def slot_def t'_def h2_def h1_def
          split: option.split)
    with remove_present [OF ok e h1_def h2_def refl t'_def refl] show ?thesis by blast
  qed
qed

subsection \<open>Dictionaries\<close>

text \<open>
  The contract clients rely on: a step puts or deletes a key, keeps the invariant and changes what
  lookups return accordingly.
\<close>

datatype ('k, 'v) dict_op = Put 'k 'v | Del 'k

fun dict_apply :: "('k, 'v) dict_op \<Rightarrow> ('k \<Rightarrow> 'v option) \<Rightarrow> 'k \<Rightarrow> 'v option" where
  "dict_apply (Put k v) m = m(k \<mapsto> v)"
| "dict_apply (Del k) m = m(k := None)"

inductive dict_run :: "('o \<Rightarrow> 's \<Rightarrow> 's \<Rightarrow> bool) \<Rightarrow> 'o list \<Rightarrow> 's \<Rightarrow> 's \<Rightarrow> bool" for step where
  run_done: "dict_run step [] s s"
| run_step: "step op s s' \<Longrightarrow> dict_run step ops s' s'' \<Longrightarrow> dict_run step (op # ops) s s''"

locale dictionary =
  fixes inv :: "'s \<Rightarrow> bool" and lookup :: "'s \<Rightarrow> 'k \<Rightarrow> 'v option"
    and step :: "('k, 'v) dict_op \<Rightarrow> 's \<Rightarrow> 's \<Rightarrow> bool"
  assumes step_ok: "inv s \<Longrightarrow> step op s s' \<Longrightarrow> inv s' \<and> lookup s' = dict_apply op (lookup s)"
begin

lemma run_ok: "dict_run step ops s s' \<Longrightarrow> inv s \<Longrightarrow> inv s' \<and> lookup s' = fold dict_apply ops (lookup s)"
  by (induction rule: dict_run.induct) (auto dest: step_ok)

end

text \<open>One operation on a hash table that does not run out of memory.\<close>

fun ht_step :: "(u8 list, addr) dict_op \<Rightarrow> hashtable \<times> htheap \<Rightarrow> hashtable \<times> htheap \<Rightarrow> bool" where
  "ht_step (Put k v) (t, h) s' \<longleftrightarrow> (\<exists>e. e \<notin> hlive h \<and>
     hashtable_set (Some e) True t v k (length k) True h = Some (E_OK, fst s', snd s'))"
| "ht_step (Del k) (t, h) s' \<longleftrightarrow> (\<exists>r. hashtable_remove t k (length k) h = Some (r, fst s', snd s'))"

lemma ht_step_ok:
  assumes "ht_inv c (fst s) (snd s)" and "ht_step op s s'"
  shows "ht_inv c (fst s') (snd s') \<and> ht_lookup s' = dict_apply op (ht_lookup s)"
proof -
  obtain t h t' h' where s: "s = (t, h)" "s' = (t', h')" by fastforce
  from assms(1) obtain B where ok: "ht_ok c t h B" by (auto simp: ht_inv_def s)
  have "\<exists>B'. ht_ok c t' h' B' \<and> ht_map t' h' B' = dict_apply op (ht_map t h B)"
  proof (cases op)
    case (Put k v)
    with assms(2) obtain e where e: "e \<notin> hlive h"
        "hashtable_set (Some e) True t v k (length k) True h = Some (E_OK, t', h')" by (auto simp: s)
    with set_outcome(1) [OF ok order_refl, of "Some e" k True True v] Put show ?thesis by auto
  next
    case (Del k)
    show ?thesis
    proof (cases "ht_map t h B k = None")
      case True
      with Del assms(2) remove_outcome(1) [OF ok order_refl, of k] have "t' = t" "h' = h" by (auto simp: s)
      moreover have "(ht_map t h B)(k := None) = ht_map t h B" using True by auto
      ultimately show ?thesis using ok Del by auto
    next
      case False
      with Del assms(2) remove_outcome(2) [OF ok order_refl, of k] show ?thesis by (auto simp: s)
    qed
  qed
  with ok show ?thesis by (auto simp: s ht_inv_def ht_lookup_map)
qed

interpretation htdict: dictionary "\<lambda>s. ht_inv c (fst s) (snd s)" ht_lookup ht_step
  by unfold_locales (rule ht_step_ok)

lemma init_inv:
  assumes "hashtable_init True True t sz = Some (E_OK, t')" and "sz \<noteq> 0"
  shows "ht_ok (entrycount t) t' h (\<lambda>_. [])"
  using assms by (auto simp: hashtable_init_def ht_ok_def split: if_splits)

definition ex_table :: hashtable where
  "ex_table = \<lparr>entrycount = 0, capacity = 4, entries = \<lambda>_. None\<rparr>"

definition ex_heap :: htheap where
  "ex_heap = \<lparr>hent = \<lambda>_. \<lparr>he_next = None, he_prev = None, he_hash = 0, he_keysize = 0, he_key = [], he_value = 0\<rparr>,
     hlive = {}\<rparr>"

lemma ex_table_ok: "ht_ok 0 ex_table ex_heap (\<lambda>_. [])"
  by (simp add: ht_ok_def ex_table_def)

subsection \<open>Properties\<close>

text \<open>
  C6: a hash table implements a finite map. After any sequence of sets and removals on a well-formed
  table, a lookup returns the value the last of them left for its key, or \<open>ENOENT\<close>.
\<close>

theorem hashtable_implements_map:
  assumes "ht_inv c t h" and "dict_run ht_step ops (t, h) (t', h')" and "keysize \<le> length key"
  shows "hashtable_get t' key keysize h'
    = Some (case fold dict_apply ops (ht_lookup (t, h)) (take keysize key) of None \<Rightarrow> Inl ENOENT | Some v \<Rightarrow> Inr v)"
  using htdict.run_ok [OF assms(2), of c] assms(1) ht_get_lookup [OF _ assms(3), of c t' h'] by simp

theorem hashtable_implements_map_witness:
  "\<exists>t h. hashtable_set (Some 9) True ex_table 7 [1] 1 True ex_heap = Some (E_OK, t, h)
     \<and> hashtable_get t [1, 5] 1 h = Some (Inr 7) \<and> hashtable_get t [2] 1 h = Some (Inl ENOENT)"
proof -
  obtain t h where s: "hashtable_set (Some 9) True ex_table 7 [1] (length [1 :: u8]) True ex_heap = Some (E_OK, t, h)"
    using set_outcome(1) [OF ex_table_ok order_refl, of "Some 9" "[1]" True True 7] by (auto simp: ex_heap_def)
  have inv: "ht_inv 0 ex_table ex_heap" using ex_table_ok by (auto simp: ht_inv_def)
  have run: "dict_run ht_step [Put [1] 7] (ex_table, ex_heap) (t, h)"
    using s by (intro run_step [of _ _ _ "(t, h)"] run_done) (auto simp: ex_heap_def)
  have "ht_lookup (ex_table, ex_heap) = Map.empty"
    by (simp add: ht_lookup_map [OF ex_table_ok] ht_map_def fun_eq_iff)
  with hashtable_implements_map [OF inv run, of 1 "[1, 5]"] hashtable_implements_map [OF inv run, of 1 "[2]"] s
  show ?thesis by auto
qed

text \<open>
  A set that cannot store its key, because the key is absent and either no entry may be
  allocated or one of the two allocations fails, reports \<open>ENOENT\<close> or \<open>ENOMEM\<close> and leaves table and
  heap as they were, with no entry leaked.
\<close>

lemma hashtable_set_failure:
  assumes "ht_inv c t h" and "keysize \<le> length key" and "\<And>e. obj = Some e \<Longrightarrow> e \<notin> hlive h"
    and "hashtable_get t key keysize h = Some (Inl ENOENT)" and "\<not> (allocate \<and> obj \<noteq> None \<and> keybuf)"
  shows "hashtable_set obj keybuf t v key keysize allocate h = Some (if allocate then ENOMEM else ENOENT, t, h)"
proof -
  from assms(1) obtain B where ok: "ht_ok c t h B" by (auto simp: ht_inv_def)
  have "ht_map t h B (take keysize key) = None"
    using assms(4) get_map [OF ok assms(2)] by (auto split: option.splits)
  from set_outcome(2) [OF ok assms(2,3) this assms(5)] show ?thesis .
qed

text \<open>
  C34: destroying a table frees each of its entries, once, and no other, and reads no entry after it
  was freed.
\<close>

theorem hashtable_destroy_frees:
  assumes "ht_ok c t h B"
  shows "hashtable_destroy t h = Some (h\<lparr>hlive := hlive h - (\<Union>i<unat (capacity t). set (B i))\<rparr>)"
proof -
  have "destroy_slots t [0..<unat (capacity t)] h
      = Some (h\<lparr>hlive := hlive h - (\<Union>i\<in>set [0..<unat (capacity t)]. set (B i))\<rparr>)"
  proof (rule destroy_slots_frees)
    show "dchain (entnext h) (entprev h) (entries t i) (B i) \<and> set (B i) \<subseteq> hlive h"
      if "i \<in> set [0..<unat (capacity t)]" for i
      using that ht_okD(1,2) [OF assms, of i] by (auto intro: entry_okD(2))
  qed (use chains_disjoint [OF assms] in auto)
  then show ?thesis by (simp add: hashtable_destroy_def atLeast0LessThan)
qed

theorem hashtable_destroy_frees_witness:
  "\<exists>t h h'. hashtable_set (Some 9) True ex_table 7 [1] 1 True ex_heap = Some (E_OK, t, h)
     \<and> hashtable_destroy t h = Some h' \<and> hlive h' \<subseteq> hlive h"
proof -
  obtain t h B where "hashtable_set (Some 9) True ex_table 7 [1] 1 True ex_heap = Some (E_OK, t, h)" "ht_ok 0 t h B"
    using set_outcome(1) [OF ex_table_ok, of 1 "[1]" "Some 9" True True 7] by (auto simp: ex_heap_def)
  with hashtable_destroy_frees [of 0 t h B] show ?thesis by auto
qed

end
