(* ===== verification/Slab.thy ===== *)
theory Slab
  imports Dllist
begin

text \<open>
  The slab allocator: \<^verbatim>\<open>src/kernel-src/mm/slab.c\<close> and \<^verbatim>\<open>include/kernel/slab.h\<close>.

  A cache has three lists of slabs, by how many of their objects are in use. A slab is a page whose
  last 40 bytes are its header; small objects lie in the page itself, each followed by a link cell,
  and larger ones in a second mapping, with the link cells in the page. Free objects are chained
  through their cells. The heap of the model has the slab headers, the cells, the contents of the
  objects (of any type, changed by the constructor and the destructor) and the set of mapped slabs.
  Addresses are natural numbers: mappings do not wrap around. What \<open>vmm_map\<close> returns is an argument
  of the operations that call it. \<open>None\<close> is a failed assertion, an access to an unmapped slab or a
  list without an end.

  The lemmas show that an allocation returns an object nobody holds, that freeing a held object
  succeeds and gives back just this object, and that objects overlap neither each other nor the
  allocator's own data.
\<close>

record slab =
  sl_next :: "nat option"
  sl_prev :: "nat option"
  sl_used :: nat
  sl_free :: "nat option"
  sl_base :: nat

record 'm scache =
  sc_ctor :: "(nat \<Rightarrow> 'm \<Rightarrow> 'm) option"
  sc_dtor :: "(nat \<Rightarrow> 'm \<Rightarrow> 'm) option"
  sc_full :: "nat option"
  sc_partial :: "nat option"
  sc_empty :: "nat option"
  sc_size :: nat
  sc_truesize :: nat
  sc_alignment :: nat
  slabobjcount :: nat

record 'm sheap =
  slabs :: "nat \<Rightarrow> slab"
  cells :: "nat \<Rightarrow> nat option"
  objmem :: 'm
  mapped :: "nat set"

definition SLAB_INDIRECT_CUTOFF :: nat where "SLAB_INDIRECT_CUTOFF = 512"
definition SLAB_INDIRECT_COUNT :: nat where "SLAB_INDIRECT_COUNT = 16"
definition SLAB_PAGE_OFFSET :: nat where "SLAB_PAGE_OFFSET = 4096 - 40"
definition SLAB_DATA_SIZE :: nat where "SLAB_DATA_SIZE = SLAB_PAGE_OFFSET"

definition page_of :: "nat \<Rightarrow> nat" where
  "page_of x = x - x mod 4096"

definition GET_SLAB :: "nat \<Rightarrow> nat" where
  "GET_SLAB x = page_of x + SLAB_PAGE_OFFSET"

definition upd_slab :: "nat \<Rightarrow> (slab \<Rightarrow> slab) \<Rightarrow> 'm sheap \<Rightarrow> 'm sheap" where
  "upd_slab s f h = h\<lparr>slabs := (slabs h)(s := f (slabs h s))\<rparr>"

definition slnext :: "'m sheap \<Rightarrow> nat \<Rightarrow> nat option" where
  "slnext h s = sl_next (slabs h s)"

definition slprev :: "'m sheap \<Rightarrow> nat \<Rightarrow> nat option" where
  "slprev h s = sl_prev (slabs h s)"

definition set_slnext :: "nat \<Rightarrow> nat option \<Rightarrow> 'm sheap \<Rightarrow> 'm sheap" where
  "set_slnext s v = upd_slab s (\<lambda>x. x\<lparr>sl_next := v\<rparr>)"

definition set_slprev :: "nat \<Rightarrow> nat option \<Rightarrow> 'm sheap \<Rightarrow> 'm sheap" where
  "set_slprev s v = upd_slab s (\<lambda>x. x\<lparr>sl_prev := v\<rparr>)"

definition set_cell :: "nat \<Rightarrow> nat option \<Rightarrow> 'm sheap \<Rightarrow> 'm sheap" where
  "set_cell a v h = h\<lparr>cells := (cells h)(a := v)\<rparr>"

definition direct :: "'m scache \<Rightarrow> bool" where
  "direct cache \<longleftrightarrow> sc_size cache < SLAB_INDIRECT_CUTOFF"

subsection \<open>Operations\<close>

definition construct :: "(nat \<Rightarrow> 'm \<Rightarrow> 'm) option \<Rightarrow> nat \<Rightarrow> 'm sheap \<Rightarrow> 'm sheap" where
  "construct f obj h = (case f of None \<Rightarrow> h | Some g \<Rightarrow> h\<lparr>objmem := g obj (objmem h)\<rparr>)"

text \<open>
  The loop of \<open>initdirect\<close> and \<open>initindirect\<close>: construct the object at each offset and push its cell,
  \<open>cell offset\<close>, on the free list of the slab.
\<close>

function init_loop :: "'m scache \<Rightarrow> (nat \<Rightarrow> nat) \<Rightarrow> (nat \<Rightarrow> nat) \<Rightarrow> nat \<Rightarrow> nat \<Rightarrow> 'm sheap \<Rightarrow> 'm sheap" where
  "init_loop cache obj cell slab offset h =
     (if offset < sc_truesize cache * slabobjcount cache
      then let h = construct (sc_ctor cache) (obj offset) h;
               h = set_cell (cell offset) (sl_free (slabs h slab)) h;
               h = upd_slab slab (\<lambda>x. x\<lparr>sl_free := Some (cell offset)\<rparr>) h
           in init_loop cache obj cell slab (offset + sc_truesize cache) h
      else h)"
  by auto
termination
  by (relation "measure (\<lambda>(cache, obj, cell, slab, offset, h). sc_truesize cache * slabobjcount cache - offset)")
    (auto, metis diff_less_mono2 less_add_same_cancel1 mult_is_0 not_gr_zero not_less_zero)

declare init_loop.simps [simp del]

definition initdirect :: "'m scache \<Rightarrow> nat \<Rightarrow> nat \<Rightarrow> 'm sheap \<Rightarrow> 'm sheap" where
  "initdirect cache slab base h =
     init_loop cache (\<lambda>offset. base + offset) (\<lambda>offset. base + offset + sc_size cache) slab 0
       (upd_slab slab (\<lambda>x. x\<lparr>sl_free := None, sl_used := 0\<rparr>) h)"

definition initindirect :: "'m scache \<Rightarrow> nat \<Rightarrow> nat \<Rightarrow> nat \<Rightarrow> 'm sheap \<Rightarrow> 'm sheap" where
  "initindirect cache slab base objbase h =
     init_loop cache (\<lambda>offset. objbase + offset) (\<lambda>offset. base + 8 * (offset div sc_truesize cache)) slab 0
       (upd_slab slab (\<lambda>x. x\<lparr>sl_free := None, sl_used := 0, sl_base := objbase\<rparr>) h)"

text \<open>\<open>m1\<close> and \<open>m2\<close> are the results of the two \<open>vmm_map\<close> calls.\<close>

definition growcache :: "nat option \<Rightarrow> nat option \<Rightarrow> 'm scache \<Rightarrow> 'm sheap \<Rightarrow> bool \<times> 'm scache \<times> 'm sheap" where
  "growcache m1 m2 cache h =
     (case m1 of
        None \<Rightarrow> (False, cache, h)
      | Some s \<Rightarrow>
          let slab = GET_SLAB s; h = h\<lparr>mapped := insert slab (mapped h)\<rparr>;
              init = (if sc_size cache < SLAB_INDIRECT_CUTOFF then Some (initdirect cache slab s h)
                      else map_option (\<lambda>base. initindirect cache slab s base h) m2)
          in case init of
               None \<Rightarrow> (False, cache, h\<lparr>mapped := mapped h - {slab}\<rparr>)
             | Some h \<Rightarrow>
                 let h = set_slnext slab (sc_empty cache) h;
                     h = set_slprev slab None h;
                     h = (case slnext h slab of Some n \<Rightarrow> set_slprev n (Some slab) h | None \<Rightarrow> h)
                 in (True, cache\<lparr>sc_empty := Some slab\<rparr>, h))"

definition takeobject :: "'m scache \<Rightarrow> nat \<Rightarrow> 'm sheap \<Rightarrow> nat option \<times> 'm sheap" where
  "takeobject cache slab h =
     (case sl_free (slabs h slab) of
        None \<Rightarrow> (None, h)
      | Some objend \<Rightarrow>
          let h = upd_slab slab (\<lambda>x. x\<lparr>sl_free := cells h objend, sl_used := sl_used x + 1\<rparr>) h;
              h = set_cell objend None h
          in (Some (if sc_size cache < SLAB_INDIRECT_CUTOFF then objend - sc_size cache
                    else sl_base (slabs h slab) + (objend - page_of slab) div 8 * sc_truesize cache), h))"

text \<open>The search of \<open>returnobject\<close> for the slab of a large object, full slabs first.\<close>

partial_function (option) find_slab :: "'m scache \<Rightarrow> nat \<Rightarrow> 'm sheap \<Rightarrow> bool \<Rightarrow> nat option \<Rightarrow> nat option option" where
  "find_slab cache obj h partial slab =
     (case slab of
        None \<Rightarrow> Some None
      | Some s \<Rightarrow>
          if sl_base (slabs h s) \<le> obj \<and> obj < sl_base (slabs h s) + slabobjcount cache * sc_truesize cache
          then Some (Some s)
          else if slnext h s = None \<and> \<not> partial then find_slab cache obj h True (sc_partial cache)
          else find_slab cache obj h partial (slnext h s))"

declare find_slab.simps [code]

definition returnobject :: "'m scache \<Rightarrow> nat \<Rightarrow> 'm sheap \<Rightarrow> (nat \<times> 'm sheap) option" where
  "returnobject cache obj h =
     (let found =
        (if sc_size cache < SLAB_INDIRECT_CUTOFF
         then let freeptr = obj + sc_size cache
              in if cells h freeptr \<noteq> None then None else Some (GET_SLAB obj, freeptr)
         else let partial = (sc_full cache = None)
              in case find_slab cache obj h partial (if partial then sc_partial cache else sc_full cache) of
                   Some (Some slab) \<Rightarrow>
                     let objn = (obj - sl_base (slabs h slab)) div sc_truesize cache
                     in Some (slab, page_of slab + 8 * objn)
                 | _ \<Rightarrow> None)
      in case found of
           None \<Rightarrow> None
         | Some (slab, freeptr) \<Rightarrow>
             let h = construct (sc_dtor cache) obj h;
                 h = set_cell freeptr (sl_free (slabs h slab)) h;
                 h = upd_slab slab (\<lambda>x. x\<lparr>sl_free := Some freeptr, sl_used := sl_used x - 1\<rparr>) h
             in Some (slab, h))"

definition slab_allocate :: "nat option \<Rightarrow> nat option \<Rightarrow> 'm scache \<Rightarrow> 'm sheap \<Rightarrow> nat option \<times> 'm scache \<times> 'm sheap" where
  "slab_allocate m1 m2 cache h =
     (let slab = (case sc_partial cache of Some s \<Rightarrow> Some s | None \<Rightarrow> sc_empty cache);
          (slab, cache, h) =
            (case slab of
               Some s \<Rightarrow> (Some s, cache, h)
             | None \<Rightarrow> (case growcache m1 m2 cache h of
                          (True, cache, h) \<Rightarrow> (sc_empty cache, cache, h)
                        | (False, cache, h) \<Rightarrow> (None, cache, h)))
      in case slab of
           None \<Rightarrow> (None, cache, h)
         | Some slab \<Rightarrow>
             let (ret, h) = takeobject cache slab h
             in if Some slab = sc_empty cache
                then let cache = cache\<lparr>sc_empty := slnext h slab\<rparr>;
                         h = (case slnext h slab of Some n \<Rightarrow> set_slprev n None h | None \<Rightarrow> h);
                         h = (case sc_partial cache of Some p \<Rightarrow> set_slprev p (Some slab) h | None \<Rightarrow> h);
                         h = set_slnext slab (sc_partial cache) h;
                         h = set_slprev slab None h
                     in (ret, cache\<lparr>sc_partial := Some slab\<rparr>, h)
                else if sl_used (slabs h slab) = slabobjcount cache
                then let cache = cache\<lparr>sc_partial := slnext h slab\<rparr>;
                         h = (case slnext h slab of Some n \<Rightarrow> set_slprev n None h | None \<Rightarrow> h);
                         h = (case sc_full cache of Some p \<Rightarrow> set_slprev p (Some slab) h | None \<Rightarrow> h);
                         h = set_slnext slab (sc_full cache) h;
                         h = set_slprev slab None h
                     in (ret, cache\<lparr>sc_full := Some slab\<rparr>, h)
                else (ret, cache, h))"

text \<open>The two unlink-and-push blocks of \<open>slab_free\<close>: from \<open>partial\<close> to \<open>empty\<close>, from \<open>full\<close> to \<open>partial\<close>.\<close>

definition move_to_empty :: "nat \<Rightarrow> 'm scache \<Rightarrow> 'm sheap \<Rightarrow> 'm scache \<times> 'm sheap" where
  "move_to_empty slab cache h =
     (let (cache, h) = (case slprev h slab of
            None \<Rightarrow> (cache\<lparr>sc_partial := slnext h slab\<rparr>, h)
          | Some p \<Rightarrow> (cache, set_slnext p (slnext h slab) h));
          h = (case slnext h slab of Some n \<Rightarrow> set_slprev n (slprev h slab) h | None \<Rightarrow> h);
          h = set_slnext slab (sc_empty cache) h;
          h = set_slprev slab None h;
          h = (case slnext h slab of Some n \<Rightarrow> set_slprev n (Some slab) h | None \<Rightarrow> h)
      in (cache\<lparr>sc_empty := Some slab\<rparr>, h))"

definition move_to_partial :: "nat \<Rightarrow> 'm scache \<Rightarrow> 'm sheap \<Rightarrow> 'm scache \<times> 'm sheap" where
  "move_to_partial slab cache h =
     (let (cache, h) = (case slprev h slab of
            None \<Rightarrow> (cache\<lparr>sc_full := slnext h slab\<rparr>, h)
          | Some p \<Rightarrow> (cache, set_slnext p (slnext h slab) h));
          h = (case slnext h slab of Some n \<Rightarrow> set_slprev n (slprev h slab) h | None \<Rightarrow> h);
          h = set_slnext slab (sc_partial cache) h;
          h = set_slprev slab None h;
          h = (case slnext h slab of Some n \<Rightarrow> set_slprev n (Some slab) h | None \<Rightarrow> h)
      in (cache\<lparr>sc_partial := Some slab\<rparr>, h))"

definition slab_free :: "'m scache \<Rightarrow> nat \<Rightarrow> 'm sheap \<Rightarrow> ('m scache \<times> 'm sheap) option" where
  "slab_free cache addr h =
     (case returnobject cache addr h of
        None \<Rightarrow> None
      | Some (slab, h) \<Rightarrow>
          let (cache, h) = (if sl_used (slabs h slab) = 0 then move_to_empty slab cache h else (cache, h))
          in Some (if sl_used (slabs h slab) = slabobjcount cache - 1 then move_to_partial slab cache h
                   else (cache, h)))"

definition round_up :: "nat \<Rightarrow> nat \<Rightarrow> nat" where
  "round_up v n = (v + n - 1) - (v + n - 1) mod n"

text \<open>\<open>obj\<close> is the storage that \<open>slab_allocate(&selfcache)\<close> returned.\<close>

definition slab_newcache :: "nat option \<Rightarrow> nat \<Rightarrow> nat \<Rightarrow> (nat \<Rightarrow> 'm \<Rightarrow> 'm) option \<Rightarrow> (nat \<Rightarrow> 'm \<Rightarrow> 'm) option
    \<Rightarrow> (nat \<times> 'm scache) option" where
  "slab_newcache obj sz alignment ctor dtor =
     (let alignment = (if alignment = 0 then 8 else alignment)
      in case obj of
           None \<Rightarrow> None
         | Some c \<Rightarrow>
             let freeptrsize = (if sz < SLAB_INDIRECT_CUTOFF then 8 else 0);
                 truesize = round_up (sz + freeptrsize) alignment
             in Some (c, \<lparr>sc_ctor = ctor, sc_dtor = dtor, sc_full = None, sc_partial = None, sc_empty = None,
                  sc_size = sz, sc_truesize = truesize, sc_alignment = alignment,
                  slabobjcount = (if sz < SLAB_INDIRECT_CUTOFF then SLAB_DATA_SIZE div truesize
                                  else SLAB_INDIRECT_COUNT)\<rparr>))"

text \<open>\<open>purge\<close>; \<open>n\<close> counts the iterations that are left.\<close>

fun purge_loop :: "'m scache \<Rightarrow> nat option \<Rightarrow> nat \<Rightarrow> nat \<Rightarrow> 'm sheap \<Rightarrow> (nat \<times> 'm scache \<times> 'm sheap) option" where
  "purge_loop cache slab count 0 h = Some (count, cache, h)"
| "purge_loop cache slab count (Suc n) h =
     (case slab of
        None \<Rightarrow> Some (count, cache, h)
      | Some s \<Rightarrow>
          if s \<notin> mapped h then None
          else
            let nxt = slnext h s;
                h = (case nxt of Some n \<Rightarrow> set_slprev n None h | None \<Rightarrow> h);
                h = h\<lparr>mapped := mapped h - {s}\<rparr>;
                slab = sc_empty cache;
                cache = cache\<lparr>sc_empty := nxt\<rparr>
            in purge_loop cache slab (Suc count) n h)"

definition purge :: "'m scache \<Rightarrow> nat \<Rightarrow> 'm sheap \<Rightarrow> (nat \<times> 'm scache \<times> 'm sheap) option" where
  "purge cache maxcount h = purge_loop cache (sc_empty cache) 0 maxcount h"

definition slab_freecache :: "'m scache \<Rightarrow> 'm sheap \<Rightarrow> 'm sheap option" where
  "slab_freecache cache h =
     (if sc_partial cache \<noteq> None \<or> sc_full cache \<noteq> None then None
      else map_option (\<lambda>(_, _, h). h) (purge cache (2 ^ 64 - 1) h))"

interpretation slablist: dll_heap slnext slprev set_slnext set_slprev
  by unfold_locales (auto simp: slnext_def slprev_def set_slnext_def set_slprev_def upd_slab_def fun_eq_iff)

subsection \<open>Layout\<close>

definition cellat :: "'m scache \<Rightarrow> nat \<Rightarrow> nat \<Rightarrow> nat" where
  "cellat cache s k =
     (if direct cache then page_of s + k * sc_truesize cache + sc_size cache else page_of s + 8 * k)"

definition objat :: "'m scache \<Rightarrow> 'm sheap \<Rightarrow> nat \<Rightarrow> nat \<Rightarrow> nat" where
  "objat cache h s k = (if direct cache then page_of s else sl_base (slabs h s)) + k * sc_truesize cache"

definition cache_ok :: "'m scache \<Rightarrow> bool" where
  "cache_ok cache \<longleftrightarrow> 2 \<le> slabobjcount cache \<and>
     (if direct cache then sc_size cache + 8 \<le> sc_truesize cache
        \<and> slabobjcount cache * sc_truesize cache \<le> SLAB_DATA_SIZE
      else sc_size cache \<le> sc_truesize cache \<and> slabobjcount cache * 8 \<le> SLAB_DATA_SIZE)"

definition is_slab :: "nat \<Rightarrow> bool" where
  "is_slab s \<longleftrightarrow> s mod 4096 = SLAB_PAGE_OFFSET"

lemma is_slab_page: "is_slab s \<Longrightarrow> s = page_of s + SLAB_PAGE_OFFSET"
  by (metis add_diff_inverse_nat is_slab_def less_iff_succ_less_eq mod_less_eq_dividend not_less page_of_def
      diff_add_inverse2 add.commute le_add_diff_inverse)

lemma page_of_eq: "page_of s = 4096 * (s div 4096)"
  by (simp add: page_of_def minus_mod_eq_mult_div)

lemma page_of_add: "x < 4096 \<Longrightarrow> page_of (page_of s + x) = page_of s"
  by (simp add: page_of_eq)

lemma GET_SLAB_in_page: "is_slab s \<Longrightarrow> x < 4096 \<Longrightarrow> GET_SLAB (page_of s + x) = s"
  by (simp add: GET_SLAB_def page_of_add is_slab_page [symmetric])

lemma is_slab_GET_SLAB: "is_slab (GET_SLAB x)"
  by (simp add: is_slab_def GET_SLAB_def page_of_eq SLAB_PAGE_OFFSET_def)

lemma cache_ok_truesize: "cache_ok cache \<Longrightarrow> direct cache \<or> sc_size cache \<noteq> 0 \<Longrightarrow> 0 < sc_truesize cache"
  by (auto simp: cache_ok_def split: if_splits)

lemma truesize_pos: "cache_ok cache \<Longrightarrow> 0 < sc_truesize cache"
  by (rule cache_ok_truesize) (auto simp: direct_def SLAB_INDIRECT_CUTOFF_def)

lemma mult_Suc_le: "k < n \<Longrightarrow> k * t + t \<le> n * (t :: nat)"
  by (metis Suc_leI add.commute mult_Suc mult_le_mono1)

lemma cell_offset:
  assumes "cache_ok cache" and "k < slabobjcount cache"
  shows "\<exists>x. cellat cache s k = page_of s + x \<and> x + 8 \<le> SLAB_DATA_SIZE"
proof (cases "direct cache")
  case True
  have "k * sc_truesize cache + sc_truesize cache \<le> slabobjcount cache * sc_truesize cache"
    by (rule mult_Suc_le [OF assms(2)])
  with True assms(1) show ?thesis
    by (intro exI [of _ "k * sc_truesize cache + sc_size cache"]) (simp add: cellat_def cache_ok_def)
next
  case False
  with assms mult_Suc_le [OF assms(2), of 8] show ?thesis
    by (intro exI [of _ "8 * k"]) (simp add: cellat_def cache_ok_def)
qed

lemma cellat_inj:
  assumes "cache_ok cache" and "is_slab s" "is_slab s'" and "k < slabobjcount cache" "k' < slabobjcount cache"
    and "cellat cache s k = cellat cache s' k'"
  shows "s = s' \<and> k = k'"
proof -
  obtain x x' where x: "cellat cache s k = page_of s + x" "x < 4096" "cellat cache s' k' = page_of s' + x'" "x' < 4096"
    using cell_offset [OF assms(1,4), of s] cell_offset [OF assms(1,5), of s']
    by (auto simp: SLAB_DATA_SIZE_def SLAB_PAGE_OFFSET_def)
  have "page_of s = page_of s'" using x page_of_add assms(6) by metis
  then have "s = s'" using is_slab_page assms(2,3) by metis
  moreover have "k = k'" using assms(6) truesize_pos [OF assms(1)] unfolding \<open>s = s'\<close>
    by (auto simp: cellat_def split: if_splits)
  ultimately show ?thesis ..
qed

subsection \<open>Well-formed slabs\<close>

fun cpath :: "(nat \<Rightarrow> nat option) \<Rightarrow> nat option \<Rightarrow> nat list \<Rightarrow> bool" where
  "cpath c x [] \<longleftrightarrow> x = None"
| "cpath c x (a # as) \<longleftrightarrow> x = Some a \<and> cpath c (c a) as"

lemma cpath_frame: "(\<And>a. a \<in> set as \<Longrightarrow> c' a = c a) \<Longrightarrow> cpath c' x as = cpath c x as"
  by (induction as arbitrary: x) auto

lemma cpath_map_frame: "(\<And>k. k \<in> set fr \<Longrightarrow> c' (f k) = c (f k)) \<Longrightarrow> cpath c' x (map f fr) = cpath c x (map f fr)"
  by (rule cpath_frame) auto

text \<open>\<open>fr\<close> lists the free objects of slab \<open>s\<close>, by number, in the order of the free list.\<close>

definition slab_ok :: "'m scache \<Rightarrow> 'm sheap \<Rightarrow> nat \<Rightarrow> nat list \<Rightarrow> bool" where
  "slab_ok cache h s fr \<longleftrightarrow> is_slab s \<and> s \<in> mapped h \<and> distinct fr \<and> set fr \<subseteq> {..< slabobjcount cache}
     \<and> sl_used (slabs h s) + length fr = slabobjcount cache
     \<and> cpath (cells h) (sl_free (slabs h s)) (map (cellat cache s) fr)
     \<and> (\<forall>k < slabobjcount cache. k \<notin> set fr \<longrightarrow> cells h (cellat cache s k) = None)"

lemma slab_ok_frame:
  assumes "slab_ok cache h s fr" and "sl_used (slabs h' s) = sl_used (slabs h s)"
    and "sl_free (slabs h' s) = sl_free (slabs h s)" and "s \<in> mapped h'"
    and "\<And>k. k < slabobjcount cache \<Longrightarrow> cells h' (cellat cache s k) = cells h (cellat cache s k)"
  shows "slab_ok cache h' s fr"
proof -
  have "cpath (cells h') (sl_free (slabs h s)) (map (cellat cache s) fr)
      = cpath (cells h) (sl_free (slabs h s)) (map (cellat cache s) fr)"
    using assms(1,5) by (intro cpath_map_frame) (auto simp: slab_ok_def)
  with assms show ?thesis by (simp add: slab_ok_def)
qed

text \<open>What the list operations leave alone.\<close>

definition linkless :: "'m sheap \<Rightarrow> 'm sheap" where
  "linkless h = h\<lparr>slabs := (\<lambda>s. (slabs h s)\<lparr>sl_next := None, sl_prev := None\<rparr>)\<rparr>"

lemma linkless_set [simp]:
  "linkless (set_slnext s v h) = linkless h" "linkless (set_slprev s v h) = linkless h"
  by (auto simp: linkless_def set_slnext_def set_slprev_def upd_slab_def fun_eq_iff)

lemma linkless_case [simp]:
  "linkless (case x of None \<Rightarrow> h | Some q \<Rightarrow> set_slnext q (f q) h) = linkless h"
  "linkless (case x of None \<Rightarrow> h | Some q \<Rightarrow> set_slprev q (f q) h) = linkless h"
  by (simp_all split: option.split)

lemma linkless_eqD:
  assumes "linkless h' = linkless h"
  shows "cells h' = cells h" "objmem h' = objmem h" "mapped h' = mapped h" "sl_used (slabs h' s) = sl_used (slabs h s)"
    "sl_free (slabs h' s) = sl_free (slabs h s)" "sl_base (slabs h' s) = sl_base (slabs h s)"
proof -
  from assms have "slabs (linkless h') s = slabs (linkless h) s" by simp
  then show "sl_used (slabs h' s) = sl_used (slabs h s)" "sl_free (slabs h' s) = sl_free (slabs h s)"
    "sl_base (slabs h' s) = sl_base (slabs h s)"
    by (cases "slabs h' s"; cases "slabs h s"; simp add: linkless_def)+
  show "cells h' = cells h" "objmem h' = objmem h" "mapped h' = mapped h"
    using assms by (cases h'; cases h; simp add: linkless_def)+
qed

lemma slab_ok_linkless:
  assumes "slab_ok cache h s fr" and "linkless h' = linkless h"
  shows "slab_ok cache h' s fr"
  using assms(1) by (rule slab_ok_frame) (use assms(1) in \<open>simp_all add: linkless_eqD [OF assms(2)] slab_ok_def\<close>)

lemma linkless_links [simp]:
  "slnext (set_cell a v h) = slnext h" "slprev (set_cell a v h) = slprev h"
  "slnext (construct f x h) = slnext h" "slprev (construct f x h) = slprev h"
  by (auto simp: slnext_def slprev_def set_cell_def construct_def fun_eq_iff split: option.split)

subsection \<open>Taking and returning an object\<close>

lemma takeobject_ok:
  assumes c: "cache_ok cache" and ok: "slab_ok cache h s (k # fr)" and t: "takeobject cache s h = (ret, h')"
  shows "ret = Some (objat cache h s k)" and "slab_ok cache h' s fr"
    and "sl_used (slabs h' s) = sl_used (slabs h s) + 1"
    and "slnext h' = slnext h" "slprev h' = slprev h" "mapped h' = mapped h" "sl_base (slabs h' x) = sl_base (slabs h x)"
    and "slab_ok cache h u fu \<Longrightarrow> u \<noteq> s \<Longrightarrow> slab_ok cache h' u fu \<and> sl_used (slabs h' u) = sl_used (slabs h u)"
proof -
  have s: "is_slab s" "k < slabobjcount cache" "k \<notin> set fr" "sl_free (slabs h s) = Some (cellat cache s k)"
    "cpath (cells h) (cells h (cellat cache s k)) (map (cellat cache s) fr)" "set fr \<subseteq> {..< slabobjcount cache}"
    using ok by (auto simp: slab_ok_def)
  define h1 where "h1 = upd_slab s (\<lambda>x. x\<lparr>sl_free := cells h (cellat cache s k), sl_used := sl_used x + 1\<rparr>) h"
  have h': "h' = set_cell (cellat cache s k) None h1"
    and ret: "ret = Some (if direct cache then cellat cache s k - sc_size cache
        else sl_base (slabs h s) + (cellat cache s k - page_of s) div 8 * sc_truesize cache)"
    using t by (auto simp: takeobject_def s(4) h1_def Let_def direct_def set_cell_def upd_slab_def)
  show "ret = Some (objat cache h s k)" by (simp add: ret objat_def cellat_def)
  have cell: "cells h' (cellat cache u j) = cells h (cellat cache u j)"
    if "is_slab u" "j < slabobjcount cache" "u \<noteq> s \<or> j \<noteq> k" for u j
    using cellat_inj [OF c that(1) s(1) that(2) s(2)] that(3) by (auto simp: h' h1_def set_cell_def upd_slab_def)
  have "cpath (cells h') (cells h (cellat cache s k)) (map (cellat cache s) fr)"
    using s cell [OF s(1)] by (subst cpath_map_frame [of _ "cells h'" _ "cells h"]) auto
  moreover have "cells h' (cellat cache s k) = None" by (simp add: h' set_cell_def)
  ultimately show "slab_ok cache h' s fr"
    using ok cell [OF s(1)] by (auto simp: slab_ok_def h' h1_def upd_slab_def set_cell_def)
  show "sl_used (slabs h' s) = sl_used (slabs h s) + 1" "slnext h' = slnext h" "slprev h' = slprev h" "mapped h' = mapped h"
      "sl_base (slabs h' x) = sl_base (slabs h x)"
    by (auto simp: h' h1_def set_cell_def upd_slab_def slnext_def slprev_def fun_eq_iff)
  show "slab_ok cache h' u fu \<and> sl_used (slabs h' u) = sl_used (slabs h u)" if "slab_ok cache h u fu" "u \<noteq> s"
  proof -
    have u: "is_slab u" "u \<in> mapped h" using that(1) by (auto simp: slab_ok_def)
    have "sl_used (slabs h' u) = sl_used (slabs h u)" "sl_free (slabs h' u) = sl_free (slabs h u)" "u \<in> mapped h'"
      using that(2) u(2) by (simp_all add: h' h1_def set_cell_def upd_slab_def)
    with slab_ok_frame [OF that(1) this] cell [OF u(1)] that(2) show ?thesis by blast
  qed
qed

lemma give_back:
  assumes c: "cache_ok cache" and ok: "slab_ok cache h s fr" and k: "k < slabobjcount cache" "k \<notin> set fr"
    and h': "h' = upd_slab s (\<lambda>x. x\<lparr>sl_free := Some (cellat cache s k), sl_used := sl_used x - 1\<rparr>)
      (set_cell (cellat cache s k) (sl_free (slabs h s)) (construct f obj h))"
  shows "slab_ok cache h' s (k # fr)" and "sl_used (slabs h' s) = sl_used (slabs h s) - 1"
    and "slnext h' = slnext h" "slprev h' = slprev h" "mapped h' = mapped h" "sl_base (slabs h' x) = sl_base (slabs h x)"
    and "slab_ok cache h u fu \<Longrightarrow> u \<noteq> s \<Longrightarrow> slab_ok cache h' u fu \<and> sl_used (slabs h' u) = sl_used (slabs h u)"
proof -
  have s: "is_slab s" "s \<in> mapped h" "set fr \<subseteq> {..< slabobjcount cache}" "distinct fr"
    "sl_used (slabs h s) + length fr = slabobjcount cache"
    "cpath (cells h) (sl_free (slabs h s)) (map (cellat cache s) fr)"
    using ok by (auto simp: slab_ok_def)
  have cons: "slabs (construct f obj h) = slabs h" "cells (construct f obj h) = cells h" "mapped (construct f obj h) = mapped h"
    by (simp_all add: construct_def split: option.split)
  note defs = h' set_cell_def upd_slab_def cons
  have cell: "cells h' (cellat cache u j) = cells h (cellat cache u j)"
    if "is_slab u" "j < slabobjcount cache" "u \<noteq> s \<or> j \<noteq> k" for u j
    using cellat_inj [OF c that(1) s(1) that(2) k(1)] that(3) by (auto simp: defs)
  have "length (k # fr) \<le> slabobjcount cache"
    using card_mono [of "{..< slabobjcount cache}" "set (k # fr)"] s(3,4) k by (simp add: distinct_card)
  then have used: "sl_used (slabs h s) - 1 + length (k # fr) = slabobjcount cache" using s(5) by simp
  have "cpath (cells h') (sl_free (slabs h s)) (map (cellat cache s) fr)"
    using s(1,3,6) k cell [OF s(1)] by (subst cpath_map_frame [of _ "cells h'" _ "cells h"]) auto
  then have "cpath (cells h') (sl_free (slabs h' s)) (map (cellat cache s) (k # fr))" by (simp add: defs)
  moreover have "cells h' (cellat cache s j) = None" if "j < slabobjcount cache" "j \<notin> set (k # fr)" for j
    using that cell [OF s(1) that(1)] ok by (auto simp: slab_ok_def)
  moreover have "sl_used (slabs h' s) = sl_used (slabs h s) - 1" "mapped h' = mapped h" by (simp_all add: defs)
  ultimately show "slab_ok cache h' s (k # fr)"
    using s(1-4) k used unfolding slab_ok_def by simp
  show "sl_used (slabs h' s) = sl_used (slabs h s) - 1" "slnext h' = slnext h" "slprev h' = slprev h" "mapped h' = mapped h"
      "sl_base (slabs h' x) = sl_base (slabs h x)"
    by (auto simp: defs slnext_def slprev_def fun_eq_iff)
  show "slab_ok cache h' u fu \<and> sl_used (slabs h' u) = sl_used (slabs h u)" if "slab_ok cache h u fu" "u \<noteq> s"
  proof -
    have u: "is_slab u" "u \<in> mapped h" using that(1) by (auto simp: slab_ok_def)
    have "sl_used (slabs h' u) = sl_used (slabs h u)" "sl_free (slabs h' u) = sl_free (slabs h u)" "u \<in> mapped h'"
      using that(2) u(2) by (simp_all add: defs)
    with slab_ok_frame [OF that(1) this] cell [OF u(1)] that(2) show ?thesis by blast
  qed
qed

definition holds_obj :: "'m scache \<Rightarrow> 'm sheap \<Rightarrow> nat \<Rightarrow> nat \<Rightarrow> bool" where
  "holds_obj cache h obj s \<longleftrightarrow>
     sl_base (slabs h s) \<le> obj \<and> obj < sl_base (slabs h s) + slabobjcount cache * sc_truesize cache"

lemma find_slab_None [simp]: "find_slab cache obj h partial None = Some None"
  by (simp add: find_slab.simps)

lemma find_slab_Some:
  "find_slab cache obj h partial (Some s) =
     (if holds_obj cache h obj s then Some (Some s)
      else if slnext h s = None \<and> \<not> partial then find_slab cache obj h True (sc_partial cache)
      else find_slab cache obj h partial (slnext h s))"
  by (subst find_slab.simps) (simp add: holds_obj_def)

lemma find_slab_partial:
  "dseg (slnext h) pv a x ss b None \<Longrightarrow> find_slab cache obj h True x = Some (find (holds_obj cache h obj) ss)"
  by (induction ss arbitrary: a x) (auto simp: find_slab_Some)

lemma find_slab_full:
  assumes "dseg (slnext h) pv a x ss b None" and "dchain (slnext h) (slprev h) (sc_partial cache) P" and "ss \<noteq> []"
  shows "find_slab cache obj h False x = Some (find (holds_obj cache h obj) (ss @ P))"
  using assms
proof (induction ss arbitrary: a x)
  case (Cons s ss)
  have P: "find_slab cache obj h True (sc_partial cache) = Some (find (holds_obj cache h obj) P)"
    using assms(2) by (auto simp: dchain_def dllist_def intro: find_slab_partial)
  from Cons.prems have x: "x = Some s" "dseg (slnext h) pv (Some s) (slnext h s) ss b None" by auto
  show ?case
  proof (cases ss)
    case Nil
    with x P show ?thesis by (auto simp: find_slab_Some)
  next
    case (Cons s' ss')
    with x(2) have "slnext h s = Some s'" by auto
    with x Cons.IH [OF x(2) Cons.prems(2)] Cons show ?thesis by (simp add: find_slab_Some)
  qed
qed simp

subsection \<open>Initialising a slab\<close>

lemma init_loop_ok:
  assumes ts: "0 < sc_truesize cache" and i: "i \<le> slabobjcount cache"
    and inj: "\<And>j k. j < slabobjcount cache \<Longrightarrow> k < slabobjcount cache \<Longrightarrow>
      cell (j * sc_truesize cache) = cell (k * sc_truesize cache) \<Longrightarrow> j = k"
    and path: "cpath (cells h) (sl_free (slabs h s)) (map (\<lambda>k. cell (k * sc_truesize cache)) (rev [0..<i]))"
    and h': "h' = init_loop cache obj cell s (i * sc_truesize cache) h"
  shows "cpath (cells h') (sl_free (slabs h' s)) (map (\<lambda>k. cell (k * sc_truesize cache)) (rev [0..< slabobjcount cache]))
    \<and> sl_used (slabs h' s) = sl_used (slabs h s) \<and> sl_base (slabs h' s) = sl_base (slabs h s)
    \<and> slnext h' = slnext h \<and> slprev h' = slprev h \<and> mapped h' = mapped h
    \<and> (\<forall>u. u \<noteq> s \<longrightarrow> slabs h' u = slabs h u)
    \<and> (\<forall>a. (\<forall>k < slabobjcount cache. a \<noteq> cell (k * sc_truesize cache)) \<longrightarrow> cells h' a = cells h a)"
  using i path h'
proof (induction "slabobjcount cache - i" arbitrary: i h)
  case 0
  then have "i = slabobjcount cache" by simp
  with 0 show ?case by (subst (asm) init_loop.simps) (simp add: mult.commute)
next
  case (Suc m)
  let ?c = "\<lambda>k. cell (k * sc_truesize cache)"
  from Suc(2) have i: "i < slabobjcount cache" by simp
  define h1 where "h1 = construct (sc_ctor cache) (obj (i * sc_truesize cache)) h"
  define h2 where "h2 = upd_slab s (\<lambda>x. x\<lparr>sl_free := Some (?c i)\<rparr>) (set_cell (?c i) (sl_free (slabs h1 s)) h1)"
  have h1: "cells h1 = cells h" "slabs h1 = slabs h" "mapped h1 = mapped h"
    by (simp_all add: h1_def construct_def split: option.split)
  have h': "h' = init_loop cache obj cell s (Suc i * sc_truesize cache) h2"
    using Suc.prems(3) i ts
    by (subst (asm) init_loop.simps) (simp add: h1_def h2_def Let_def mult.commute add.commute)
  have ne: "?c k \<noteq> ?c i" if "k < i" for k using inj [of k i] that i by auto
  have "cpath (cells h2) (sl_free (slabs h s)) (map ?c (rev [0..<i]))
      = cpath (cells h) (sl_free (slabs h s)) (map ?c (rev [0..<i]))"
    by (intro cpath_map_frame) (simp add: h2_def set_cell_def upd_slab_def h1 ne)
  with Suc.prems(2) have path: "cpath (cells h2) (sl_free (slabs h2 s)) (map ?c (rev [0..<Suc i]))"
    by (simp add: h2_def set_cell_def upd_slab_def h1)
  have same: "sl_used (slabs h2 s) = sl_used (slabs h s)" "sl_base (slabs h2 s) = sl_base (slabs h s)"
    "slnext h2 = slnext h" "slprev h2 = slprev h" "mapped h2 = mapped h" "u \<noteq> s \<Longrightarrow> slabs h2 u = slabs h u"
    "a \<noteq> ?c i \<Longrightarrow> cells h2 a = cells h a" for u a
    by (auto simp: h2_def set_cell_def upd_slab_def h1 slnext_def slprev_def fun_eq_iff)
  have "m = slabobjcount cache - Suc i" "Suc i \<le> slabobjcount cache" using Suc(2) i by simp_all
  from Suc(1) [OF this path h'] same i show ?case by simp
qed

lemma slab_ok_initialised:
  assumes c: "cache_ok cache" and s: "is_slab s" "s \<in> mapped h'" and u: "sl_used (slabs h' s) = 0"
    and p: "cpath (cells h') (sl_free (slabs h' s)) (map (cellat cache s) (rev [0..< slabobjcount cache]))"
  shows "slab_ok cache h' s (rev [0..< slabobjcount cache])"
  using assms by (auto simp: slab_ok_def)

text \<open>What a new slab changes: its own header and cells.\<close>

lemma init_slab:
  assumes c: "cache_ok cache" and s: "p mod 4096 = 0" "s = GET_SLAB p" "s \<in> mapped h"
    and h': "h' = (if direct cache then initdirect cache s p h else initindirect cache s p b h)"
  shows "slab_ok cache h' s (rev [0..< slabobjcount cache])" and "sl_used (slabs h' s) = 0"
    and "\<not> direct cache \<Longrightarrow> sl_base (slabs h' s) = b" and "slnext h' = slnext h" and "slprev h' = slprev h"
    and "mapped h' = mapped h" and "u \<noteq> s \<Longrightarrow> slabs h' u = slabs h u"
    and "u \<noteq> s \<Longrightarrow> slab_ok cache h u fu \<Longrightarrow> slab_ok cache h' u fu"
proof -
  have sl: "is_slab s" by (simp add: s(2) is_slab_GET_SLAB)
  have "page_of p = p" using s(1) by (simp add: page_of_def)
  then have "p = page_of s"
    using page_of_add [of SLAB_PAGE_OFFSET p] by (simp add: s(2) GET_SLAB_def SLAB_PAGE_OFFSET_def)
  define cell where
    "cell offset = (if direct cache then p + offset + sc_size cache else p + 8 * (offset div sc_truesize cache))" for offset
  have cellat: "cell (k * sc_truesize cache) = cellat cache s k" for k
    using truesize_pos [OF c] \<open>p = page_of s\<close> by (simp add: cell_def cellat_def)
  define h0 where "h0 = upd_slab s (\<lambda>x. if direct cache then x\<lparr>sl_free := None, sl_used := 0\<rparr>
      else x\<lparr>sl_free := None, sl_used := 0, sl_base := b\<rparr>) h"
  have "\<exists>obj. h' = init_loop cache obj cell s (0 * sc_truesize cache) h0"
    by (auto simp: h' initdirect_def initindirect_def cell_def [abs_def] h0_def)
  then obtain obj where h': "h' = init_loop cache obj cell s (0 * sc_truesize cache) h0" ..
  have h0: "slnext h0 = slnext h" "slprev h0 = slprev h" "mapped h0 = mapped h" "cells h0 = cells h"
      "u \<noteq> s \<Longrightarrow> slabs h0 u = slabs h u" "sl_used (slabs h0 s) = 0" "sl_free (slabs h0 s) = None"
      "\<not> direct cache \<Longrightarrow> sl_base (slabs h0 s) = b" for u
    by (auto simp: h0_def upd_slab_def slnext_def slprev_def fun_eq_iff)
  have inj: "cell (j * sc_truesize cache) = cell (k * sc_truesize cache) \<Longrightarrow> j = k"
    if "j < slabobjcount cache" "k < slabobjcount cache" for j k
    using cellat_inj [OF c sl sl that] by (simp add: cellat)
  have path: "cpath (cells h0) (sl_free (slabs h0 s)) (map (\<lambda>k. cell (k * sc_truesize cache)) (rev [0..<0]))"
    by (simp add: h0)
  note L = init_loop_ok [OF truesize_pos [OF c] _ inj path h', simplified cellat]
  from L show "slab_ok cache h' s (rev [0..< slabobjcount cache])"
    using s(3) by (intro slab_ok_initialised [OF c sl]) (simp_all add: h0)
  from L h0 show "sl_used (slabs h' s) = 0" "\<not> direct cache \<Longrightarrow> sl_base (slabs h' s) = b" "slnext h' = slnext h"
    "slprev h' = slprev h" "mapped h' = mapped h" "u \<noteq> s \<Longrightarrow> slabs h' u = slabs h u" by auto
  show "slab_ok cache h' u fu" if "u \<noteq> s" "slab_ok cache h u fu"
  proof (rule slab_ok_frame [OF that(2)])
    have u: "is_slab u" using that(2) by (simp add: slab_ok_def)
    show "cells h' (cellat cache u k) = cells h (cellat cache u k)" if "k < slabobjcount cache" for k
    proof -
      have "\<forall>j < slabobjcount cache. cellat cache u k \<noteq> cellat cache s j"
        using cellat_inj [OF c u sl that] \<open>u \<noteq> s\<close> by blast
      with L show ?thesis by (simp add: h0)
    qed
  qed (use that L h0 in \<open>auto simp: slab_ok_def\<close>)
qed

subsection \<open>Well-formed caches\<close>

definition bases_apart :: "'m scache \<Rightarrow> 'm sheap \<Rightarrow> nat set \<Rightarrow> bool" where
  "bases_apart cache h S \<longleftrightarrow> direct cache \<or>
     (\<forall>s\<in>S. \<forall>s'\<in>S. s \<noteq> s' \<longrightarrow>
        sl_base (slabs h s) + slabobjcount cache * sc_truesize cache \<le> sl_base (slabs h s') \<or>
        sl_base (slabs h s') + slabobjcount cache * sc_truesize cache \<le> sl_base (slabs h s))"

text \<open>\<open>E\<close>, \<open>P\<close> and \<open>F\<close> are the empty, partial and full slabs; \<open>fr s\<close> the free objects of slab \<open>s\<close>.\<close>

definition cache_inv :: "'m scache \<Rightarrow> 'm sheap \<Rightarrow> nat list \<Rightarrow> nat list \<Rightarrow> nat list \<Rightarrow> (nat \<Rightarrow> nat list) \<Rightarrow> bool" where
  "cache_inv cache h E P F fr \<longleftrightarrow> cache_ok cache
     \<and> dchain (slnext h) (slprev h) (sc_empty cache) E \<and> dchain (slnext h) (slprev h) (sc_partial cache) P
     \<and> dchain (slnext h) (slprev h) (sc_full cache) F \<and> distinct (E @ P @ F)
     \<and> (\<forall>s\<in>set (E @ P @ F). slab_ok cache h s (fr s))
     \<and> (\<forall>s\<in>set E. sl_used (slabs h s) = 0)
     \<and> (\<forall>s\<in>set P. 0 < sl_used (slabs h s) \<and> sl_used (slabs h s) < slabobjcount cache)
     \<and> (\<forall>s\<in>set F. sl_used (slabs h s) = slabobjcount cache)
     \<and> bases_apart cache h (set (E @ P @ F))"

definition live :: "'m scache \<Rightarrow> 'm sheap \<Rightarrow> nat list \<Rightarrow> (nat \<Rightarrow> nat list) \<Rightarrow> nat set" where
  "live cache h S fr = {objat cache h s k |s k. s \<in> set S \<and> k < slabobjcount cache \<and> k \<notin> set (fr s)}"

lemma objat_bounds:
  assumes "k < slabobjcount cache"
  shows "objat cache h s 0 \<le> objat cache h s k"
    and "objat cache h s k + sc_truesize cache \<le> objat cache h s 0 + slabobjcount cache * sc_truesize cache"
  using mult_Suc_le [OF assms, of "sc_truesize cache"] by (simp_all add: objat_def)

lemma objects_apart:
  assumes c: "cache_ok cache" and s: "is_slab s" "is_slab s'" "s \<in> S" "s' \<in> S" and b: "bases_apart cache h S"
    and k: "k < slabobjcount cache" "k' < slabobjcount cache" and ne: "s \<noteq> s' \<or> k \<noteq> k'"
  shows "objat cache h s k + sc_truesize cache \<le> objat cache h s' k' \<or>
    objat cache h s' k' + sc_truesize cache \<le> objat cache h s k"
proof (cases "s = s'")
  case True
  with ne consider "k < k'" | "k' < k" by linarith
  then show ?thesis
    unfolding True by cases (auto dest: mult_Suc_le [of _ _ "sc_truesize cache"] simp: objat_def)
next
  case False
  have "objat cache h s 0 + slabobjcount cache * sc_truesize cache \<le> objat cache h s' 0 \<or>
    objat cache h s' 0 + slabobjcount cache * sc_truesize cache \<le> objat cache h s 0"
  proof (cases "direct cache")
    case True
    have "s div 4096 \<noteq> s' div 4096"
      using False is_slab_page [OF s(1)] is_slab_page [OF s(2)] by (metis page_of_eq)
    moreover have "slabobjcount cache * sc_truesize cache \<le> 4096"
      using c True by (simp add: cache_ok_def SLAB_DATA_SIZE_def SLAB_PAGE_OFFSET_def)
    ultimately show ?thesis using True by (simp add: objat_def page_of_eq) linarith
  next
    case ind: False
    with b s(3,4) False show ?thesis by (auto simp: bases_apart_def objat_def)
  qed
  with objat_bounds [OF k(1), of h s] objat_bounds [OF k(2), of h s'] show ?thesis by linarith
qed

lemma objat_inj:
  assumes "cache_ok cache" and "is_slab s" "is_slab s'" "s \<in> S" "s' \<in> S" and "bases_apart cache h S"
    and "k < slabobjcount cache" "k' < slabobjcount cache" and "objat cache h s k = objat cache h s' k'"
  shows "s = s' \<and> k = k'"
  using objects_apart [OF assms(1-8)] assms(9) truesize_pos [OF assms(1)] by auto

lemma geometry [simp]:
  "direct (c\<lparr>sc_empty := x\<rparr>) = direct c" "direct (c\<lparr>sc_partial := x\<rparr>) = direct c" "direct (c\<lparr>sc_full := x\<rparr>) = direct c"
  "cellat (c\<lparr>sc_empty := x\<rparr>) = cellat c" "cellat (c\<lparr>sc_partial := x\<rparr>) = cellat c" "cellat (c\<lparr>sc_full := x\<rparr>) = cellat c"
  "objat (c\<lparr>sc_empty := x\<rparr>) = objat c" "objat (c\<lparr>sc_partial := x\<rparr>) = objat c" "objat (c\<lparr>sc_full := x\<rparr>) = objat c"
  by (simp_all add: direct_def cellat_def objat_def fun_eq_iff)

lemma geometry_ok [simp]:
  "cache_ok (c\<lparr>sc_empty := x\<rparr>) = cache_ok c" "cache_ok (c\<lparr>sc_partial := x\<rparr>) = cache_ok c"
  "cache_ok (c\<lparr>sc_full := x\<rparr>) = cache_ok c"
  "slab_ok (c\<lparr>sc_empty := x\<rparr>) = slab_ok c" "slab_ok (c\<lparr>sc_partial := x\<rparr>) = slab_ok c" "slab_ok (c\<lparr>sc_full := x\<rparr>) = slab_ok c"
  "bases_apart (c\<lparr>sc_empty := x\<rparr>) = bases_apart c" "bases_apart (c\<lparr>sc_partial := x\<rparr>) = bases_apart c"
  "bases_apart (c\<lparr>sc_full := x\<rparr>) = bases_apart c"
  "live (c\<lparr>sc_empty := x\<rparr>) = live c" "live (c\<lparr>sc_partial := x\<rparr>) = live c" "live (c\<lparr>sc_full := x\<rparr>) = live c"
  by (simp_all add: cache_ok_def slab_ok_def bases_apart_def live_def fun_eq_iff)

definition taken :: "nat \<Rightarrow> nat list \<Rightarrow> (nat \<Rightarrow> nat list) \<Rightarrow> (nat \<times> nat) set" where
  "taken n S fr = {(s, k). s \<in> set S \<and> k < n \<and> k \<notin> set (fr s)}"

lemma live_taken: "live cache h S fr = (\<lambda>(s, k). objat cache h s k) ` taken (slabobjcount cache) S fr"
  by (auto simp: live_def taken_def)

lemma live_cong:
  assumes "set S' = set S" and "\<And>s. s \<in> set S \<Longrightarrow> sl_base (slabs h' s) = sl_base (slabs h s)"
    and "\<And>s. s \<in> set S \<Longrightarrow> set (fr' s) = set (fr s)"
  shows "live cache h' S' fr' = live cache h S fr"
proof -
  have "taken n S' fr' = taken n S fr" for n using assms(1,3) by (auto simp: taken_def)
  moreover have "objat cache h' s k = objat cache h s k" if "s \<in> set S" for s k
    using assms(2) [OF that] by (simp add: objat_def)
  ultimately show ?thesis unfolding live_taken by (auto simp: taken_def intro!: image_cong)
qed

lemma bases_apart_cong:
  "(\<And>s. s \<in> S \<Longrightarrow> sl_base (slabs h' s) = sl_base (slabs h s)) \<Longrightarrow> bases_apart cache h' S = bases_apart cache h S"
  by (simp add: bases_apart_def)

text \<open>Removing one number from, or adding one to, the free objects of a slab.\<close>

lemma live_take:
  assumes c: "cache_ok cache" and S: "\<And>u. u \<in> set S \<Longrightarrow> is_slab u" "s \<in> set S" and b: "bases_apart cache h (set S)"
    and k: "k < slabobjcount cache" "fr s = k # fs" "distinct (k # fs)"
  shows "live cache h S (fr(s := fs)) = insert (objat cache h s k) (live cache h S fr)"
    and "objat cache h s k \<notin> live cache h S fr"
proof -
  show "live cache h S (fr(s := fs)) = insert (objat cache h s k) (live cache h S fr)"
  proof -
    have "taken (slabobjcount cache) S (fr(s := fs)) = insert (s, k) (taken (slabobjcount cache) S fr)"
      using S(2) k by (auto simp: taken_def split: if_splits)
    then show ?thesis by (simp add: live_taken)
  qed
  show "objat cache h s k \<notin> live cache h S fr"
  proof
    assume "objat cache h s k \<in> live cache h S fr"
    then obtain s' k' where o: "objat cache h s k = objat cache h s' k'" "s' \<in> set S" "k' < slabobjcount cache" "k' \<notin> set (fr s')"
      by (auto simp: live_def)
    from objat_inj [OF c S(1) S(1) S(2) o(2) b k(1) o(3) o(1)] S(2) o k(2) show False by auto
  qed
qed

lemma live_give:
  assumes c: "cache_ok cache" and S: "\<And>u. u \<in> set S \<Longrightarrow> is_slab u" "s \<in> set S" and b: "bases_apart cache h (set S)"
    and k: "k < slabobjcount cache"
  shows "live cache h S (fr(s := k # fr s)) = live cache h S fr - {objat cache h s k}"
proof -
  let ?T = "{(u, j). u \<in> set S \<and> j < slabobjcount cache}" and ?o = "\<lambda>(s, k). objat cache h s k"
  have "u = u' \<and> j = j'" if "u \<in> set S" "j < slabobjcount cache" "u' \<in> set S" "j' < slabobjcount cache"
      "objat cache h u j = objat cache h u' j'" for u j u' j'
    by (rule objat_inj [OF c S(1) S(1) that(1,3) b that(2,4,5)]) (fact that)+
  then have inj: "inj_on ?o ?T" by (simp add: inj_on_def)
  have "taken (slabobjcount cache) S (fr(s := k # fr s)) = taken (slabobjcount cache) S fr - {(s, k)}"
    by (auto simp: taken_def split: if_splits)
  moreover have "?o ` (taken (slabobjcount cache) S fr - {(s, k)}) = ?o ` taken (slabobjcount cache) S fr - ?o ` {(s, k)}"
    using S(2) k by (intro inj_on_image_set_diff [OF inj]) (auto simp: taken_def)
  ultimately show ?thesis by (simp add: live_taken)
qed

subsection \<open>Allocation\<close>

lemma cache_invD:
  assumes "cache_inv cache h E P F fr"
  shows "cache_ok cache" and "dchain (slnext h) (slprev h) (sc_empty cache) E"
    and "dchain (slnext h) (slprev h) (sc_partial cache) P" and "dchain (slnext h) (slprev h) (sc_full cache) F"
    and "distinct (E @ P @ F)" and "s \<in> set (E @ P @ F) \<Longrightarrow> slab_ok cache h s (fr s)"
    and "s \<in> set (E @ P @ F) \<Longrightarrow> is_slab s" and "s \<in> set E \<Longrightarrow> sl_used (slabs h s) = 0"
    and "s \<in> set P \<Longrightarrow> 0 < sl_used (slabs h s) \<and> sl_used (slabs h s) < slabobjcount cache"
    and "s \<in> set F \<Longrightarrow> sl_used (slabs h s) = slabobjcount cache"
    and "bases_apart cache h (set (E @ P @ F))"
  using assms by (auto simp: cache_inv_def slab_ok_def)

lemma free_nonempty:
  assumes "cache_inv cache h E P F fr" and "s \<in> set (E @ P)"
  obtains k fs where "fr s = k # fs" "k < slabobjcount cache" "distinct (k # fs)"
proof -
  have "sl_used (slabs h s) < slabobjcount cache"
    using cache_invD(1) [OF assms(1)] cache_invD(8,9) [OF assms(1), of s] assms(2) by (auto simp: cache_ok_def)
  moreover have "slab_ok cache h s (fr s)" using cache_invD(6) [OF assms(1)] assms(2) by auto
  ultimately show ?thesis using that by (cases "fr s") (auto simp: slab_ok_def)
qed

text \<open>The slabs as such, whatever list they are in, and how full those of each list are.\<close>

definition body :: "'m scache \<Rightarrow> 'm sheap \<Rightarrow> nat set \<Rightarrow> (nat \<Rightarrow> nat list) \<Rightarrow> bool" where
  "body cache h S fr \<longleftrightarrow> cache_ok cache \<and> (\<forall>s\<in>S. slab_ok cache h s (fr s)) \<and> bases_apart cache h S"

definition filled :: "nat \<Rightarrow> 'm sheap \<Rightarrow> nat list \<Rightarrow> nat list \<Rightarrow> nat list \<Rightarrow> bool" where
  "filled n h E P F \<longleftrightarrow> (\<forall>s\<in>set E. sl_used (slabs h s) = 0)
     \<and> (\<forall>s\<in>set P. 0 < sl_used (slabs h s) \<and> sl_used (slabs h s) < n) \<and> (\<forall>s\<in>set F. sl_used (slabs h s) = n)"

lemma body_geometry [simp]:
  "body (c\<lparr>sc_empty := x\<rparr>) = body c" "body (c\<lparr>sc_partial := x\<rparr>) = body c" "body (c\<lparr>sc_full := x\<rparr>) = body c"
  by (simp_all add: body_def fun_eq_iff)

lemma cache_inv_iff:
  "cache_inv cache h E P F fr \<longleftrightarrow> body cache h (set (E @ P @ F)) fr \<and> filled (slabobjcount cache) h E P F
     \<and> distinct (E @ P @ F) \<and> dchain (slnext h) (slprev h) (sc_empty cache) E
     \<and> dchain (slnext h) (slprev h) (sc_partial cache) P \<and> dchain (slnext h) (slprev h) (sc_full cache) F"
  unfolding cache_inv_def body_def filled_def by blast

lemma body_linkless:
  assumes "body cache h S fr" and "linkless h' = linkless h"
  shows "body cache h' S fr"
  using assms(1) bases_apart_cong [of S h' h cache, OF linkless_eqD(6) [OF assms(2)]] slab_ok_linkless [OF _ assms(2)]
  by (simp add: body_def)

lemma filled_linkless:
  assumes "linkless h' = linkless h"
  shows "filled n h' E P F = filled n h E P F"
  by (simp add: filled_def linkless_eqD [OF assms])

lemma live_linkless:
  assumes "linkless h' = linkless h" and "set S' = set S"
  shows "live cache h' S' fr = live cache h S fr"
  by (rule live_cong) (simp_all add: linkless_eqD [OF assms(1)] assms(2))

lemma take_step:
  assumes inv: "cache_inv cache h E P F fr" and s: "s \<in> set (E @ P)"
  obtains h1 fr' obj where "takeobject cache s h = (Some obj, h1)" and "body cache h1 (set (E @ P @ F)) fr'"
    and "sl_used (slabs h1 s) = sl_used (slabs h s) + 1"
    and "\<And>u. u \<in> set (E @ P @ F) \<Longrightarrow> u \<noteq> s \<Longrightarrow> sl_used (slabs h1 u) = sl_used (slabs h u)"
    and "slnext h1 = slnext h" and "slprev h1 = slprev h" and "obj \<notin> live cache h (E @ P @ F) fr"
    and "live cache h1 (E @ P @ F) fr' = insert obj (live cache h (E @ P @ F) fr)"
proof -
  note D = cache_invD [OF inv]
  obtain k fs where k: "fr s = k # fs" "k < slabobjcount cache" "distinct (k # fs)"
    by (rule free_nonempty [OF inv s])
  obtain r h1 where t: "takeobject cache s h = (r, h1)" by fastforce
  let ?S = "E @ P @ F" and ?fr = "fr(s := fs)"
  have sS: "s \<in> set ?S" using s by auto
  have "slab_ok cache h s (k # fs)" using D(6) [OF sS] k(1) by simp
  note T = takeobject_ok [OF D(1) this t]
  have ok: "slab_ok cache h1 u (?fr u)" if "u \<in> set ?S" for u
    using T(2) T(8) [of u "fr u"] D(6) [OF that] by (cases "u = s") auto
  have b: "bases_apart cache h1 (set ?S)" using D(11) bases_apart_cong [of "set ?S" h1 h] T(7) by blast
  note lv = live_take [where S = ?S and fr = fr, OF D(1) D(7) sS D(11) k(2,1,3)]
  have "live cache h1 ?S ?fr = live cache h ?S ?fr" by (rule live_cong) (simp_all add: T(7))
  then have "live cache h1 ?S ?fr = insert (objat cache h s k) (live cache h ?S fr)" using lv(1) by simp
  moreover have "body cache h1 (set ?S) ?fr" using ok b D(1) by (simp add: body_def)
  moreover have "sl_used (slabs h1 u) = sl_used (slabs h u)" if "u \<in> set ?S" "u \<noteq> s" for u
    using T(8) [OF D(6) [OF that(1)] that(2)] by simp
  ultimately show ?thesis using that [of _ h1 ?fr] t T(1,3,4,5) lv(2) by blast
qed

text \<open>Moving the first slab of one list to the front of another, as \<open>slab_allocate\<close> does it.\<close>

definition to_front :: "nat \<Rightarrow> nat option \<Rightarrow> 'm sheap \<Rightarrow> 'm sheap" where
  "to_front s hb h =
     (let h' = (case slnext h s of Some n \<Rightarrow> set_slprev n None h | None \<Rightarrow> h);
          h' = (case hb of Some p \<Rightarrow> set_slprev p (Some s) h' | None \<Rightarrow> h')
      in set_slprev s None (set_slnext s hb h'))"

lemma to_front_ok:
  assumes "dchain (slnext h) (slprev h) ha (s # A)" and "dchain (slnext h) (slprev h) hb B"
    and "dchain (slnext h) (slprev h) hc C" and "distinct (s # A @ B @ C)" and h': "h' = to_front s hb h"
  shows "dchain (slnext h') (slprev h') (slnext h s) A" and "dchain (slnext h') (slprev h') (Some s) (s # B)"
    and "dchain (slnext h') (slprev h') hc C" and "linkless h' = linkless h"
proof -
  have pv: "slprev h s = None" using dchain_prev_of [of _ _ _ "[]", simplified, OF assms(1)] by simp
  have ne: "hb \<noteq> Some s" using dchain_head [OF assms(2)] assms(4) by (auto split: if_splits)
  have mv: "slnext h' q = (if q = s then hb else if slprev h s = Some q then slnext h s else slnext h q)"
      "slprev h' q = (if q = s then None else if hb = Some q then Some s
         else if slnext h s = Some q then slprev h s else slprev h q)" for q
    using pv ne by (auto simp: h' to_front_def slablist.links split: option.splits)
  have d: "set ([] @ s # A) \<inter> set B = {}" using assms(4) by auto
  have a: "dchain (slnext h) (slprev h) ha ([] @ s # A)" using assms(1) by simp
  note M = dchain_move [OF a assms(2) d mv]
  show "dchain (slnext h') (slprev h') (slnext h s) A" "dchain (slnext h') (slprev h') (Some s) (s # B)"
    using M(1,2) pv by simp_all
  have "u \<notin> set ([] @ s # A) \<union> set B" if "u \<in> set C" for u using that assms(4) by auto
  then show "dchain (slnext h') (slprev h') hc C"
    using M(3) dchain_frame [of C "slnext h'" "slnext h" "slprev h'" "slprev h"] assms(3) by blast
  show "linkless h' = linkless h" by (simp add: h' to_front_def Let_def)
qed

lemma alloc_partial:
  assumes inv: "cache_inv cache h E (s # P) F fr" and a: "slab_allocate m1 m2 cache h = (ret, cache', h')"
  shows "\<exists>P' F' fr' obj. cache_inv cache' h' E P' F' fr' \<and> ret = Some obj
    \<and> obj \<notin> live cache h (E @ (s # P) @ F) fr
    \<and> live cache' h' (E @ P' @ F') fr' = insert obj (live cache h (E @ (s # P) @ F) fr)"
proof -
  note D = cache_invD [OF inv]
  let ?S = "E @ (s # P) @ F" and ?n = "slabobjcount cache"
  have sEP: "s \<in> set (E @ s # P)" by simp
  obtain h1 fr' obj where t: "takeobject cache s h = (Some obj, h1)" and b1: "body cache h1 (set ?S) fr'"
    and u1: "sl_used (slabs h1 s) = sl_used (slabs h s) + 1"
    and u2: "\<And>u. u \<in> set ?S \<Longrightarrow> u \<noteq> s \<Longrightarrow> sl_used (slabs h1 u) = sl_used (slabs h u)"
    and l1: "slnext h1 = slnext h" "slprev h1 = slprev h" and lv: "obj \<notin> live cache h ?S fr"
      "live cache h1 ?S fr' = insert obj (live cache h ?S fr)"
    by (rule take_step [OF inv sEP]) (rule that)
  have head: "sc_partial cache = Some s" "sc_empty cache \<noteq> Some s"
    using dchain_head [OF D(3)] dchain_head [OF D(2)] D(5) by (auto split: if_splits)
  have same: "sl_used (slabs h1 u) = sl_used (slabs h u)" if "u \<in> set E \<union> set P \<union> set F" for u
    using that D(5) by (intro u2) auto
  then have others: "filled ?n h1 E P F" using D(8-10) by (simp add: filled_def)
  show ?thesis
  proof (cases "sl_used (slabs h1 s) = ?n")
    case False
    then have r: "ret = Some obj" "cache' = cache" "h' = h1"
      using a head t by (auto simp: slab_allocate_def split: if_splits)
    have "sl_used (slabs h1 s) < ?n" using False u1 D(9) [of s] by simp
    then have "cache_inv cache h1 E (s # P) F fr'"
      using b1 others D(2-5) l1 u1 by (simp add: cache_inv_iff filled_def)
    with lv r show ?thesis by blast
  next
    case True
    have r: "ret = Some obj" "cache' = cache\<lparr>sc_partial := slnext h1 s, sc_full := Some s\<rparr>"
        "h' = to_front s (sc_full cache) h1"
      using a head t True by (auto simp: slab_allocate_def Let_def to_front_def split: if_splits)
    have "distinct (s # P @ F @ E)" using D(5) by auto
    note M = to_front_ok [OF D(3,4,2) [folded l1] this r(3)]
    have "cache_inv cache' h' E P (s # F) fr'"
      using body_linkless [OF b1 M(4)] others True M(1-3) D(5)
      by (simp add: cache_inv_iff r(2) filled_linkless [OF M(4)] insert_commute) (simp add: filled_def)
    moreover have "live cache' h' (E @ P @ s # F) fr' = live cache h1 ?S fr'"
      unfolding r(2) by (simp, intro live_linkless [OF M(4)]) auto
    ultimately show ?thesis using lv r(1) by metis
  qed
qed

lemma alloc_empty:
  assumes inv: "cache_inv cache h (s # E) [] F fr" and a: "slab_allocate m1 m2 cache h = (ret, cache', h')"
  shows "\<exists>fr' obj. cache_inv cache' h' E [s] F fr' \<and> ret = Some obj \<and> obj \<notin> live cache h ((s # E) @ F) fr
    \<and> live cache' h' (E @ [s] @ F) fr' = insert obj (live cache h ((s # E) @ F) fr)"
proof -
  note D = cache_invD [OF inv]
  let ?S = "(s # E) @ [] @ F" and ?n = "slabobjcount cache"
  have sEP: "s \<in> set ((s # E) @ [])" by simp
  obtain h1 fr' obj where t: "takeobject cache s h = (Some obj, h1)" and b1: "body cache h1 (set ?S) fr'"
    and u1: "sl_used (slabs h1 s) = sl_used (slabs h s) + 1"
    and u2: "\<And>u. u \<in> set ?S \<Longrightarrow> u \<noteq> s \<Longrightarrow> sl_used (slabs h1 u) = sl_used (slabs h u)"
    and l1: "slnext h1 = slnext h" "slprev h1 = slprev h" and lv: "obj \<notin> live cache h ?S fr"
      "live cache h1 ?S fr' = insert obj (live cache h ?S fr)"
    by (rule take_step [OF inv sEP]) (rule that)
  have head: "sc_partial cache = None" "sc_empty cache = Some s"
    using dchain_head [OF D(3)] dchain_head [OF D(2)] by (auto split: if_splits)
  have r: "ret = Some obj" "cache' = cache\<lparr>sc_empty := slnext h1 s, sc_partial := Some s\<rparr>"
      "h' = to_front s (sc_partial cache) h1"
    using a head t by (auto simp: slab_allocate_def Let_def to_front_def split: if_splits)
  have "distinct (s # E @ [] @ F)" using D(5) by auto
  note M = to_front_ok [OF D(2,3,4) [folded l1] this r(3)]
  have "0 < sl_used (slabs h1 s) \<and> sl_used (slabs h1 s) < ?n" using u1 D(8) [of s] D(1) by (simp add: cache_ok_def)
  moreover have "sl_used (slabs h1 u) = sl_used (slabs h u)" if "u \<in> set E \<union> set F" for u
    using that D(5) by (intro u2) auto
  ultimately have "filled ?n h1 E [s] F" using D(8,10) by (simp add: filled_def)
  then have "cache_inv cache' h' E [s] F fr'"
    using body_linkless [OF b1 M(4)] M(1-3) D(5) by (simp add: cache_inv_iff r(2) filled_linkless [OF M(4)])
  moreover have "live cache' h' (E @ [s] @ F) fr' = live cache h1 ?S fr'"
    unfolding r(2) by (simp, intro live_linkless [OF M(4)]) auto
  ultimately show ?thesis using lv r(1) by auto
qed

text \<open>What \<open>vmm_map\<close> promises: a page of which no slab is part, and a region apart from those in use.\<close>

definition fresh_maps :: "'m scache \<Rightarrow> 'm sheap \<Rightarrow> nat set \<Rightarrow> nat option \<Rightarrow> nat option \<Rightarrow> bool" where
  "fresh_maps cache h S m1 m2 \<longleftrightarrow> (\<forall>p. m1 = Some p \<longrightarrow> p mod 4096 = 0 \<and> GET_SLAB p \<notin> mapped h)
     \<and> (\<forall>b. m2 = Some b \<longrightarrow> (\<forall>s\<in>S. sl_base (slabs h s) + slabobjcount cache * sc_truesize cache \<le> b
          \<or> b + slabobjcount cache * sc_truesize cache \<le> sl_base (slabs h s)))"

lemma grow_fails:
  assumes "fresh_maps cache h S m1 m2" and "m1 = None \<or> \<not> direct cache \<and> m2 = None"
  shows "growcache m1 m2 cache h = (False, cache, h)"
proof -
  have "insert x (mapped h) - {x} = mapped h" if "x \<notin> mapped h" for x using that by auto
  with assms show ?thesis
    by (auto simp: growcache_def fresh_maps_def direct_def Let_def split: option.split)
qed

lemma grow_ok:
  assumes inv: "cache_inv cache h [] [] F fr" and fm: "fresh_maps cache h (set F) m1 m2"
    and m: "m1 = Some p" "direct cache \<or> m2 \<noteq> None"
  obtains cache' h' s fr' where "growcache m1 m2 cache h = (True, cache', h')" and "cache_inv cache' h' [s] [] F fr'"
    and "live cache' h' ([s] @ F) fr' = live cache h F fr"
proof -
  note D = cache_invD [OF inv]
  let ?n = "slabobjcount cache" and ?r = "slabobjcount cache * sc_truesize cache"
  define s where "s = GET_SLAB p"
  have p: "p mod 4096 = 0" "s \<notin> mapped h" using fm m(1) by (auto simp: fresh_maps_def s_def)
  have mp: "u \<in> mapped h" if "u \<in> set F" for u using D(6) [of u] that by (simp add: slab_ok_def)
  with p(2) have sF: "s \<notin> set F" by blast
  define h0 where "h0 = h\<lparr>mapped := insert s (mapped h)\<rparr>"
  define h1 where "h1 = (if direct cache then initdirect cache s p h0 else initindirect cache s p (the m2) h0)"
  have ok0: "slab_ok cache h0 u (fr u)" if "u \<in> set F" for u
    by (rule slab_ok_frame [OF D(6)]) (simp_all add: h0_def mp that)
  have "s \<in> mapped h0" by (simp add: h0_def)
  note I = init_slab [OF D(1) p(1) s_def this h1_def]
  define h2 where "h2 = set_slprev s None (set_slnext s (sc_empty cache) h1)"
  have e: "sc_empty cache = None" using D(2) by simp
  have g: "growcache m1 m2 cache h = (True, cache\<lparr>sc_empty := Some s\<rparr>, h2)"
    using m e by (auto simp: growcache_def Let_def s_def [symmetric] h0_def [symmetric] direct_def h1_def h2_def
        slablist.links)
  have ll: "linkless h2 = linkless h1" by (simp add: h2_def)
  define fr' where "fr' = fr(s := rev [0..< ?n])"
  have slabs1: "slabs h1 u = slabs h u" if "u \<in> set F" for u using I(7) [of u] that sF by (auto simp: h0_def)
  have "slab_ok cache h1 u (fr' u)" if "u \<in> set ([s] @ F)" for u
    using that I(1) I(8) [OF _ ok0] by (auto simp: fr'_def)
  moreover have "bases_apart cache h1 (set ([s] @ F))"
  proof (cases "direct cache")
    case False
    with m(2) obtain b where b: "m2 = Some b" by auto
    have base: "sl_base (slabs h1 s) = b" using I(3) False b by simp
    have "sl_base (slabs h u) + ?r \<le> b \<or> b + ?r \<le> sl_base (slabs h u)" if "u \<in> set F" for u
      using fm b that by (auto simp: fresh_maps_def)
    with D(11) False base slabs1 show ?thesis by (auto simp: bases_apart_def)
  qed (simp add: bases_apart_def)
  ultimately have b1: "body cache h1 (set ([s] @ F)) fr'" using D(1) by (simp add: body_def)
  have "dchain (slnext h2) (slprev h2) (Some s) [s]"
    by (simp add: dchain_def dllist_def h2_def slablist.links e)
  moreover have "dchain (slnext h2) (slprev h2) (sc_full cache) F = dchain (slnext h) (slprev h) (sc_full cache) F"
  proof (rule dchain_frame)
    have links0: "slnext h0 = slnext h" "slprev h0 = slprev h" by (simp_all add: h0_def slnext_def slprev_def fun_eq_iff)
    show "slnext h2 u = slnext h u \<and> slprev h2 u = slprev h u" if "u \<in> set F" for u
      using that sF I(4,5) by (auto simp: h2_def slablist.links links0)
  qed
  moreover have "filled ?n h1 [s] [] F" using I(2) D(10) slabs1 by (simp add: filled_def)
  ultimately have "cache_inv (cache\<lparr>sc_empty := Some s\<rparr>) h2 [s] [] F fr'"
    using body_linkless [OF b1 ll] D(3-5) sF by (simp add: cache_inv_iff filled_linkless [OF ll])
  moreover have "live cache h2 ([s] @ F) fr' = live cache h F fr"
  proof -
    have "taken ?n ([s] @ F) fr' = taken ?n F fr" using sF by (auto simp: taken_def fr'_def split: if_splits)
    moreover have "objat cache h2 u k = objat cache h u k" if "u \<in> set F" for u k
      using slabs1 [OF that] linkless_eqD(6) [OF ll] by (simp add: objat_def)
    ultimately show ?thesis unfolding live_taken by (auto simp: taken_def intro!: image_cong)
  qed
  ultimately show ?thesis using that [OF g] by simp
qed

lemma slab_allocate_ok:
  assumes inv: "cache_inv cache h E P F fr" and fm: "fresh_maps cache h (set (E @ P @ F)) m1 m2"
    and a: "slab_allocate m1 m2 cache h = (ret, cache', h')"
  shows "\<exists>E' P' F' fr'. cache_inv cache' h' E' P' F' fr' \<and>
    (case ret of
       None \<Rightarrow> E = [] \<and> P = [] \<and> (m1 = None \<or> \<not> direct cache \<and> m2 = None) \<and> cache' = cache \<and> h' = h
     | Some obj \<Rightarrow> obj \<notin> live cache h (E @ P @ F) fr
         \<and> live cache' h' (E' @ P' @ F') fr' = insert obj (live cache h (E @ P @ F) fr))"
proof (cases P)
  case (Cons s P')
  from alloc_partial [OF inv [unfolded Cons] a] show ?thesis unfolding Cons by fastforce
next
  case P: Nil
  show ?thesis
  proof (cases E)
    case (Cons s E')
    from alloc_empty [OF inv [unfolded P Cons] a] show ?thesis unfolding P Cons by fastforce
  next
    case Nil
    note inv' = inv [unfolded P Nil] and fm' = fm [unfolded P Nil, simplified]
    have none: "sc_partial cache = None" "sc_empty cache = None" using cache_invD(2,3) [OF inv'] by simp_all
    show ?thesis
    proof (cases "m1 = None \<or> \<not> direct cache \<and> m2 = None")
      case True
      from grow_fails [OF fm' True] a none have "ret = None" "cache' = cache" "h' = h" by (auto simp: slab_allocate_def)
      with inv' True P Nil show ?thesis by auto
    next
      case False
      then obtain p where "m1 = Some p" "direct cache \<or> m2 \<noteq> None" by auto
      with grow_ok [OF inv' fm'] obtain cache1 h1 s fr1 where g: "growcache m1 m2 cache h = (True, cache1, h1)"
        "cache_inv cache1 h1 [s] [] F fr1" "live cache1 h1 ([s] @ F) fr1 = live cache h F fr" by metis
      have "sc_partial cache1 = None" "sc_empty cache1 = Some s"
        using cache_invD(2,3) [OF g(2)] dchain_head [OF cache_invD(2) [OF g(2)]] by simp_all
      then have "slab_allocate m1 m2 cache1 h1 = (ret, cache', h')" using a none g(1) by (simp add: slab_allocate_def)
      from alloc_empty [OF g(2) this] g(3) show ?thesis unfolding P Nil by fastforce
    qed
  qed
qed

subsection \<open>Freeing\<close>

lemma find_slab_owner:
  assumes inv: "cache_inv cache h E P F fr" and i: "\<not> direct cache" and s: "s \<in> set (P @ F)" and k: "k < slabobjcount cache"
  shows "find_slab cache (objat cache h s k) h (sc_full cache = None)
    (if sc_full cache = None then sc_partial cache else sc_full cache) = Some (Some s)"
proof -
  note D = cache_invD [OF inv]
  let ?Q = "holds_obj cache h (objat cache h s k)"
  have Qs: "?Q s"
    using k truesize_pos [OF D(1)] i by (simp add: holds_obj_def objat_def)
  have uniq: "u = s" if "u \<in> set (F @ P)" "?Q u" for u
  proof (rule ccontr)
    assume "u \<noteq> s"
    with D(11) i s that(1) have "sl_base (slabs h u) + slabobjcount cache * sc_truesize cache \<le> sl_base (slabs h s) \<or>
      sl_base (slabs h s) + slabobjcount cache * sc_truesize cache \<le> sl_base (slabs h u)" by (auto simp: bases_apart_def)
    with that(2) Qs show False by (auto simp: holds_obj_def)
  qed
  have P: "find_slab cache (objat cache h s k) h True (sc_partial cache) = Some (find ?Q P)"
    using D(3) by (auto simp: dchain_def dllist_def intro: find_slab_partial)
  show ?thesis
  proof (cases "sc_full cache = None")
    case True
    then have "F = []" using dchain_head [OF D(4)] by (auto split: if_splits)
    with True P s uniq find_unique [of s P ?Q, OF _ Qs] show ?thesis by auto
  next
    case False
    then have "F \<noteq> []" using D(4) by auto
    with D(4) find_slab_full [OF _ D(3)] have "find_slab cache (objat cache h s k) h False (sc_full cache) = Some (find ?Q (F @ P))"
      by (auto simp: dchain_def dllist_def)
    with False uniq find_unique [of s "F @ P" ?Q, OF _ Qs] s show ?thesis by auto
  qed
qed

lemma returnobject_ok:
  assumes inv: "cache_inv cache h E P F fr" and s: "s \<in> set (P @ F)" and k: "k < slabobjcount cache" "k \<notin> set (fr s)"
  shows "returnobject cache (objat cache h s k) h = Some (s,
    upd_slab s (\<lambda>x. x\<lparr>sl_free := Some (cellat cache s k), sl_used := sl_used x - 1\<rparr>)
      (set_cell (cellat cache s k) (sl_free (slabs h s)) (construct (sc_dtor cache) (objat cache h s k) h)))"
proof -
  note D = cache_invD [OF inv]
  have sl: "is_slab s" "slab_ok cache h s (fr s)" using D(6,7) [of s] s by auto
  have cons: "slabs (construct f x h) = slabs h" for f x by (simp add: construct_def split: option.split)
  show ?thesis
  proof (cases "direct cache")
    case True
    have "k * sc_truesize cache + sc_truesize cache \<le> slabobjcount cache * sc_truesize cache" by (rule mult_Suc_le [OF k(1)])
    then have "k * sc_truesize cache < 4096"
      using True D(1) by (auto simp: cache_ok_def SLAB_DATA_SIZE_def SLAB_PAGE_OFFSET_def)
    then have "GET_SLAB (objat cache h s k) = s" using GET_SLAB_in_page [OF sl(1)] True by (simp add: objat_def)
    moreover have "objat cache h s k + sc_size cache = cellat cache s k" using True by (simp add: objat_def cellat_def)
    moreover have "cells h (cellat cache s k) = None" using sl(2) k by (simp add: slab_ok_def)
    ultimately show ?thesis using True by (simp add: returnobject_def direct_def cons Let_def)
  next
    case False
    have "(objat cache h s k - sl_base (slabs h s)) div sc_truesize cache = k"
      using truesize_pos [OF D(1)] False by (simp add: objat_def)
    then show ?thesis
      using find_slab_owner [OF inv False s k(1)] False
      by (simp add: returnobject_def direct_def [symmetric] cons Let_def cellat_def)
  qed
qed

text \<open>
  The two moves of \<open>slab_free\<close> unlink the slab from its list, whose head is the first argument, and
  push it on the other, whose head is the second.
\<close>

definition relist :: "nat \<Rightarrow> nat option \<Rightarrow> 'm sheap \<Rightarrow> 'm sheap" where
  "relist s hb h =
     (let h' = (case slprev h s of None \<Rightarrow> h | Some p \<Rightarrow> set_slnext p (slnext h s) h);
          h' = (case slnext h' s of Some n \<Rightarrow> set_slprev n (slprev h' s) h' | None \<Rightarrow> h');
          h' = set_slprev s None (set_slnext s hb h')
      in case hb of Some n \<Rightarrow> set_slprev n (Some s) h' | None \<Rightarrow> h')"

lemma relist_ok:
  assumes a: "dchain (slnext h) (slprev h) ha (ps @ s # qs)" and b: "dchain (slnext h) (slprev h) hb B"
    and c: "dchain (slnext h) (slprev h) hc C" and d: "distinct (ps @ s # qs @ B @ C)" and h': "h' = relist s hb h"
  shows "dchain (slnext h') (slprev h') (if slprev h s = None then slnext h s else ha) (ps @ qs)"
    and "dchain (slnext h') (slprev h') (Some s) (s # B)"
    and "dchain (slnext h') (slprev h') hc C" and "linkless h' = linkless h"
proof -
  have ne: "hb \<noteq> Some s" "slnext h s \<noteq> Some s" "slprev h s \<noteq> Some s"
    using dchain_head [OF b] dchain_neighbours [OF a] d by (auto split: if_splits)
  have mv: "slnext h' q = (if q = s then hb else if slprev h s = Some q then slnext h s else slnext h q)"
      "slprev h' q = (if q = s then None else if hb = Some q then Some s
         else if slnext h s = Some q then slprev h s else slprev h q)" for q
    using ne by (auto simp: h' relist_def Let_def slablist.links split: option.splits)
  have d': "set (ps @ s # qs) \<inter> set B = {}" using d by auto
  note M = dchain_move [OF a b d' mv]
  show "dchain (slnext h') (slprev h') (if slprev h s = None then slnext h s else ha) (ps @ qs)"
    "dchain (slnext h') (slprev h') (Some s) (s # B)" using M(1,2) by simp_all
  have "u \<notin> set (ps @ s # qs) \<union> set B" if "u \<in> set C" for u using that d by auto
  then show "dchain (slnext h') (slprev h') hc C"
    using M(3) dchain_frame [of C "slnext h'" "slnext h" "slprev h'" "slprev h"] c by blast
  show "linkless h' = linkless h" by (simp add: h' relist_def Let_def)
qed

lemma move_relist:
  "move_to_empty s cache h =
     (cache\<lparr>sc_partial := (if slprev h s = None then slnext h s else sc_partial cache), sc_empty := Some s\<rparr>,
      relist s (sc_empty cache) h)"
  "move_to_partial s cache h =
     (cache\<lparr>sc_full := (if slprev h s = None then slnext h s else sc_full cache), sc_partial := Some s\<rparr>,
      relist s (sc_partial cache) h)"
  by (simp_all add: move_to_empty_def move_to_partial_def relist_def Let_def slablist.links split: option.split)

lemma give_step:
  assumes inv: "cache_inv cache h E P F fr" and s: "s \<in> set (P @ F)" and k: "k < slabobjcount cache" "k \<notin> set (fr s)"
  obtains h1 fr' where "returnobject cache (objat cache h s k) h = Some (s, h1)" and "body cache h1 (set (E @ P @ F)) fr'"
    and "sl_used (slabs h1 s) = sl_used (slabs h s) - 1"
    and "\<And>u. u \<in> set (E @ P @ F) \<Longrightarrow> u \<noteq> s \<Longrightarrow> sl_used (slabs h1 u) = sl_used (slabs h u)"
    and "slnext h1 = slnext h" and "slprev h1 = slprev h"
    and "live cache h1 (E @ P @ F) fr' = live cache h (E @ P @ F) fr - {objat cache h s k}"
proof -
  note D = cache_invD [OF inv]
  let ?S = "E @ P @ F" and ?fr = "fr(s := k # fr s)"
  have sS: "s \<in> set ?S" using s by auto
  define h1 where "h1 = upd_slab s (\<lambda>x. x\<lparr>sl_free := Some (cellat cache s k), sl_used := sl_used x - 1\<rparr>)
      (set_cell (cellat cache s k) (sl_free (slabs h s)) (construct (sc_dtor cache) (objat cache h s k) h))"
  note G = give_back [OF D(1) D(6) [OF sS] k h1_def]
  have ok: "slab_ok cache h1 u (?fr u)" if "u \<in> set ?S" for u
    using G(1) G(7) [of u "fr u"] D(6) [OF that] by (cases "u = s") auto
  have b: "bases_apart cache h1 (set ?S)" using D(11) bases_apart_cong [of "set ?S" h1 h] G(6) by blast
  have "live cache h1 ?S ?fr = live cache h ?S ?fr" by (rule live_cong) (simp_all add: G(6))
  then have "live cache h1 ?S ?fr = live cache h ?S fr - {objat cache h s k}"
    using live_give [where S = ?S and fr = fr, OF D(1) D(7) sS D(11) k(1)] by simp
  moreover have "body cache h1 (set ?S) ?fr" using ok b D(1) by (simp add: body_def)
  moreover have "sl_used (slabs h1 u) = sl_used (slabs h u)" if "u \<in> set ?S" "u \<noteq> s" for u
    using G(7) [OF D(6) [OF that(1)] that(2)] by simp
  ultimately show ?thesis using that [of h1 ?fr] returnobject_ok [OF inv s k] G(2-4) by (simp only: h1_def [symmetric]) blast
qed

lemma filled_sub:
  assumes "filled n h E P F" and "set E' \<subseteq> set E" "set P' \<subseteq> set P" "set F' \<subseteq> set F"
    and "\<And>u. u \<in> set (E' @ P' @ F') \<Longrightarrow> sl_used (slabs h' u) = sl_used (slabs h u)"
  shows "filled n h' E' P' F'"
  unfolding filled_def using assms(1)
  by (intro conjI ballI; subst assms(5)) (use assms(2-4) in \<open>auto simp: filled_def\<close>)

lemma free_partial:
  assumes inv: "cache_inv cache h E P F fr" and P: "P = ps @ s # qs" and k: "k < slabobjcount cache" "k \<notin> set (fr s)"
    and obj: "obj = objat cache h s k"
  shows "\<exists>cache' h' E' P' fr'. slab_free cache obj h = Some (cache', h') \<and> cache_inv cache' h' E' P' F fr'
    \<and> live cache' h' (E' @ P' @ F) fr' = live cache h (E @ P @ F) fr - {obj}"
proof -
  note D = cache_invD [OF inv]
  let ?n = "slabobjcount cache"
  have s: "s \<in> set (P @ F)" by (simp add: P)
  obtain h1 fr' where t: "returnobject cache (objat cache h s k) h = Some (s, h1)" and b1: "body cache h1 (set (E @ P @ F)) fr'"
    and u1: "sl_used (slabs h1 s) = sl_used (slabs h s) - 1"
    and u2: "\<And>u. u \<in> set (E @ P @ F) \<Longrightarrow> u \<noteq> s \<Longrightarrow> sl_used (slabs h1 u) = sl_used (slabs h u)"
    and l1: "slnext h1 = slnext h" "slprev h1 = slprev h"
    and lv: "live cache h1 (E @ P @ F) fr' = live cache h (E @ P @ F) fr - {objat cache h s k}"
    by (rule give_step [OF inv s k]) (rule that)
  have fl: "filled ?n h E P F" using inv by (simp add: cache_inv_iff)
  have rest: "filled ?n h1 E (ps @ qs) F" by (rule filled_sub [OF fl]) (use D(5) in \<open>auto simp: P intro!: u2\<close>)
  have lt: "sl_used (slabs h1 s) < ?n - 1" using u1 D(9) [of s] by (simp add: P) linarith
  show ?thesis
  proof (cases "sl_used (slabs h1 s) = 0")
    case False
    have "slab_free cache obj h = Some (cache, h1)" using t False lt by (simp add: slab_free_def obj)
    moreover have "cache_inv cache h1 E P F fr'"
      using b1 D(2-5) l1 rest False lt by (simp add: cache_inv_iff filled_def P)
    ultimately show ?thesis using lv obj by metis
  next
    case z: True
    let ?h = "relist s (sc_empty cache) h1"
    let ?c = "cache\<lparr>sc_partial := (if slprev h1 s = None then slnext h1 s else sc_partial cache), sc_empty := Some s\<rparr>"
    have d: "distinct (ps @ s # qs @ E @ F)" using D(5) by (auto simp: P)
    note M = relist_ok [OF D(3) [unfolded P, folded l1] D(2,4) [folded l1] d refl]
    have S: "set ((s # E) @ (ps @ qs) @ F) = set (E @ P @ F)" by (auto simp: P)
    have "slab_free cache obj h = Some (?c, ?h)"
      using t z lt linkless_eqD(4) [OF M(4), of s] by (simp add: slab_free_def obj move_relist)
    moreover have "body ?c ?h (set ((s # E) @ (ps @ qs) @ F)) fr'" using body_linkless [OF b1 M(4)] S by simp
    then have "cache_inv ?c ?h (s # E) (ps @ qs) F fr'"
      using M(1-3) d rest z by (simp add: cache_inv_iff filled_linkless [OF M(4)]) (auto simp: filled_def)
    moreover have "live ?c ?h ((s # E) @ (ps @ qs) @ F) fr' = live cache h1 (E @ P @ F) fr'"
      using live_linkless [OF M(4) S] by simp
    ultimately show ?thesis using lv obj by metis
  qed
qed

lemma free_full:
  assumes inv: "cache_inv cache h E P F fr" and F: "F = ps @ s # qs" and k: "k < slabobjcount cache" "k \<notin> set (fr s)"
    and obj: "obj = objat cache h s k"
  shows "\<exists>cache' h' fr'. slab_free cache obj h = Some (cache', h') \<and> cache_inv cache' h' E (s # P) (ps @ qs) fr'
    \<and> live cache' h' (E @ (s # P) @ ps @ qs) fr' = live cache h (E @ P @ F) fr - {obj}"
proof -
  note D = cache_invD [OF inv]
  let ?n = "slabobjcount cache"
  have s: "s \<in> set (P @ F)" by (simp add: F)
  obtain h1 fr' where t: "returnobject cache (objat cache h s k) h = Some (s, h1)" and b1: "body cache h1 (set (E @ P @ F)) fr'"
    and u1: "sl_used (slabs h1 s) = sl_used (slabs h s) - 1"
    and u2: "\<And>u. u \<in> set (E @ P @ F) \<Longrightarrow> u \<noteq> s \<Longrightarrow> sl_used (slabs h1 u) = sl_used (slabs h u)"
    and l1: "slnext h1 = slnext h" "slprev h1 = slprev h"
    and lv: "live cache h1 (E @ P @ F) fr' = live cache h (E @ P @ F) fr - {objat cache h s k}"
    by (rule give_step [OF inv s k]) (rule that)
  have n: "2 \<le> ?n" using D(1) by (simp add: cache_ok_def)
  have fl: "filled ?n h E P F" using inv by (simp add: cache_inv_iff)
  have rest: "filled ?n h1 E P (ps @ qs)" by (rule filled_sub [OF fl]) (use D(5) in \<open>auto simp: F intro!: u2\<close>)
  have u: "sl_used (slabs h1 s) = ?n - 1" using u1 D(10) [of s] by (simp add: F)
  let ?h = "relist s (sc_partial cache) h1"
  let ?c = "cache\<lparr>sc_full := (if slprev h1 s = None then slnext h1 s else sc_full cache), sc_partial := Some s\<rparr>"
  have d: "distinct (ps @ s # qs @ P @ E)" using D(5) by (auto simp: F)
  note M = relist_ok [OF D(4) [unfolded F, folded l1] D(3,2) [folded l1] d refl]
  have S: "set (E @ (s # P) @ ps @ qs) = set (E @ P @ F)" by (auto simp: F)
  have "slab_free cache obj h = Some (?c, ?h)" using t u n by (simp add: slab_free_def obj move_relist)
  moreover have "body ?c ?h (set (E @ (s # P) @ ps @ qs)) fr'" using body_linkless [OF b1 M(4)] S by simp
  then have "cache_inv ?c ?h E (s # P) (ps @ qs) fr'"
    using M(1-3) d rest u n by (simp add: cache_inv_iff filled_linkless [OF M(4)]) (auto simp: filled_def)
  moreover have "live ?c ?h (E @ (s # P) @ ps @ qs) fr' = live cache h1 (E @ P @ F) fr'"
    using live_linkless [OF M(4) S] by simp
  ultimately show ?thesis using lv obj by metis
qed

lemma slab_free_ok:
  assumes inv: "cache_inv cache h E P F fr" and l: "obj \<in> live cache h (E @ P @ F) fr"
  shows "\<exists>cache' h' E' P' F' fr'. slab_free cache obj h = Some (cache', h') \<and> cache_inv cache' h' E' P' F' fr'
    \<and> live cache' h' (E' @ P' @ F') fr' = live cache h (E @ P @ F) fr - {obj}"
proof -
  note D = cache_invD [OF inv]
  let ?n = "slabobjcount cache"
  from l obtain s k where s: "s \<in> set (E @ P @ F)" and k: "k < ?n" "k \<notin> set (fr s)" and obj: "obj = objat cache h s k"
    by (auto simp: live_def)
  have "s \<notin> set E"
  proof
    assume "s \<in> set E"
    then have "length (fr s) = ?n" "distinct (fr s)" "set (fr s) \<subseteq> {..< ?n}" using D(8) [of s] D(6) [OF s] by (auto simp: slab_ok_def)
    then have "set (fr s) = {..< ?n}" by (intro card_subset_eq) (auto simp: distinct_card)
    with k show False by simp
  qed
  with s consider "s \<in> set P" | "s \<in> set F" by auto
  then show ?thesis
  proof cases
    case 1
    from split_list [OF 1] obtain ps qs where "P = ps @ s # qs" by blast
    from free_partial [OF inv this k obj] obtain cache' h' E' P' fr' where "slab_free cache obj h = Some (cache', h')"
      "cache_inv cache' h' E' P' F fr'"
      "live cache' h' (E' @ P' @ F) fr' = live cache h (E @ P @ F) fr - {obj}" by (elim exE conjE)
    then show ?thesis by (intro exI conjI)
  next
    case 2
    from split_list [OF 2] obtain ps qs where "F = ps @ s # qs" by blast
    from free_full [OF inv this k obj] obtain cache' h' fr' where "slab_free cache obj h = Some (cache', h')"
      "cache_inv cache' h' E (s # P) (ps @ qs) fr'"
      "live cache' h' (E @ (s # P) @ ps @ qs) fr' = live cache h (E @ P @ F) fr - {obj}" by (elim exE conjE)
    then show ?thesis by (intro exI conjI)
  qed
qed

subsection \<open>Object caches\<close>

text \<open>
  The contract of an object cache: a take hands out an object that nobody holds, and a held object
  can be given back. Clients that free only what they hold never see an object twice.
\<close>

datatype 'o cache_event = Take 'o | Give 'o

inductive cache_run :: "('s \<Rightarrow> 'o \<Rightarrow> 's \<Rightarrow> bool) \<Rightarrow> ('s \<Rightarrow> 'o \<Rightarrow> 's \<Rightarrow> bool) \<Rightarrow> 'o cache_event list \<Rightarrow> 's \<Rightarrow> 's \<Rightarrow> bool"
  for take give where
  crun_done: "cache_run take give [] s s"
| crun_take: "take s obj s' \<Longrightarrow> cache_run take give es s' s'' \<Longrightarrow> cache_run take give (Take obj # es) s s''"
| crun_give: "give s obj s' \<Longrightarrow> cache_run take give es s' s'' \<Longrightarrow> cache_run take give (Give obj # es) s s''"

fun held_after :: "'o set \<Rightarrow> 'o cache_event list \<Rightarrow> 'o set" where
  "held_after L [] = L"
| "held_after L (Take obj # es) = held_after (insert obj L) es"
| "held_after L (Give obj # es) = held_after (L - {obj}) es"

fun gives_held :: "'o set \<Rightarrow> 'o cache_event list \<Rightarrow> bool" where
  "gives_held L [] \<longleftrightarrow> True"
| "gives_held L (Take obj # es) \<longleftrightarrow> gives_held (insert obj L) es"
| "gives_held L (Give obj # es) \<longleftrightarrow> obj \<in> L \<and> gives_held (L - {obj}) es"

locale object_cache =
  fixes inv :: "'s \<Rightarrow> 'o set \<Rightarrow> bool" and take give :: "'s \<Rightarrow> 'o \<Rightarrow> 's \<Rightarrow> bool"
  assumes take_fresh: "inv s L \<Longrightarrow> take s obj s' \<Longrightarrow> obj \<notin> L \<and> inv s' (insert obj L)"
    and give_possible: "inv s L \<Longrightarrow> obj \<in> L \<Longrightarrow> \<exists>s'. give s obj s'"
    and give_frees: "inv s L \<Longrightarrow> obj \<in> L \<Longrightarrow> give s obj s' \<Longrightarrow> inv s' (L - {obj})"
begin

lemma run_inv: "cache_run take give es s s' \<Longrightarrow> inv s L \<Longrightarrow> gives_held L es \<Longrightarrow> inv s' (held_after L es)"
proof (induction arbitrary: L rule: cache_run.induct)
  case (crun_take s obj s' es s'')
  from take_fresh [OF crun_take.prems(1) crun_take.hyps(1)] crun_take.IH [of "insert obj L"] crun_take.prems(2)
  show ?case by simp
next
  case (crun_give s obj s' es s'')
  from give_frees [OF crun_give.prems(1) _ crun_give.hyps(1)] crun_give.IH [of "L - {obj}"] crun_give.prems(2)
  show ?case by simp
qed simp

lemma run_split:
  "cache_run take give (xs @ Take obj # ys) s s'' \<Longrightarrow> inv s L \<Longrightarrow> gives_held L (xs @ Take obj # ys) \<Longrightarrow>
   obj \<notin> held_after L xs"
proof (induction xs arbitrary: s L)
  case Nil
  from Nil(1) obtain s' where "take s obj s'" by (auto elim: cache_run.cases)
  with take_fresh [OF Nil(2)] show ?case by simp
next
  case (Cons e xs)
  show ?case
  proof (cases e)
    case (Take x)
    with Cons.prems(1) obtain s' where s': "take s x s'" "cache_run take give (xs @ Take obj # ys) s' s''"
      by (auto elim: cache_run.cases)
    from Cons.IH [OF s'(2), of "insert x L"] take_fresh [OF Cons.prems(2) s'(1)] Cons.prems(3) Take show ?thesis by simp
  next
    case (Give x)
    with Cons.prems(1) obtain s' where s': "give s x s'" "cache_run take give (xs @ Take obj # ys) s' s''"
      by (auto elim: cache_run.cases)
    from Cons.IH [OF s'(2), of "L - {x}"] give_frees [OF Cons.prems(2) _ s'(1)] Cons.prems(3) Give show ?thesis by simp
  qed
qed

end

definition slab_inv :: "'m scache \<times> 'm sheap \<Rightarrow> nat set \<Rightarrow> bool" where
  "slab_inv s L \<longleftrightarrow> (\<exists>E P F fr. cache_inv (fst s) (snd s) E P F fr \<and> L = live (fst s) (snd s) (E @ P @ F) fr)"

lemma slab_invI: "cache_inv cache h E P F fr \<Longrightarrow> live cache h (E @ P @ F) fr = L \<Longrightarrow> slab_inv (cache, h) L"
  unfolding slab_inv_def fst_conv snd_conv by (intro exI conjI) auto

text \<open>A successful allocation, with whatever fresh memory \<open>vmm_map\<close> provides, and a free.\<close>

definition slab_take :: "'m scache \<times> 'm sheap \<Rightarrow> nat \<Rightarrow> 'm scache \<times> 'm sheap \<Rightarrow> bool" where
  "slab_take s obj s' \<longleftrightarrow> (\<exists>m1 m2. fresh_maps (fst s) (snd s) (mapped (snd s)) m1 m2
     \<and> slab_allocate m1 m2 (fst s) (snd s) = (Some obj, s'))"

definition slab_give :: "'m scache \<times> 'm sheap \<Rightarrow> nat \<Rightarrow> 'm scache \<times> 'm sheap \<Rightarrow> bool" where
  "slab_give s obj s' \<longleftrightarrow> slab_free (fst s) obj (snd s) = Some s'"

lemma slab_take_ok:
  assumes "slab_inv s L" and "slab_take s obj s'"
  shows "obj \<notin> L \<and> slab_inv s' (insert obj L)"
proof -
  obtain cache h cache' h' where s: "s = (cache, h)" "s' = (cache', h')" by fastforce
  from assms(1) obtain E P F fr where i: "cache_inv cache h E P F fr" and L: "L = live cache h (E @ P @ F) fr"
    by (auto simp: slab_inv_def s)
  from assms(2) obtain m1 m2 where fm: "fresh_maps cache h (mapped h) m1 m2"
    and a: "slab_allocate m1 m2 cache h = (Some obj, cache', h')" by (auto simp: slab_take_def s)
  have "u \<in> mapped h" if "u \<in> set (E @ P @ F)" for u using cache_invD(6) [OF i that] by (simp add: slab_ok_def)
  then have "fresh_maps cache h (set (E @ P @ F)) m1 m2" using fm by (simp add: fresh_maps_def)
  from slab_allocate_ok [OF i this a] show ?thesis by (auto simp: s L intro: slab_invI)
qed

lemma slab_give_ok:
  assumes "slab_inv s L" and "obj \<in> L"
  shows "\<exists>s'. slab_give s obj s' \<and> slab_inv s' (L - {obj})"
proof -
  obtain cache h where s: "s = (cache, h)" by fastforce
  from assms(1) obtain E P F fr where i: "cache_inv cache h E P F fr" and L: "L = live cache h (E @ P @ F) fr"
    by (auto simp: slab_inv_def s)
  from slab_free_ok [OF i assms(2) [unfolded L], folded L] obtain cache' h' E' P' F' fr' where "slab_free cache obj h = Some (cache', h')"
    "cache_inv cache' h' E' P' F' fr'" "live cache' h' (E' @ P' @ F') fr' = L - {obj}" by (elim exE conjE)
  then show ?thesis by (intro exI [of _ "(cache', h')"]) (auto simp: slab_give_def s intro: slab_invI)
qed

interpretation slabcache: object_cache slab_inv slab_take slab_give
proof
  show "obj \<notin> L \<and> slab_inv s' (insert obj L)" if "slab_inv s L" "slab_take s obj s'" for s :: "'a scache \<times> 'a sheap" and L obj s'
    using that by (rule slab_take_ok)
  show "\<exists>s'. slab_give s obj s'" if "slab_inv s L" "obj \<in> L" for s :: "'a scache \<times> 'a sheap" and L obj
    using slab_give_ok [OF that] by blast
  show "slab_inv s' (L - {obj})" if "slab_inv s L" "obj \<in> L" "slab_give s obj s'" for s :: "'a scache \<times> 'a sheap" and L obj s'
    using slab_give_ok [OF that(1,2)] that(3) by (auto simp: slab_give_def)
qed

lemma round_up_bounds:
  assumes "0 < n"
  shows "v \<le> round_up v n \<and> round_up v n \<le> v + n - 1"
proof -
  define m where "m = (v + n - 1) mod n"
  have "m < n" using assms by (simp add: m_def)
  then show ?thesis unfolding round_up_def m_def [symmetric] by linarith
qed

lemma newcache_inv:
  assumes "slab_newcache obj sz alignment ctor dtor = Some (c, cache)" and "alignment \<le> 1510"
  shows "cache_inv cache h [] [] [] fr"
proof -
  define al where "al = (if alignment = 0 then 8 else alignment)"
  define ts where "ts = round_up (sz + (if sz < SLAB_INDIRECT_CUTOFF then 8 else 0)) al"
  have al: "0 < al" "al \<le> 1510" using assms(2) by (auto simp: al_def)
  have c: "sc_size cache = sz" "sc_truesize cache = ts" "sc_empty cache = None" "sc_partial cache = None" "sc_full cache = None"
    "slabobjcount cache = (if sz < SLAB_INDIRECT_CUTOFF then SLAB_DATA_SIZE div ts else SLAB_INDIRECT_COUNT)"
    using assms(1) by (auto simp: slab_newcache_def al_def [symmetric] ts_def Let_def split: option.splits)
  have "cache_ok cache"
  proof (cases "sz < SLAB_INDIRECT_CUTOFF")
    case True
    then have b: "sz + 8 \<le> ts" "ts \<le> 2028"
      using round_up_bounds [OF al(1), of "sz + 8"] al(2) by (auto simp: ts_def SLAB_INDIRECT_CUTOFF_def)
    have "2 * ts \<le> SLAB_DATA_SIZE" using b(2) by (simp add: SLAB_DATA_SIZE_def SLAB_PAGE_OFFSET_def)
    then have "2 \<le> SLAB_DATA_SIZE div ts" using b(1) by (simp add: less_eq_div_iff_mult_less_eq)
    with True b(1) show ?thesis by (simp add: cache_ok_def direct_def c)
  next
    case False
    then have "sz \<le> ts" using round_up_bounds [OF al(1), of sz] by (simp add: ts_def)
    with False show ?thesis
      by (simp add: cache_ok_def direct_def c SLAB_INDIRECT_COUNT_def SLAB_DATA_SIZE_def SLAB_PAGE_OFFSET_def)
  qed
  then show ?thesis by (simp add: cache_inv_def c bases_apart_def)
qed

lemma newcache_slab_inv:
  assumes "slab_newcache obj sz alignment ctor dtor = Some (c, cache)" and "alignment \<le> 1510"
  shows "slab_inv (cache, h) {}"
  by (rule slab_invI [OF newcache_inv [OF assms, of h "\<lambda>_. []"]]) (simp add: live_def)

definition ex_cache :: "unit scache" where
  "ex_cache = snd (the (slab_newcache (Some 0) 500 0 None None))"

definition ex_sheap :: "unit sheap" where
  "ex_sheap = \<lparr>slabs = \<lambda>_. \<lparr>sl_next = None, sl_prev = None, sl_used = 0, sl_free = None, sl_base = 0\<rparr>,
     cells = \<lambda>_. None, objmem = (), mapped = {}\<rparr>"

lemma ex_cache_inv: "slab_inv (ex_cache, ex_sheap) {}" and ex_cache_direct: "direct ex_cache"
proof -
  have "slab_newcache (Some 0) 500 0 None None = Some (0, ex_cache)"
    by (simp add: ex_cache_def slab_newcache_def Let_def)
  from newcache_slab_inv [OF this] show "slab_inv (ex_cache, ex_sheap) {}" by simp
  show "direct ex_cache" by (simp add: ex_cache_def slab_newcache_def direct_def Let_def SLAB_INDIRECT_CUTOFF_def)
qed

lemma ex_cache_eq: "ex_cache = \<lparr>sc_ctor = None, sc_dtor = None, sc_full = None, sc_partial = None, sc_empty = None,
    sc_size = 500, sc_truesize = 512, sc_alignment = 8, slabobjcount = 7\<rparr>"
  by (simp add: ex_cache_def slab_newcache_def Let_def SLAB_INDIRECT_CUTOFF_def SLAB_DATA_SIZE_def SLAB_PAGE_OFFSET_def round_up_def)

lemmas slab_eval = slab_allocate_def growcache_def ex_cache_eq ex_sheap_def SLAB_INDIRECT_CUTOFF_def GET_SLAB_def
  page_of_def SLAB_PAGE_OFFSET_def initdirect_def init_loop.simps construct_def set_cell_def upd_slab_def takeobject_def
  Let_def set_slnext_def set_slprev_def slnext_def slprev_def

lemma ex_takes:
  defines "s \<equiv> snd (slab_allocate (Some 4096) None ex_cache ex_sheap)"
  shows "slab_take (ex_cache, ex_sheap) 7168 s" and "slab_take s 6656 (snd (slab_allocate None None (fst s) (snd s)))"
proof -
  have "fst (slab_allocate (Some 4096) None ex_cache ex_sheap) = Some 7168" by (simp add: slab_eval)
  then have "slab_allocate (Some 4096) None ex_cache ex_sheap = (Some 7168, s)" by (simp add: s_def prod_eq_iff)
  moreover have "fresh_maps ex_cache ex_sheap (mapped ex_sheap) (Some 4096) None" by (simp add: fresh_maps_def ex_sheap_def)
  ultimately show "slab_take (ex_cache, ex_sheap) 7168 s" unfolding slab_take_def fst_conv snd_conv by blast
  have "fst (slab_allocate None None (fst s) (snd s)) = Some 6656" unfolding s_def by (simp add: slab_eval)
  then show "slab_take s 6656 (snd (slab_allocate None None (fst s) (snd s)))"
    unfolding slab_take_def by (intro exI [of _ None]) (simp add: fresh_maps_def prod_eq_iff)
qed

subsection \<open>Properties\<close>

text \<open>
  C9: as long as clients free only objects they hold, \<open>slab_allocate\<close> never returns an object that is
  already in use, whatever allocations and frees came before.
\<close>

theorem slab_never_hands_out_twice:
  assumes "slab_inv s L" and "cache_run slab_take slab_give (xs @ Take obj # ys) s s'"
    and "gives_held L (xs @ Take obj # ys)"
  shows "obj \<notin> held_after L xs"
  by (rule slabcache.run_split [OF assms(2,1,3)])

theorem slab_never_hands_out_twice_witness:
  "\<exists>s s'. slab_take (ex_cache, ex_sheap) 7168 s \<and> slab_take s 6656 s' \<and> (6656 :: nat) \<notin> held_after {} [Take 7168]"
proof -
  have "cache_run slab_take slab_give ([Take 7168] @ Take 6656 # []) (ex_cache, ex_sheap)
      (snd (slab_allocate None None (fst (snd (slab_allocate (Some 4096) None ex_cache ex_sheap)))
        (snd (snd (slab_allocate (Some 4096) None ex_cache ex_sheap)))))"
    by (auto intro: crun_take crun_done ex_takes)
  from slab_never_hands_out_twice [OF ex_cache_inv this] have "(6656 :: nat) \<notin> held_after {} [Take 7168]" by simp
  with ex_takes show ?thesis by blast
qed

text \<open>
  Freeing an object that is in use passes every assertion, keeps the cache well-formed and gives
  back this object and no other.
\<close>

lemma slab_free_held:
  assumes "slab_inv (cache, h) L" and "obj \<in> L"
  shows "\<exists>cache' h'. slab_free cache obj h = Some (cache', h') \<and> slab_inv (cache', h') (L - {obj})"
  using slab_give_ok [OF assms] by (auto simp: slab_give_def)



text \<open>
  C36: \<open>slab_freecache\<close> touches memory it has just unmapped: after its first iteration \<open>purge\<close> looks
  again at the slab that this iteration unmapped, so that freeing a cache which has an empty slab
  traps.
\<close>

theorem slab_freecache_uses_unmapped:
  assumes "cache_inv cache h (s # E) [] [] fr"
  shows "slab_freecache cache h = None"
proof -
  have e: "sc_empty cache = Some s" using dchain_head [OF cache_invD(2) [OF assms]] by simp
  have twice: "purge cache (Suc (Suc n)) h = None" for n by (simp add: purge_def e Let_def split: option.split)
  have "(2 :: nat) ^ 64 - 1 = Suc (Suc (2 ^ 64 - 3))" by simp
  then have "purge cache (2 ^ 64 - 1) h = None" using twice by metis
  then show ?thesis by (simp add: slab_freecache_def)
qed

theorem slab_freecache_uses_unmapped_witness:
  "\<exists>cache h. growcache (Some 4096) None ex_cache ex_sheap = (True, cache, h) \<and> slab_freecache cache h = None"
proof -
  have i: "cache_inv ex_cache ex_sheap [] [] [] (\<lambda>_. [])"
    by (rule newcache_inv [of "Some 0" 500 0 None None 0]) (simp_all add: ex_cache_def slab_newcache_def Let_def)
  have f: "fresh_maps ex_cache ex_sheap (set []) (Some 4096) None" by (simp add: fresh_maps_def ex_sheap_def)
  obtain cache h s fr where "growcache (Some 4096) None ex_cache ex_sheap = (True, cache, h)" "cache_inv cache h [s] [] [] fr"
    by (rule grow_ok [OF i f refl]) (use ex_cache_direct in auto)
  with slab_freecache_uses_unmapped show ?thesis by blast
qed

end
