(* ===== verification/Pmm.thy ===== *)
theory Pmm
  imports Dllist
begin

text \<open>
  The physical memory manager: \<^verbatim>\<open>src/kernel-src/mm/pmm.c\<close> and \<^verbatim>\<open>include/kernel/pmm.h\<close>.

  A page frame is known by its number, the index into the array \<open>pages\<close>. Frames nobody references
  are on a free list or, while the page cache can still use their contents, on a standby list, one of
  each for the three sections of physical memory. The state is a record that the page cache extends;
  the operations work on any extension. The mutex of the free lists makes every operation one step,
  except \<open>pmm_release\<close>, which drops its reference before it takes the mutex: it is the composition of
  \<open>release_drop\<close> and \<open>release_insert\<close>. \<open>None\<close> is a failed assertion or a loop that does not end.

  The lemmas show that the lists hold exactly the frames without references that they should, that
  an allocation returns frames that were free, and, with the two halves of a release interleaved with
  a hold, how the lists break.
\<close>

type_synonym pageid = nat

datatype pflag = PAGE_FLAGS_FREE | PAGE_FLAGS_TRUNCATED | PAGE_FLAGS_PINNED | PAGE_FLAGS_DIRTY
  | PAGE_FLAGS_READY | PAGE_FLAGS_ERROR

text \<open>
  \<open>pg_next\<close> and \<open>pg_prev\<close> are the union of \<open>freenext\<close>, \<open>freeprev\<close> and of \<open>writenext\<close>, \<open>writeprev\<close>.
\<close>

record page =
  backing :: "nat option"
  pg_offset :: u64
  hashnext :: "pageid option"
  hashprev :: "pageid option"
  vnodenext :: "pageid option"
  vnodeprev :: "pageid option"
  pg_next :: "pageid option"
  pg_prev :: "pageid option"
  refcount :: u64
  pg_flags :: "pflag set"

record pmm =
  pages :: "pageid \<Rightarrow> page"
  pages_addr :: nat
  pagecount :: nat
  memorysize :: nat
  freepagecount :: nat
  freelists :: "nat \<Rightarrow> pageid option"
  freetails :: "nat \<Rightarrow> pageid option"
  standbylists :: "nat \<Rightarrow> pageid option"
  standbytails :: "nat \<Rightarrow> pageid option"
  searchstart :: "nat \<Rightarrow> nat"

definition PMM_SECTION_COUNT :: nat where "PMM_SECTION_COUNT = 3"
definition PMM_SECTION_1MB :: nat where "PMM_SECTION_1MB = 0"
definition PMM_SECTION_4GB :: nat where "PMM_SECTION_4GB = 1"
definition PMM_SECTION_DEFAULT :: nat where "PMM_SECTION_DEFAULT = 2"

definition TOP_1MB :: nat where "TOP_1MB = 0x100000 div 4096"
definition TOP_4GB :: nat where "TOP_4GB = 0x100000000 div 4096"

text \<open>The \<open>topid\<close> of each section.\<close>

definition topid :: "nat \<Rightarrow> nat" where
  "topid section = (if section = PMM_SECTION_1MB then TOP_1MB
     else if section = PMM_SECTION_4GB then TOP_4GB else 0xffffffffffffffff)"

definition sizeof_page :: nat where "sizeof_page = 80"

definition PAGE_BOUNDARYCHECK :: "'a pmm_scheme \<Rightarrow> pageid \<Rightarrow> bool" where
  "PAGE_BOUNDARYCHECK s p \<longleftrightarrow> p * 4096 < pages_addr s \<or> p * 4096 \<ge> pages_addr s + pagecount s * sizeof_page"

definition upd_page :: "pageid \<Rightarrow> (page \<Rightarrow> page) \<Rightarrow> 'a pmm_scheme \<Rightarrow> 'a pmm_scheme" where
  "upd_page p f s = s\<lparr>pages := (pages s)(p := f (pages s p))\<rparr>"

definition lnext :: "'a pmm_scheme \<Rightarrow> pageid \<Rightarrow> pageid option" where
  "lnext s p = pg_next (pages s p)"

definition lprev :: "'a pmm_scheme \<Rightarrow> pageid \<Rightarrow> pageid option" where
  "lprev s p = pg_prev (pages s p)"

definition set_lnext :: "pageid \<Rightarrow> pageid option \<Rightarrow> 'a pmm_scheme \<Rightarrow> 'a pmm_scheme" where
  "set_lnext p v = upd_page p (\<lambda>x. x\<lparr>pg_next := v\<rparr>)"

definition set_lprev :: "pageid \<Rightarrow> pageid option \<Rightarrow> 'a pmm_scheme \<Rightarrow> 'a pmm_scheme" where
  "set_lprev p v = upd_page p (\<lambda>x. x\<lparr>pg_prev := v\<rparr>)"

subsection \<open>The free lists\<close>

definition section_of :: "pageid \<Rightarrow> nat" where
  "section_of p = (if p < TOP_1MB then PMM_SECTION_1MB
     else if p < TOP_4GB then PMM_SECTION_4GB else PMM_SECTION_DEFAULT)"

text \<open>The list, and its tail, of a section: the standby list for frames with a backing vnode.\<close>

definition list_of :: "bool \<Rightarrow> nat \<Rightarrow> 'a pmm_scheme \<Rightarrow> pageid option" where
  "list_of standby sec s = (if standby then standbylists s sec else freelists s sec)"

definition tail_of :: "bool \<Rightarrow> nat \<Rightarrow> 'a pmm_scheme \<Rightarrow> pageid option" where
  "tail_of standby sec s = (if standby then standbytails s sec else freetails s sec)"

definition set_list :: "bool \<Rightarrow> nat \<Rightarrow> pageid option \<Rightarrow> 'a pmm_scheme \<Rightarrow> 'a pmm_scheme" where
  "set_list standby sec v s = (if standby then s\<lparr>standbylists := (standbylists s)(sec := v)\<rparr>
     else s\<lparr>freelists := (freelists s)(sec := v)\<rparr>)"

definition set_tail :: "bool \<Rightarrow> nat \<Rightarrow> pageid option \<Rightarrow> 'a pmm_scheme \<Rightarrow> 'a pmm_scheme" where
  "set_tail standby sec v s = (if standby then s\<lparr>standbytails := (standbytails s)(sec := v)\<rparr>
     else s\<lparr>freetails := (freetails s)(sec := v)\<rparr>)"

definition insertinfreelist :: "pageid \<Rightarrow> 'a pmm_scheme \<Rightarrow> 'a pmm_scheme option" where
  "insertinfreelist p s =
     (if \<not> PAGE_BOUNDARYCHECK s p then None
      else
        let sec = section_of p; standby = (backing (pages s p) \<noteq> None);
            s = (if searchstart s sec > p then s\<lparr>searchstart := (searchstart s)(sec := p)\<rparr> else s);
            s = set_lnext p (list_of standby sec s) s;
            s = set_lprev p None s;
            s = set_list standby sec (Some p) s;
            s = (case lnext s p of
                   Some n \<Rightarrow> set_lprev n (Some p) s
                 | None \<Rightarrow> set_tail standby sec (Some p) s)
        in Some (s\<lparr>freepagecount := freepagecount s + 1\<rparr>))"

definition removefromfreelist :: "pageid \<Rightarrow> 'a pmm_scheme \<Rightarrow> 'a pmm_scheme option" where
  "removefromfreelist p s =
     (if \<not> PAGE_BOUNDARYCHECK s p then None
      else
        let sec = section_of p; standby = (backing (pages s p) \<noteq> None);
            s = (case lprev s p of
                   Some q \<Rightarrow> set_lnext q (lnext s p) s
                 | None \<Rightarrow> set_list standby sec (lnext s p) s);
            s = (case lnext s p of
                   Some n \<Rightarrow> set_lprev n (lprev s p) s
                 | None \<Rightarrow> set_tail standby sec (lprev s p) s)
        in Some (s\<lparr>freepagecount := freepagecount s - 1\<rparr>))"

subsection \<open>References\<close>

definition internalhold :: "pageid \<Rightarrow> 'a pmm_scheme \<Rightarrow> 'a pmm_scheme option" where
  "internalhold p s =
     (let s = upd_page p (\<lambda>x. x\<lparr>refcount := refcount x + 1\<rparr>) s
      in if refcount (pages s p) = 1
         then if PAGE_FLAGS_FREE \<in> pg_flags (pages s p) then None else removefromfreelist p s
         else Some s)"

definition pmm_getpage :: "nat \<Rightarrow> pageid" where
  "pmm_getpage addr = addr div 4096"

definition pmm_getpageaddress :: "pageid \<Rightarrow> nat" where
  "pmm_getpageaddress p = p * 4096"

definition pmm_hold :: "nat \<Rightarrow> 'a pmm_scheme \<Rightarrow> 'a pmm_scheme option" where
  "pmm_hold addr s = internalhold (addr div 4096) s"

text \<open>The two halves of \<open>pmm_release\<close>: the atomic decrement, and what follows when it reaches 0.\<close>

definition release_drop :: "pageid \<Rightarrow> 'a pmm_scheme \<Rightarrow> (u64 \<times> 'a pmm_scheme) option" where
  "release_drop p s =
     (if refcount (pages s p) = 0 then None
      else let s = upd_page p (\<lambda>x. x\<lparr>refcount := refcount x - 1\<rparr>) s
           in Some (refcount (pages s p), s))"

definition release_insert :: "pageid \<Rightarrow> 'a pmm_scheme \<Rightarrow> 'a pmm_scheme option" where
  "release_insert p s =
     (if PAGE_FLAGS_DIRTY \<in> pg_flags (pages s p) then None
      else map_option
        (\<lambda>s. if backing (pages s p) = None
             then upd_page p (\<lambda>x. x\<lparr>pg_flags := insert PAGE_FLAGS_FREE (pg_flags x)\<rparr>) s else s)
        (insertinfreelist p s))"

definition pmm_release :: "nat \<Rightarrow> 'a pmm_scheme \<Rightarrow> 'a pmm_scheme option" where
  "pmm_release addr s =
     (case release_drop (addr div 4096) s of
        None \<Rightarrow> None
      | Some (newrefcount, s) \<Rightarrow> if newrefcount = 0 then release_insert (addr div 4096) s else Some s)"

subsection \<open>Allocation\<close>

definition blank_page :: page where
  "blank_page = \<lparr>backing = None, pg_offset = 0, hashnext = None, hashprev = None, vnodenext = None, vnodeprev = None,
     pg_next = None, pg_prev = None, refcount = 0, pg_flags = {}\<rparr>"

definition doalloc :: "pageid \<Rightarrow> 'a pmm_scheme \<Rightarrow> 'a pmm_scheme option" where
  "doalloc p s =
     (if refcount (pages s p) \<noteq> 0 then None
      else Some (upd_page p (\<lambda>_. blank_page\<lparr>refcount := 1\<rparr>) s))"

text \<open>The first section, from \<open>i\<close> down, whose list is not empty.\<close>

fun first_of :: "(nat \<Rightarrow> pageid option) \<Rightarrow> nat \<Rightarrow> pageid option" where
  "first_of l 0 = l 0"
| "first_of l (Suc i) = (case l (Suc i) of Some p \<Rightarrow> Some p | None \<Rightarrow> first_of l i)"

text \<open>
  \<open>takepage\<close> is \<open>vmmcache_takepage\<close>. The loop ends when a free frame, a standby frame the cache gives up,
  or none at all is found.
\<close>

partial_function (option) pmm_allocpage ::
  "(pageid \<Rightarrow> 'a pmm_scheme \<Rightarrow> (errno \<times> 'a pmm_scheme) option) \<Rightarrow> nat \<Rightarrow> 'a pmm_scheme
    \<Rightarrow> (nat option \<times> 'a pmm_scheme) option" where
  "pmm_allocpage takepage section s =
     (case first_of (freelists s) section of
        Some p \<Rightarrow>
          (case removefromfreelist p s of
             None \<Rightarrow> None
           | Some s \<Rightarrow>
               (if refcount (pages s p) \<noteq> 0 then None
                else case doalloc p s of None \<Rightarrow> None | Some s \<Rightarrow> Some (Some (p * 4096), s)))
      | None \<Rightarrow>
          (case first_of (standbytails s) section of
             None \<Rightarrow> Some (None, s)
           | Some p \<Rightarrow>
               (case internalhold p s of
                  None \<Rightarrow> None
                | Some s \<Rightarrow>
                    (case takepage p s of
                       None \<Rightarrow> None
                     | Some (r, s) \<Rightarrow>
                         (if r = EAGAIN
                          then case pmm_release (pmm_getpageaddress p) s of
                                 None \<Rightarrow> None
                               | Some s \<Rightarrow> pmm_allocpage takepage section s
                          else
                            case doalloc p (upd_page p (\<lambda>x. x\<lparr>refcount := 0\<rparr>) s) of
                              None \<Rightarrow> None
                            | Some s \<Rightarrow> Some (Some (p * 4096), s))))))"

declare pmm_allocpage.simps [code]

fun makefree_loop :: "pageid list \<Rightarrow> 'a pmm_scheme \<Rightarrow> 'a pmm_scheme option" where
  "makefree_loop [] s = Some s"
| "makefree_loop (p # ps) s =
     (if \<not> PAGE_BOUNDARYCHECK s p then None
      else case insertinfreelist p s of None \<Rightarrow> None | Some s \<Rightarrow> makefree_loop ps s)"

definition pmm_makefree :: "nat \<Rightarrow> nat \<Rightarrow> 'a pmm_scheme \<Rightarrow> 'a pmm_scheme option" where
  "pmm_makefree address count s =
     (let s = s\<lparr>memorysize := memorysize s + 4096 * count\<rparr>
      in if address mod 4096 \<noteq> 0 then None
         else let baseid = address div 4096 in makefree_loop [baseid..<baseid + count] s)"

text \<open>
  The search of \<open>pmm_alloc\<close> through one section: \<open>found\<close> free frames end before \<open>p\<close>; the result is the
  last frame of the first run that is long enough.
\<close>

function scan :: "nat \<Rightarrow> nat \<Rightarrow> pageid \<Rightarrow> nat \<Rightarrow> 'a pmm_scheme \<Rightarrow> pageid option" where
  "scan sz section p found s =
     (if p < topid section \<and> p < pagecount s
      then let found = (if PAGE_FLAGS_FREE \<in> pg_flags (pages s p) then found + 1 else 0)
           in if found = sz then Some p else scan sz section (p + 1) found s
      else None)"
  by auto
termination
  by (relation "measure (\<lambda>(sz, section, p, found, s). pagecount s - p)") auto

declare scan.simps [simp del]

fun search :: "nat \<Rightarrow> nat \<Rightarrow> 'a pmm_scheme \<Rightarrow> pageid option" where
  "search sz 0 s = scan sz 0 (searchstart s 0) 0 s"
| "search sz (Suc i) s =
     (case scan sz (Suc i) (searchstart s (Suc i)) 0 s of Some p \<Rightarrow> Some p | None \<Rightarrow> search sz i s)"

fun take_run :: "pageid list \<Rightarrow> 'a pmm_scheme \<Rightarrow> 'a pmm_scheme option" where
  "take_run [] s = Some s"
| "take_run (p # ps) s =
     (case removefromfreelist p s of
        None \<Rightarrow> None
      | Some s \<Rightarrow> (case doalloc p s of None \<Rightarrow> None | Some s \<Rightarrow> take_run ps s))"

definition pmm_alloc ::
  "(pageid \<Rightarrow> 'a pmm_scheme \<Rightarrow> (errno \<times> 'a pmm_scheme) option) \<Rightarrow> nat \<Rightarrow> nat \<Rightarrow> 'a pmm_scheme
    \<Rightarrow> (nat option \<times> 'a pmm_scheme) option" where
  "pmm_alloc takepage sz section s =
     (if sz = 0 then None
      else if sz = 1 then pmm_allocpage takepage section s
      else case search sz section s of
             None \<Rightarrow> Some (None, s)
           | Some e \<Rightarrow>
               let p = e - (sz - 1)
               in map_option (Pair (Some (p * 4096))) (take_run [p..<p + sz] s))"

fun free_loop :: "nat list \<Rightarrow> 'a pmm_scheme \<Rightarrow> 'a pmm_scheme option" where
  "free_loop [] s = Some s"
| "free_loop (a # as) s = (case pmm_release a s of None \<Rightarrow> None | Some s \<Rightarrow> free_loop as s)"

definition pmm_free :: "nat \<Rightarrow> nat \<Rightarrow> 'a pmm_scheme \<Rightarrow> 'a pmm_scheme option" where
  "pmm_free addr sz s =
     (if sz = 0 \<or> addr mod 4096 \<noteq> 0 then None
      else free_loop (map (\<lambda>i. addr + 4096 * i) [0..<sz]) s)"

subsection \<open>Initialisation\<close>

datatype memtype = LIMINE_MEMMAP_USABLE | LIMINE_MEMMAP_BOOTLOADER_RECLAIMABLE | LIMINE_MEMMAP_KERNEL_AND_MODULES
  | LIMINE_MEMMAP_OTHER

record memmap_entry =
  mm_base :: nat
  mm_length :: nat
  mm_type :: memtype

text \<open>The first loop of \<open>pmm_init\<close>: the top of memory, the biggest usable entry and the amount of memory.\<close>

fun measure_memory :: "memmap_entry list \<Rightarrow> nat \<Rightarrow> nat \<Rightarrow> (nat \<times> memmap_entry) option \<Rightarrow> nat
    \<Rightarrow> nat \<times> (nat \<times> memmap_entry) option \<times> nat" where
  "measure_memory [] i memtop biggest memsize = (memtop, biggest, memsize)"
| "measure_memory (e # es) i memtop biggest memsize =
     (let memtop = (if mm_type e \<noteq> LIMINE_MEMMAP_OTHER then max memtop (mm_base e + mm_length e) else memtop);
          (biggest, memsize) =
            (if mm_type e = LIMINE_MEMMAP_USABLE
             then (case biggest of
                     None \<Rightarrow> Some (i, e)
                   | Some (j, b) \<Rightarrow> if mm_length e > mm_length b then Some (i, e) else Some (j, b),
                   memsize + mm_length e)
             else (biggest, memsize))
      in measure_memory es (i + 1) memtop biggest memsize)"

fun place_pages :: "pageid list \<Rightarrow> 'a pmm_scheme \<Rightarrow> 'a pmm_scheme option" where
  "place_pages [] s = Some s"
| "place_pages (p # ps) s =
     (case insertinfreelist p (upd_page p (\<lambda>x. x\<lparr>pg_flags := insert PAGE_FLAGS_FREE (pg_flags x)\<rparr>) s) of
        None \<Rightarrow> None
      | Some s \<Rightarrow> place_pages ps s)"

text \<open>The frames of entry \<open>e\<close> that are put in a free list: those of the biggest one start after the array.\<close>

definition usable_frames :: "nat \<Rightarrow> bool \<Rightarrow> memmap_entry \<Rightarrow> pageid list" where
  "usable_frames count isbiggest e =
     (let firstusablepage = (if isbiggest then (mm_base e + count * sizeof_page + 4095) div 4096 else mm_base e div 4096)
      in if mm_type e = LIMINE_MEMMAP_USABLE then [firstusablepage..<(mm_base e + mm_length e) div 4096] else [])"

definition pmm_init :: "memmap_entry list \<Rightarrow> nat \<Rightarrow> pmm option" where
  "pmm_init es hhdmbase =
     (case measure_memory es 0 0 None 0 of
        (_, None, _) \<Rightarrow> None
      | (memtop, Some (big, b), memsize) \<Rightarrow>
          let count = (memtop + 4095) div 4096;
              s = \<lparr>pages = \<lambda>_. blank_page, pages_addr = mm_base b + hhdmbase, pagecount = count, memorysize = memsize,
                    freepagecount = 0, freelists = \<lambda>_. None, freetails = \<lambda>_. None, standbylists = \<lambda>_. None,
                    standbytails = \<lambda>_. None, searchstart = (\<lambda>i. if i = 0 then 0 else if i = 1 then TOP_1MB else TOP_4GB)\<rparr>
          in place_pages (concat (map (\<lambda>i. usable_frames count (i = big) (es ! i)) [0..<length es])) s)"

interpretation framelist: dll_heap lnext lprev set_lnext set_lprev
  by unfold_locales (auto simp: lnext_def lprev_def set_lnext_def set_lprev_def upd_page_def fun_eq_iff)

subsection \<open>Well-formed free lists\<close>

text \<open>\<open>L b c\<close> is the free list (\<open>b\<close> false) or the standby list (\<open>b\<close> true) of section \<open>c\<close>.\<close>

type_synonym framelists = "bool \<Rightarrow> nat \<Rightarrow> pageid list"

definition frame_ok :: "'a pmm_scheme \<Rightarrow> bool \<Rightarrow> nat \<Rightarrow> pageid \<Rightarrow> bool" where
  "frame_ok s b c p \<longleftrightarrow> section_of p = c \<and> (backing (pages s p) \<noteq> None) = b \<and> refcount (pages s p) = 0
     \<and> (b \<longrightarrow> PAGE_FLAGS_FREE \<notin> pg_flags (pages s p)) \<and> PAGE_FLAGS_DIRTY \<notin> pg_flags (pages s p)
     \<and> PAGE_BOUNDARYCHECK s p"

text \<open>The lists are linked as they should be and their frames, those in \<open>X\<close> apart, are in order.\<close>

definition lists_ok :: "pageid set \<Rightarrow> 'a pmm_scheme \<Rightarrow> framelists \<Rightarrow> bool" where
  "lists_ok X s L \<longleftrightarrow> (\<forall>b c. c < 3 \<longrightarrow> dllist (lnext s) (lprev s) (list_of b c s) (tail_of b c s) (L b c)
       \<and> (\<forall>p\<in>set (L b c). section_of p = c \<and> (backing (pages s p) \<noteq> None) = b \<and> (p \<notin> X \<longrightarrow> frame_ok s b c p)))
     \<and> freepagecount s = (\<Sum>c<3. length (L False c) + length (L True c))"

text \<open>Every frame marked free, those in \<open>X\<close> apart, is on its free list.\<close>

definition free_listed :: "pageid set \<Rightarrow> 'a pmm_scheme \<Rightarrow> framelists \<Rightarrow> bool" where
  "free_listed X s L \<longleftrightarrow> (\<forall>p. PAGE_FLAGS_FREE \<in> pg_flags (pages s p) \<and> p \<notin> X \<longrightarrow> p \<in> set (L False (section_of p)))"

definition pmm_ok :: "'a pmm_scheme \<Rightarrow> framelists \<Rightarrow> bool" where
  "pmm_ok s L \<longleftrightarrow> lists_ok {} s L \<and> free_listed {} s L"

lemma section_of_less [simp]: "section_of p < 3"
  by (simp add: section_of_def PMM_SECTION_1MB_def PMM_SECTION_4GB_def PMM_SECTION_DEFAULT_def)

lemma lists_okD:
  assumes "lists_ok X s L" and "c < 3"
  shows "dllist (lnext s) (lprev s) (list_of b c s) (tail_of b c s) (L b c)"
    and "p \<in> set (L b c) \<Longrightarrow> section_of p = c \<and> (backing (pages s p) \<noteq> None) = b"
    and "p \<in> set (L b c) \<Longrightarrow> p \<notin> X \<Longrightarrow> frame_ok s b c p"
  using assms unfolding lists_ok_def by blast+

lemma lists_disjoint:
  assumes "lists_ok X s L" and "c < 3" "c' < 3" and "(b, c) \<noteq> (b', c')"
  shows "set (L b c) \<inter> set (L b' c') = {}"
proof -
  have "False" if "p \<in> set (L b c)" "p \<in> set (L b' c')" for p
    using lists_okD(2) [OF assms(1,2) that(1)] lists_okD(2) [OF assms(1,3) that(2)] assms(4) by simp
  then show ?thesis by blast
qed

text \<open>A page without its place in a list; and what the list operations do not touch.\<close>

definition unlinked :: "page \<Rightarrow> page" where
  "unlinked x = x\<lparr>pg_next := None, pg_prev := None\<rparr>"

definition same_frames :: "'a pmm_scheme \<Rightarrow> 'a pmm_scheme \<Rightarrow> bool" where
  "same_frames s s' \<longleftrightarrow> (\<forall>p. unlinked (pages s' p) = unlinked (pages s p))
     \<and> pages_addr s' = pages_addr s \<and> pagecount s' = pagecount s \<and> pmm.more s' = pmm.more s"

lemma unlinked_fields:
  assumes "unlinked x = unlinked y"
  shows "backing x = backing y" "refcount x = refcount y" "pg_flags x = pg_flags y" "pg_offset x = pg_offset y"
    "hashnext x = hashnext y" "hashprev x = hashprev y" "vnodenext x = vnodenext y" "vnodeprev x = vnodeprev y"
  using assms by (cases x; cases y; simp add: unlinked_def)+

lemma same_framesD:
  assumes "same_frames s s'"
  shows "backing (pages s' p) = backing (pages s p)" "refcount (pages s' p) = refcount (pages s p)"
    "pg_flags (pages s' p) = pg_flags (pages s p)" "PAGE_BOUNDARYCHECK s' p = PAGE_BOUNDARYCHECK s p"
    "frame_ok s' b c p = frame_ok s b c p"
  using assms unlinked_fields [of "pages s' p" "pages s p"]
  by (simp_all add: same_frames_def PAGE_BOUNDARYCHECK_def frame_ok_def)

lemma same_frames_refl [simp]: "same_frames s s"
  by (simp add: same_frames_def)

lemma same_frames_trans: "same_frames s s' \<Longrightarrow> same_frames s' s'' \<Longrightarrow> same_frames s s''"
  by (simp add: same_frames_def)

lemma list_fields [simp]:
  "lnext (set_list b c v s) = lnext s" "lprev (set_list b c v s) = lprev s"
  "lnext (set_tail b c v s) = lnext s" "lprev (set_tail b c v s) = lprev s"
  "pages (set_list b c v s) = pages s" "pages (set_tail b c v s) = pages s"
  "list_of b' c' (set_list b c v s) = (if b' = b \<and> c' = c then v else list_of b' c' s)"
  "tail_of b' c' (set_list b c v s) = tail_of b' c' s" "list_of b' c' (set_tail b c v s) = list_of b' c' s"
  "tail_of b' c' (set_tail b c v s) = (if b' = b \<and> c' = c then v else tail_of b' c' s)"
  "list_of b' c' (set_lnext p v s) = list_of b' c' s" "list_of b' c' (set_lprev p v s) = list_of b' c' s"
  "tail_of b' c' (set_lnext p v s) = tail_of b' c' s" "tail_of b' c' (set_lprev p v s) = tail_of b' c' s"
  "freepagecount (set_list b c v s) = freepagecount s" "freepagecount (set_tail b c v s) = freepagecount s"
  "freepagecount (set_lnext p v s) = freepagecount s" "freepagecount (set_lprev p v s) = freepagecount s"
  by (auto simp: lnext_def lprev_def set_list_def set_tail_def list_of_def tail_of_def set_lnext_def set_lprev_def
      upd_page_def fun_eq_iff)

lemma same_frames_set [simp]:
  "same_frames s (set_list b c v s') = same_frames s s'" "same_frames s (set_tail b c v s') = same_frames s s'"
  "same_frames s (set_lnext p v s') = same_frames s s'" "same_frames s (set_lprev p v s') = same_frames s s'"
  by (auto simp: same_frames_def set_list_def set_tail_def set_lnext_def set_lprev_def upd_page_def unlinked_def)

lemma same_frames_upd [simp]:
  "same_frames s (s'\<lparr>freepagecount := n\<rparr>) = same_frames s s'" "same_frames s (s'\<lparr>searchstart := f\<rparr>) = same_frames s s'"
  "lnext (s\<lparr>freepagecount := n\<rparr>) = lnext s" "lprev (s\<lparr>freepagecount := n\<rparr>) = lprev s"
  "list_of b c (s\<lparr>freepagecount := n\<rparr>) = list_of b c s" "tail_of b c (s\<lparr>freepagecount := n\<rparr>) = tail_of b c s"
  "lnext (s\<lparr>searchstart := f\<rparr>) = lnext s" "lprev (s\<lparr>searchstart := f\<rparr>) = lprev s"
  "list_of b c (s\<lparr>searchstart := f\<rparr>) = list_of b c s" "tail_of b c (s\<lparr>searchstart := f\<rparr>) = tail_of b c s"
  by (auto simp: same_frames_def lnext_def lprev_def list_of_def tail_of_def fun_eq_iff)

lemma sum_upd: "(k :: nat) < n \<Longrightarrow> (\<Sum>c<n. if c = k then Suc (f c) else f c) = Suc (\<Sum>c<n. f c)"
  by (simp add: sum.remove [of "{..<n}" k])

lemma count_upd:
  fixes L L' :: framelists
  assumes "c < 3" and "length (L' b c) = Suc (length (L b c))" and "\<And>b' c'. (b', c') \<noteq> (b, c) \<Longrightarrow> L' b' c' = L b' c'"
  shows "(\<Sum>c<3. length (L' False c) + length (L' True c)) = Suc (\<Sum>c<3. length (L False c) + length (L True c))"
proof -
  have "length (L' False c') + length (L' True c')
      = (if c' = c then Suc (length (L False c') + length (L True c')) else length (L False c') + length (L True c'))" for c'
    using assms(2) assms(3) [of "\<not> b" c'] assms(3) [of True c'] assms(3) [of False c'] by (cases b) auto
  then show ?thesis using sum_upd [OF assms(1)] by simp
qed

text \<open>After an edit of one list, the others are as they were.\<close>

lemma lists_okI:
  fixes L :: framelists
  assumes ok: "lists_ok X s L" and same: "same_frames s s'" and c: "c < 3"
    and heads: "\<And>b' c'. (b', c') \<noteq> (b, c) \<Longrightarrow> list_of b' c' s' = list_of b' c' s \<and> tail_of b' c' s' = tail_of b' c' s
        \<and> L' b' c' = L b' c'"
    and frame: "\<And>q b' c'. (b', c') \<noteq> (b, c) \<Longrightarrow> c' < 3 \<Longrightarrow> q \<in> set (L b' c') \<Longrightarrow> lnext s' q = lnext s q \<and> lprev s' q = lprev s q"
    and new: "dllist (lnext s') (lprev s') (list_of b c s') (tail_of b c s') (L' b c)"
      "\<And>q. q \<in> set (L' b c) \<Longrightarrow> section_of q = c \<and> (backing (pages s q) \<noteq> None) = b \<and> (q \<notin> X' \<longrightarrow> frame_ok s b c q)"
    and X: "\<And>q b' c'. (b', c') \<noteq> (b, c) \<Longrightarrow> c' < 3 \<Longrightarrow> q \<in> set (L b' c') \<Longrightarrow> q \<in> X \<Longrightarrow> q \<in> X'"
    and cnt: "freepagecount s' = (\<Sum>c<3. length (L' False c) + length (L' True c))"
  shows "lists_ok X' s' L'"
proof -
  have "dllist (lnext s') (lprev s') (list_of b' c' s') (tail_of b' c' s') (L' b' c')
      \<and> (\<forall>q\<in>set (L' b' c'). section_of q = c' \<and> (backing (pages s' q) \<noteq> None) = b' \<and> (q \<notin> X' \<longrightarrow> frame_ok s' b' c' q))"
    if c': "c' < 3" for b' c'
  proof (cases "(b', c') = (b, c)")
    case True
    with new show ?thesis by (auto simp: same_framesD [OF same])
  next
    case False
    have "dllist (lnext s') (lprev s') (list_of b' c' s) (tail_of b' c' s) (L b' c')
        = dllist (lnext s) (lprev s) (list_of b' c' s) (tail_of b' c' s) (L b' c')"
      using frame [OF False c'] by (intro dllist_frame) auto
    with heads [OF False] lists_okD(1-3) [OF ok c', where b = b'] X [OF False c'] show ?thesis
      by (auto simp: same_framesD [OF same])
  qed
  with cnt show ?thesis unfolding lists_ok_def by blast
qed

lemma insertinfreelist_ok:
  assumes ok: "lists_ok X s L" and p: "frame_ok s b c p" "p \<notin> set (L b c)" and L': "L' = L(b := (L b)(c := p # L b c))"
  obtains s' where "insertinfreelist p s = Some s'" and "lists_ok X s' L'" and "same_frames s s'"
    and "searchstart s' = (searchstart s)(c := min p (searchstart s c))"
proof -
  have b: "section_of p = c" "(backing (pages s p) \<noteq> None) = b" "PAGE_BOUNDARYCHECK s p" "c < 3"
    using p(1) section_of_less [of p] by (auto simp: frame_ok_def)
  define s0 where "s0 = (if searchstart s c > p then s\<lparr>searchstart := (searchstart s)(c := p)\<rparr> else s)"
  define h1 where "h1 = set_lprev p None (set_lnext p (list_of b c s0) s0)"
  define h2 where "h2 = (case list_of b c s0 of None \<Rightarrow> h1 | Some n \<Rightarrow> set_lprev n (Some p) h1)"
  define s' where "s' = (case list_of b c s0 of None \<Rightarrow> set_tail b c (Some p) (set_list b c (Some p) h1)
      | Some n \<Rightarrow> set_lprev n (Some p) (set_list b c (Some p) h1))\<lparr>freepagecount := freepagecount s + 1\<rparr>"
  have ins: "insertinfreelist p s = Some s'"
    using b by (simp add: insertinfreelist_def Let_def s0_def s'_def h1_def framelist.links split: option.split)
  have s0: "lnext s0 = lnext s" "lprev s0 = lprev s" "list_of b' c' s0 = list_of b' c' s" "tail_of b' c' s0 = tail_of b' c' s"
      "same_frames s s0" for b' c' by (simp_all add: s0_def)
  have links: "lnext s' = lnext h2" "lprev s' = lprev h2" by (simp_all add: s'_def h2_def framelist.links split: option.split)
  have same: "same_frames s s'" using s0(5) by (simp add: s'_def h1_def split: option.split)
  have heads: "list_of b' c' s' = (if b' = b \<and> c' = c then Some p else list_of b' c' s)"
      "tail_of b' c' s' = (if b' = b \<and> c' = c \<and> list_of b c s = None then Some p else tail_of b' c' s)" for b' c'
    by (auto simp: s'_def h1_def s0 split: option.split)
  have l0: "dllist (lnext s0) (lprev s0) (list_of b c s0) (tail_of b c s0) (L b c)"
    using lists_okD(1) [OF ok b(4), of b] by (simp add: s0)
  note push = framelist.push_head [OF l0 p(2) h1_def h2_def] and fr = framelist.push_head_frame [OF l0 _ h1_def h2_def]
  have cnt: "(\<Sum>c<3. length (L' False c) + length (L' True c)) = Suc (\<Sum>c<3. length (L False c) + length (L True c))"
    by (rule count_upd [OF b(4), of _ b]) (auto simp: L')
  have tot: "freepagecount s' = (\<Sum>c<3. length (L' False c) + length (L' True c))"
    unfolding cnt using ok by (simp add: s'_def lists_ok_def)
  have "lists_ok X s' L'"
  proof (rule lists_okI [OF ok same b(4), of b])
    show "lnext s' q = lnext s q \<and> lprev s' q = lprev s q" if "(b', c') \<noteq> (b, c)" "c' < 3" "q \<in> set (L b' c')" for q b' c'
    proof -
      have "q \<notin> set (p # L b c)"
        using that b lists_disjoint [OF ok that(2) b(4) that(1)] lists_okD(2) [OF ok that(2,3)] by auto
      from fr [OF this] show ?thesis by (simp add: links s0)
    qed
    show "section_of q = c \<and> (backing (pages s q) \<noteq> None) = b \<and> (q \<notin> X \<longrightarrow> frame_ok s b c q)" if "q \<in> set (L' b c)" for q
      using that p(1) b lists_okD(2,3) [OF ok b(4), of q b] by (auto simp: L')
    show "dllist (lnext s') (lprev s') (list_of b c s') (tail_of b c s') (L' b c)"
      using push by (cases "list_of b c s") (simp_all add: heads links L' s0)
  qed (auto simp: heads L' tot)
  moreover have "searchstart s' = (searchstart s)(c := min p (searchstart s c))"
    by (auto simp: s'_def h1_def s0_def set_list_def set_tail_def set_lnext_def set_lprev_def upd_page_def fun_eq_iff
        split: option.split)
  ultimately show ?thesis using that ins same by blast
qed

lemma removefromfreelist_ok:
  assumes ok: "lists_ok X s L" and p: "L b c = ps @ p # qs" "c < 3" "PAGE_BOUNDARYCHECK s p"
    and L': "L' = L(b := (L b)(c := ps @ qs))"
  obtains s' where "removefromfreelist p s = Some s'" and "lists_ok (X - {p}) s' L'" and "same_frames s s'"
    and "searchstart s' = searchstart s"
proof -
  have b: "section_of p = c" "(backing (pages s p) \<noteq> None) = b" using lists_okD(2) [OF ok p(2), of p b] p(1) by auto
  define h1 where "h1 = (case lprev s p of None \<Rightarrow> s | Some q \<Rightarrow> set_lnext q (lnext s p) s)"
  define h2 where "h2 = (case lnext s p of None \<Rightarrow> h1 | Some n \<Rightarrow> set_lprev n (lprev s p) h1)"
  define s1 where "s1 = (case lprev s p of Some q \<Rightarrow> set_lnext q (lnext s p) s | None \<Rightarrow> set_list b c (lnext s p) s)"
  define s' where "s' = (case lnext s p of Some n \<Rightarrow> set_lprev n (lprev s p) s1
      | None \<Rightarrow> set_tail b c (lprev s p) s1)\<lparr>freepagecount := freepagecount s - 1\<rparr>"
  note l = lists_okD(1) [OF ok p(2), of b, unfolded p(1)]
  have d: "distinct (ps @ p # qs)" by (rule dllist_distinct [OF l])
  have ne: "lprev s p \<noteq> Some p"
    using dllist_prev_of [OF l] d last_in_set [of ps] by (auto split: if_splits)
  have rem: "removefromfreelist p s = Some s'"
    using b p(3) ne by (auto simp: removefromfreelist_def Let_def s1_def s'_def framelist.links split: option.split)
  have links: "lnext s' = lnext h2" "lprev s' = lprev h2"
    by (simp_all add: s'_def s1_def h2_def h1_def framelist.links split: option.split)
  have same: "same_frames s s'" by (simp add: s'_def s1_def split: option.split)
  have heads: "list_of b' c' s' = (if b' = b \<and> c' = c \<and> lprev s p = None then lnext s p else list_of b' c' s)"
      "tail_of b' c' s' = (if b' = b \<and> c' = c \<and> lnext s p = None then lprev s p else tail_of b' c' s)" for b' c'
    by (auto simp: s'_def s1_def split: option.split)
  note cut = framelist.unlink [OF l h1_def h2_def] and fr = framelist.unlink_frame [OF l _ h1_def h2_def]
  have cnt: "(\<Sum>c<3. length (L False c) + length (L True c)) = Suc (\<Sum>c<3. length (L' False c) + length (L' True c))"
    by (rule count_upd [OF p(2), of _ b]) (auto simp: L' p(1))
  have tot: "freepagecount s' = (\<Sum>c<3. length (L' False c) + length (L' True c))"
    using ok cnt by (simp add: s'_def lists_ok_def)
  have "lists_ok (X - {p}) s' L'"
  proof (rule lists_okI [OF ok same p(2), of b])
    show "lnext s' q = lnext s q \<and> lprev s' q = lprev s q" if "(b', c') \<noteq> (b, c)" "c' < 3" "q \<in> set (L b' c')" for q b' c'
    proof -
      have "q \<notin> set (ps @ p # qs)" using that lists_disjoint [OF ok that(2) p(2) that(1)] by (auto simp: p(1))
      from fr [OF this] show ?thesis by (simp add: links)
    qed
    show "q \<in> X - {p}" if "(b', c') \<noteq> (b, c)" "c' < 3" "q \<in> set (L b' c')" "q \<in> X" for q b' c'
      using that lists_disjoint [OF ok that(2) p(2) that(1)] by (auto simp: p(1))
    show "section_of q = c \<and> (backing (pages s q) \<noteq> None) = b \<and> (q \<notin> X - {p} \<longrightarrow> frame_ok s b c q)"
      if "q \<in> set (L' b c)" for q
      using that d lists_okD(2,3) [OF ok p(2), of q b] by (auto simp: L' p(1))
    show "dllist (lnext s') (lprev s') (list_of b c s') (tail_of b c s') (L' b c)"
      using cut by (cases "lprev s p"; cases "lnext s p") (simp_all add: heads links L')
  qed (auto simp: heads L' tot)
  moreover have "searchstart s' = searchstart s"
    by (auto simp: s'_def s1_def set_list_def set_tail_def set_lnext_def set_lprev_def upd_page_def split: option.split)
  ultimately show ?thesis using that rem same by blast
qed

text \<open>The lists without some frames.\<close>

definition dropped :: "pageid set \<Rightarrow> framelists \<Rightarrow> framelists" where
  "dropped P L b c = filter (\<lambda>q. q \<notin> P) (L b c)"

definition unlisted :: "framelists \<Rightarrow> pageid \<Rightarrow> bool" where
  "unlisted L p \<longleftrightarrow> (\<forall>b. p \<notin> set (L b (section_of p)))"

lemma dropped_set [simp]: "set (dropped P L b c) = set (L b c) - P"
  by (auto simp: dropped_def)

lemma dropped_dropped: "dropped P (dropped Q L) = dropped (Q \<union> P) L"
  by (auto simp: dropped_def fun_eq_iff intro!: filter_cong)

lemma dropped_empty [simp]: "dropped {} L = L"
  by (simp add: dropped_def fun_eq_iff)

lemma lists_ok_cong:
  assumes "\<And>b c. c < 3 \<Longrightarrow> L' b c = L b c"
  shows "lists_ok X s L' = lists_ok X s L"
  unfolding lists_ok_def by (simp add: assms)

lemma unlistedI: "lists_ok X s L \<Longrightarrow> unlisted L p \<Longrightarrow> c < 3 \<Longrightarrow> p \<notin> set (L b c)"
  using lists_okD(2) [of X s L c p b] by (auto simp: unlisted_def)

lemma remove_listed:
  assumes ok: "lists_ok X s L" and p: "p \<in> set (L b c)" "c < 3" "PAGE_BOUNDARYCHECK s p"
  obtains s' where "removefromfreelist p s = Some s'" and "lists_ok (X - {p}) s' (dropped {p} L)" and "same_frames s s'"
    and "searchstart s' = searchstart s"
proof -
  obtain ps qs where L: "L b c = ps @ p # qs" using p(1) by (auto dest: split_list)
  have d: "distinct (ps @ p # qs)" using dllist_distinct [OF lists_okD(1) [OF ok p(2), of b]] by (simp add: L)
  then have "filter (\<lambda>q. q \<noteq> p) ps = ps" "filter (\<lambda>q. q \<noteq> p) qs = qs" by (auto simp: filter_id_conv)
  then have f: "filter (\<lambda>q. q \<noteq> p) (ps @ p # qs) = ps @ qs" by simp
  have "dropped {p} L b' c' = (L(b := (L b)(c := ps @ qs))) b' c'" if c': "c' < 3" for b' c'
  proof (cases "(b', c') = (b, c)")
    case False
    with lists_disjoint [OF ok c' p(2) False] p(1) show ?thesis by (auto simp: dropped_def filter_id_conv)
  qed (use f L in \<open>simp add: dropped_def\<close>)
  then have "lists_ok Y t (dropped {p} L) = lists_ok Y t (L(b := (L b)(c := ps @ qs)))" for Y and t :: "'a pmm_scheme"
    by (rule lists_ok_cong)
  with that removefromfreelist_ok [OF ok L p(2,3) refl] show ?thesis by metis
qed

text \<open>Changing a frame that is on no list, or one whose place and backing stay.\<close>

lemma upd_unlisted:
  assumes ok: "lists_ok X s L" and p: "unlisted L p"
  shows "lists_ok X (upd_page p f s) L"
proof -
  have q: "pages (upd_page p f s) q = pages s q" if "q \<in> set (L b c)" "c < 3" for q b c
    using that unlistedI [OF ok p] by (auto simp: upd_page_def)
  have "dllist (lnext (upd_page p f s)) (lprev (upd_page p f s)) (list_of b c s) (tail_of b c s) (L b c)
      = dllist (lnext s) (lprev s) (list_of b c s) (tail_of b c s) (L b c)" if "c < 3" for b c
    using q that by (intro dllist_frame) (simp_all add: lnext_def lprev_def)
  moreover have "list_of b c (upd_page p f s) = list_of b c s" "tail_of b c (upd_page p f s) = tail_of b c s"
    "PAGE_BOUNDARYCHECK (upd_page p f s) = PAGE_BOUNDARYCHECK s" "freepagecount (upd_page p f s) = freepagecount s" for b c
    by (auto simp: list_of_def tail_of_def upd_page_def PAGE_BOUNDARYCHECK_def fun_eq_iff)
  ultimately show ?thesis using ok q by (simp add: lists_ok_def frame_ok_def)
qed

lemma upd_listed:
  assumes ok: "lists_ok X s L"
    and f: "\<And>x. pg_next (f x) = pg_next x \<and> pg_prev (f x) = pg_prev x \<and> backing (f x) = backing x"
  shows "lists_ok (insert p X) (upd_page p f s) L"
proof -
  have "lnext (upd_page p f s) = lnext s" "lprev (upd_page p f s) = lprev s" "list_of b c (upd_page p f s) = list_of b c s"
      "tail_of b c (upd_page p f s) = tail_of b c s" "PAGE_BOUNDARYCHECK (upd_page p f s) = PAGE_BOUNDARYCHECK s"
      "freepagecount (upd_page p f s) = freepagecount s" "backing (pages (upd_page p f s) q) = backing (pages s q)"
      "q \<noteq> p \<Longrightarrow> pages (upd_page p f s) q = pages s q" for b c q
    using f by (auto simp: lnext_def lprev_def list_of_def tail_of_def upd_page_def PAGE_BOUNDARYCHECK_def fun_eq_iff)
  then show ?thesis using ok by (simp add: lists_ok_def frame_ok_def)
qed

lemma lists_ok_restore:
  assumes ok: "lists_ok (insert p X) s L" and p: "\<And>b c. c < 3 \<Longrightarrow> p \<in> set (L b c) \<Longrightarrow> frame_ok s b c p"
  shows "lists_ok X s L"
proof -
  have "frame_ok s b c q" if "q \<in> set (L b c)" "c < 3" "q \<notin> X" for q b c
    using p [OF that(2)] lists_okD(3) [OF ok that(2,1)] that by (cases "q = p") auto
  with ok show ?thesis unfolding lists_ok_def by blast
qed

lemma pmm_okD:
  assumes "pmm_ok s L"
  shows "lists_ok {} s L" and "PAGE_FLAGS_FREE \<in> pg_flags (pages s p) \<Longrightarrow> p \<in> set (L False (section_of p))"
    and "p \<in> set (L b (section_of p)) \<Longrightarrow> frame_ok s b (section_of p) p"
    and "refcount (pages s p) \<noteq> 0 \<Longrightarrow> unlisted L p"
proof -
  show ok: "lists_ok {} s L" and "PAGE_FLAGS_FREE \<in> pg_flags (pages s p) \<Longrightarrow> p \<in> set (L False (section_of p))"
    using assms by (auto simp: pmm_ok_def free_listed_def)
  show f: "frame_ok s b (section_of p) p" if "p \<in> set (L b (section_of p))" for b
    using lists_okD(3) [OF ok section_of_less that] by simp
  show "unlisted L p" if "refcount (pages s p) \<noteq> 0" using f that by (auto simp: unlisted_def frame_ok_def)
qed

lemma upd_simps [simp]:
  "pages (upd_page p f s) p = f (pages s p)" "q \<noteq> p \<Longrightarrow> pages (upd_page p f s) q = pages s q"
  "PAGE_BOUNDARYCHECK (upd_page p f s) = PAGE_BOUNDARYCHECK s" "pagecount (upd_page p f s) = pagecount s"
  "searchstart (upd_page p f s) = searchstart s" "pmm.more (upd_page p f s) = pmm.more s"
  by (auto simp: upd_page_def PAGE_BOUNDARYCHECK_def fun_eq_iff)

lemma free_listed_drop:
  assumes "free_listed X s L" and "\<And>q. q \<notin> P \<Longrightarrow> PAGE_FLAGS_FREE \<in> pg_flags (pages s' q) \<Longrightarrow> PAGE_FLAGS_FREE \<in> pg_flags (pages s q)"
    and "\<And>q. q \<in> P \<Longrightarrow> PAGE_FLAGS_FREE \<notin> pg_flags (pages s' q)"
  shows "free_listed X s' (dropped P L)"
  unfolding free_listed_def
proof (intro allI impI)
  fix q
  assume q: "PAGE_FLAGS_FREE \<in> pg_flags (pages s' q) \<and> q \<notin> X"
  with assms(2,3) have "q \<notin> P" "PAGE_FLAGS_FREE \<in> pg_flags (pages s q)" by blast+
  with q assms(1) show "q \<in> set (dropped P L False (section_of q))" by (simp add: free_listed_def)
qed

subsection \<open>Holding and releasing\<close>

lemma hold_standby:
  assumes ok: "pmm_ok s L" and p: "p \<in> set (L True (section_of p))"
  obtains s' where "internalhold p s = Some s'" and "pmm_ok s' (dropped {p} L)"
    and "same_frames (upd_page p (\<lambda>x. x\<lparr>refcount := 1\<rparr>) s) s'" and "searchstart s' = searchstart s"
proof -
  let ?u = "upd_page p (\<lambda>x. x\<lparr>refcount := refcount x + 1\<rparr>) s"
  note D = pmm_okD [OF ok]
  have f: "refcount (pages s p) = 0" "PAGE_FLAGS_FREE \<notin> pg_flags (pages s p)" "PAGE_BOUNDARYCHECK ?u p"
    using D(3) [OF p] by (auto simp: frame_ok_def)
  have "lists_ok {p} ?u L" using upd_listed [OF D(1)] by simp
  from remove_listed [OF this p section_of_less f(3)] obtain s' where s': "removefromfreelist p ?u = Some s'"
    "lists_ok {} s' (dropped {p} L)" "same_frames ?u s'" "searchstart s' = searchstart s" by auto
  have u: "?u = upd_page p (\<lambda>x. x\<lparr>refcount := 1\<rparr>) s" using f(1) by (simp add: upd_page_def)
  have "internalhold p s = Some s'" using f s'(1) by (simp add: internalhold_def)
  moreover have "free_listed {} s' (dropped {p} L)"
    using ok f(2) by (intro free_listed_drop [of _ s]) (auto simp: pmm_ok_def same_framesD(3) [OF s'(3)])
  ultimately show ?thesis using that s'(2-4) unfolding u by (simp add: pmm_ok_def)
qed

lemma hold_held:
  assumes ok: "pmm_ok s L" and p: "refcount (pages s p) \<noteq> 0"
  shows "internalhold p s = Some (upd_page p (\<lambda>x. x\<lparr>refcount := refcount x + 1\<rparr>) s)"
    and "pmm_ok (upd_page p (\<lambda>x. x\<lparr>refcount := refcount x + 1\<rparr>) s) L"
proof -
  note D = pmm_okD [OF ok]
  show "internalhold p s = Some (upd_page p (\<lambda>x. x\<lparr>refcount := refcount x + 1\<rparr>) s)"
    using p by (simp add: internalhold_def)
  have "lists_ok {} (upd_page p (\<lambda>x. x\<lparr>refcount := refcount x + 1\<rparr>) s) L" by (rule upd_unlisted [OF D(1) D(4) [OF p]])
  moreover have "free_listed {} (upd_page p (\<lambda>x. x\<lparr>refcount := refcount x + 1\<rparr>) s) L"
    using D(2) by (auto simp: free_listed_def upd_page_def split: if_splits)
  ultimately show "pmm_ok (upd_page p (\<lambda>x. x\<lparr>refcount := refcount x + 1\<rparr>) s) L" by (simp add: pmm_ok_def)
qed

text \<open>Pushing a frame on its list.\<close>

definition pushed :: "pageid \<Rightarrow> bool \<Rightarrow> framelists \<Rightarrow> framelists" where
  "pushed p b L = L(b := (L b)(section_of p := p # L b (section_of p)))"

lemma pushed_set: "set (pushed p b L b' c) = set (L b' c) \<union> (if b' = b \<and> c = section_of p then {p} else {})"
  by (auto simp: pushed_def)

lemma release_last:
  assumes ok: "pmm_ok s L" and p: "refcount (pages s p) = 1" "PAGE_FLAGS_DIRTY \<notin> pg_flags (pages s p)" "PAGE_BOUNDARYCHECK s p"
    and a: "addr div 4096 = p"
  obtains s' where "pmm_release addr s = Some s'" and "pmm_ok s' (pushed p (backing (pages s p) \<noteq> None) L)"
    and "refcount (pages s' p) = 0" and "backing (pages s' p) = backing (pages s p)"
    and "\<And>q. q \<noteq> p \<Longrightarrow> unlinked (pages s' q) = unlinked (pages s q)" and "PAGE_BOUNDARYCHECK s' = PAGE_BOUNDARYCHECK s"
    and "pg_flags (pages s' p) = pg_flags (pages s p) \<union> (if backing (pages s p) = None then {PAGE_FLAGS_FREE} else {})"
proof -
  note D = pmm_okD [OF ok]
  let ?b = "backing (pages s p) \<noteq> None" and ?c = "section_of p"
  let ?u = "upd_page p (\<lambda>x. x\<lparr>refcount := refcount x - 1\<rparr>) s"
  have un: "unlisted L p" using D(4) p(1) by simp
  have nf: "PAGE_FLAGS_FREE \<notin> pg_flags (pages s p)" using D(2) un by (auto simp: unlisted_def)
  have fr: "frame_ok ?u ?b ?c p" using p nf by (simp add: frame_ok_def)
  have "p \<notin> set (L ?b ?c)" using un by (simp add: unlisted_def)
  from insertinfreelist_ok [OF upd_unlisted [OF D(1) un] fr this refl]
  obtain s1 where s1: "insertinfreelist p ?u = Some s1" "lists_ok {} s1 (pushed p ?b L)" "same_frames ?u s1"
    by (auto simp: pushed_def)
  note S = same_framesD [OF s1(3)]
  let ?s = "if backing (pages s1 p) = None
    then upd_page p (\<lambda>x. x\<lparr>pg_flags := insert PAGE_FLAGS_FREE (pg_flags x)\<rparr>) s1 else s1"
  have rel: "pmm_release addr s = Some ?s"
    using p s1(1) a by (simp add: pmm_release_def release_drop_def release_insert_def)
  have "lists_ok {} ?s (pushed p ?b L)"
  proof (cases "backing (pages s p) = None")
    case True
    have "lists_ok {p} ?s (pushed p ?b L)" using True upd_listed [OF s1(2)] by (simp add: S)
    then show ?thesis
    proof (rule lists_ok_restore)
      show "frame_ok ?s b c p" if "c < 3" "p \<in> set (pushed p ?b L b c)" for b c
        using that True lists_okD(2,3) [OF s1(2) that] by (auto simp: frame_ok_def S)
    qed
  qed (use s1(2) in \<open>auto simp: S\<close>)
  moreover have "free_listed {} ?s (pushed p ?b L)"
    unfolding free_listed_def
  proof (intro allI impI)
    fix q
    assume q: "PAGE_FLAGS_FREE \<in> pg_flags (pages ?s q) \<and> q \<notin> {}"
    show "q \<in> set (pushed p ?b L False (section_of q))"
    proof (cases "q = p")
      case True
      with q nf show ?thesis by (auto simp: pushed_set S split: if_splits)
    next
      case False
      with q D(2) [of q] show ?thesis by (auto simp: pushed_set S split: if_splits)
    qed
  qed
  moreover have "unlinked (pages ?s q) = unlinked (pages s q)" if "q \<noteq> p" for q
    using that s1(3) by (simp add: same_frames_def)
  moreover have "PAGE_BOUNDARYCHECK ?s = PAGE_BOUNDARYCHECK s" by (simp add: fun_eq_iff S)
  ultimately show ?thesis using that [OF rel] p(1) by (simp add: pmm_ok_def S)
qed

lemma release_held:
  assumes ok: "pmm_ok s L" and p: "refcount (pages s p) \<noteq> 0" "refcount (pages s p) \<noteq> 1" and a: "addr div 4096 = p"
  shows "pmm_release addr s = Some (upd_page p (\<lambda>x. x\<lparr>refcount := refcount x - 1\<rparr>) s)"
    and "pmm_ok (upd_page p (\<lambda>x. x\<lparr>refcount := refcount x - 1\<rparr>) s) L"
proof -
  note D = pmm_okD [OF ok]
  have "refcount (pages s p) - 1 \<noteq> 0" using p(2) by simp
  then show "pmm_release addr s = Some (upd_page p (\<lambda>x. x\<lparr>refcount := refcount x - 1\<rparr>) s)"
    using p a by (simp add: pmm_release_def release_drop_def)
  have "lists_ok {} (upd_page p (\<lambda>x. x\<lparr>refcount := refcount x - 1\<rparr>) s) L" by (rule upd_unlisted [OF D(1) D(4) [OF p(1)]])
  moreover have "free_listed {} (upd_page p (\<lambda>x. x\<lparr>refcount := refcount x - 1\<rparr>) s) L"
    using D(2) by (auto simp: free_listed_def upd_page_def split: if_splits)
  ultimately show "pmm_ok (upd_page p (\<lambda>x. x\<lparr>refcount := refcount x - 1\<rparr>) s) L" by (simp add: pmm_ok_def)
qed

subsection \<open>Allocating\<close>

definition ALLOCATED :: page where
  "ALLOCATED = blank_page\<lparr>refcount := 1\<rparr>"

lemma take_frame:
  assumes ok: "pmm_ok s L" and p: "p \<in> set (L False (section_of p))"
  obtains s1 s' where "removefromfreelist p s = Some s1" and "refcount (pages s1 p) = 0" and "doalloc p s1 = Some s'"
    and "pmm_ok s' (dropped {p} L)" and "pages s' p = ALLOCATED" and "pagecount s' = pagecount s"
    and "\<And>q. q \<noteq> p \<Longrightarrow> unlinked (pages s' q) = unlinked (pages s q)" and "PAGE_BOUNDARYCHECK s' = PAGE_BOUNDARYCHECK s"
proof -
  note D = pmm_okD [OF ok]
  have f: "refcount (pages s p) = 0" "PAGE_BOUNDARYCHECK s p" using D(3) [OF p] by (auto simp: frame_ok_def)
  obtain s1 where s1: "removefromfreelist p s = Some s1" "lists_ok ({} - {p}) s1 (dropped {p} L)" "same_frames s s1"
    by (rule remove_listed [OF D(1) p section_of_less f(2)])
  note S = same_framesD [OF s1(3)]
  let ?s = "upd_page p (\<lambda>_. ALLOCATED) s1"
  have al: "doalloc p s1 = Some ?s" using f(1) by (simp add: doalloc_def S ALLOCATED_def)
  have "lists_ok {} ?s (dropped {p} L)" using s1(2) by (intro upd_unlisted) (auto simp: unlisted_def)
  moreover have "free_listed {} ?s (dropped {p} L)"
    using ok by (intro free_listed_drop [of _ s]) (auto simp: pmm_ok_def S ALLOCATED_def blank_page_def)
  ultimately have "pmm_ok ?s (dropped {p} L)" by (simp add: pmm_ok_def)
  moreover have "unlinked (pages ?s q) = unlinked (pages s q)" if "q \<noteq> p" for q using that s1(3) by (simp add: same_frames_def)
  moreover have "PAGE_BOUNDARYCHECK ?s = PAGE_BOUNDARYCHECK s" "pagecount ?s = pagecount s"
    using s1(3) by (auto simp: fun_eq_iff S same_frames_def)
  ultimately show ?thesis using that [OF s1(1) _ al] f(1) by (simp add: S)
qed

lemma take_run_ok:
  assumes "pmm_ok s L" and "\<And>p. p \<in> set ps \<Longrightarrow> PAGE_FLAGS_FREE \<in> pg_flags (pages s p)" and "distinct ps"
  shows "\<exists>s'. take_run ps s = Some s' \<and> pmm_ok s' (dropped (set ps) L) \<and> (\<forall>p\<in>set ps. unlinked (pages s' p) = ALLOCATED)
    \<and> (\<forall>q. q \<notin> set ps \<longrightarrow> unlinked (pages s' q) = unlinked (pages s q)) \<and> PAGE_BOUNDARYCHECK s' = PAGE_BOUNDARYCHECK s"
  using assms
proof (induction ps arbitrary: s L)
  case (Cons p ps)
  have "p \<in> set (L False (section_of p))" using pmm_okD(2) [OF Cons.prems(1)] Cons.prems(2) by simp
  then obtain s1 s2 where s2: "removefromfreelist p s = Some s1" "doalloc p s1 = Some s2" "pmm_ok s2 (dropped {p} L)"
      "pages s2 p = ALLOCATED" "\<And>q. q \<noteq> p \<Longrightarrow> unlinked (pages s2 q) = unlinked (pages s q)"
      "PAGE_BOUNDARYCHECK s2 = PAGE_BOUNDARYCHECK s"
    by (rule take_frame [OF Cons.prems(1)]) (rule that)
  have "PAGE_FLAGS_FREE \<in> pg_flags (pages s2 q)" if "q \<in> set ps" for q
    using that Cons.prems(2,3) unlinked_fields(3) [OF s2(5) [of q]] by auto
  from Cons.IH [OF s2(3) this] Cons.prems(3) obtain s' where s': "take_run ps s2 = Some s'"
      "pmm_ok s' (dropped (insert p (set ps)) L)" "\<forall>p\<in>set ps. unlinked (pages s' p) = ALLOCATED"
      "\<forall>q. q \<notin> set ps \<longrightarrow> unlinked (pages s' q) = unlinked (pages s2 q)" "PAGE_BOUNDARYCHECK s' = PAGE_BOUNDARYCHECK s2"
    by (auto simp: dropped_dropped)
  moreover have "unlinked ALLOCATED = ALLOCATED" by (simp add: unlinked_def ALLOCATED_def blank_page_def)
  ultimately show ?case using s2 Cons.prems(3) by auto
qed simp

definition is_free :: "'a pmm_scheme \<Rightarrow> pageid \<Rightarrow> bool" where
  "is_free s p \<longleftrightarrow> PAGE_FLAGS_FREE \<in> pg_flags (pages s p)"

lemma scan_found:
  assumes "scan sz c p found s = Some e" and "found < sz" and "found \<le> p"
    and "\<And>q. p - found \<le> q \<Longrightarrow> q < p \<Longrightarrow> is_free s q"
  shows "sz \<le> e + 1 \<and> e < topid c \<and> e < pagecount s \<and> (\<forall>q. e + 1 - sz \<le> q \<and> q \<le> e \<longrightarrow> is_free s q)"
  using assms
proof (induction sz c p found s rule: scan.induct)
  case (1 sz c p found s)
  let ?f = "if PAGE_FLAGS_FREE \<in> pg_flags (pages s p) then found + 1 else 0"
  have in_range: "p < topid c \<and> p < pagecount s" using "1.prems"(1) by (subst (asm) scan.simps) (auto split: if_splits)
  have run: "is_free s q" if "p + 1 - ?f \<le> q" "q < p + 1" for q
    using that "1.prems"(4) [of q] by (cases "q = p") (auto simp: is_free_def split: if_splits)
  show ?case
  proof (cases "?f = sz")
    case True
    then have "e = p" using "1.prems"(1) in_range by (subst (asm) scan.simps) (simp add: Let_def)
    moreover have "?f = found + 1" using True "1.prems"(2) by (auto split: if_splits)
    ultimately
    show ?thesis using True in_range run "1.prems"(3) by auto
  next
    case False
    then have "scan sz c (p + 1) ?f s = Some e"
      using "1.prems"(1) in_range by (subst (asm) scan.simps) (simp add: Let_def split: if_splits)
    moreover have "?f < sz" "?f \<le> p + 1" using False "1.prems"(2,3) by auto
    ultimately show ?thesis using "1.IH" [OF in_range refl False] run by blast
  qed
qed

lemma scan_none:
  assumes "scan sz c p found s = None" and "found < sz" and "found \<le> p"
    and "\<And>a. i \<le> a \<Longrightarrow> a < p - found \<Longrightarrow> \<exists>q. a \<le> q \<and> q < a + sz \<and> q < p \<and> \<not> is_free s q"
    and "i \<le> a" and "a + sz \<le> topid c" and "a + sz \<le> pagecount s"
  shows "\<exists>q. a \<le> q \<and> q < a + sz \<and> \<not> is_free s q"
  using assms
proof (induction sz c p found s rule: scan.induct)
  case (1 sz c p found s)
  let ?f = "if PAGE_FLAGS_FREE \<in> pg_flags (pages s p) then found + 1 else 0"
  show ?case
  proof (cases "p < topid c \<and> p < pagecount s")
    case False
    then have "a < p - found" using "1.prems"(2,3,6,7) by linarith
    with "1.prems"(4) [OF "1.prems"(5)] show ?thesis by blast
  next
    case True
    have ne: "?f \<noteq> sz" and rec: "scan sz c (p + 1) ?f s = None"
      using "1.prems"(1) True by (subst (asm) scan.simps, simp add: Let_def split: if_splits)+
    have "\<exists>q. b \<le> q \<and> q < b + sz \<and> q < p + 1 \<and> \<not> is_free s q" if "i \<le> b" "b < p + 1 - ?f" for b
    proof (cases "b < p - found")
      case True
      with "1.prems"(4) [OF that(1)] show ?thesis by fastforce
    next
      case False
      with that(2) have "\<not> is_free s p" "b \<le> p" by (auto simp: is_free_def split: if_splits)
      with False "1.prems"(2,3) show ?thesis by (intro exI [of _ p]) auto
    qed
    moreover have "?f < sz" "?f \<le> p + 1" using ne "1.prems"(2,3) by auto
    ultimately show ?thesis using "1.IH" [OF True refl ne rec] "1.prems"(5-7) by blast
  qed
qed

lemma search_found:
  assumes "search sz c s = Some e" and "0 < sz"
  shows "sz \<le> e + 1 \<and> e < pagecount s \<and> (\<forall>q. e + 1 - sz \<le> q \<and> q \<le> e \<longrightarrow> is_free s q)"
  using assms(1)
proof (induction c)
  case 0
  then show ?case using scan_found [of sz 0 "searchstart s 0" 0 s e] assms(2) by auto
next
  case (Suc c)
  then show ?case using scan_found [of sz "Suc c" "searchstart s (Suc c)" 0 s e] assms(2) by (auto split: option.splits)
qed

lemma search_none:
  assumes "search sz c s = None" and "0 < sz" and "c' \<le> c" and "searchstart s c' \<le> a" and "a + sz \<le> topid c'"
    and "a + sz \<le> pagecount s"
  shows "\<exists>q. a \<le> q \<and> q < a + sz \<and> \<not> is_free s q"
  using assms(1,3)
proof (induction c)
  case 0
  then show ?case using scan_none [of sz 0 "searchstart s 0" 0 s "searchstart s 0" a] assms by auto
next
  case (Suc c)
  then show ?case
    using scan_none [of sz "Suc c" "searchstart s (Suc c)" 0 s "searchstart s (Suc c)" a] assms(2,4-)
    by (cases "c' = Suc c") (auto split: option.splits)
qed

lemma is_free_unlinked: "unlinked (pages s' q) = unlinked (pages s q) \<Longrightarrow> is_free s' q = is_free s q"
  using unlinked_fields(3) [of "pages s' q" "pages s q"] by (simp add: is_free_def)

lemma ALLOCATED_fields:
  assumes "unlinked x = ALLOCATED"
  shows "refcount x = 1" "backing x = None" "pg_flags x = {}"
  using assms by (cases x; simp add: unlinked_def ALLOCATED_def blank_page_def)+

text \<open>What an allocation of the frames \<open>P\<close> does.\<close>

definition taken :: "pageid set \<Rightarrow> 'a pmm_scheme \<Rightarrow> 'a pmm_scheme \<Rightarrow> bool" where
  "taken P s s' \<longleftrightarrow> (\<forall>q\<in>P. is_free s q \<and> unlinked (pages s' q) = ALLOCATED)
     \<and> (\<forall>q. q \<notin> P \<longrightarrow> unlinked (pages s' q) = unlinked (pages s q))"

lemma pmm_alloc_found:
  assumes ok: "pmm_ok s L" and sz: "1 < sz" and f: "search sz c s = Some e"
  obtains s' where "pmm_alloc takepage sz c s = Some (Some ((e + 1 - sz) * 4096), s')"
    and "pmm_ok s' (dropped {e + 1 - sz..<e + 1} L)" and "taken {e + 1 - sz..<e + 1} s s'"
    and "PAGE_BOUNDARYCHECK s' = PAGE_BOUNDARYCHECK s"
proof -
  let ?p = "e + 1 - sz"
  have e: "sz \<le> e + 1" "\<And>q. q \<in> {?p..<e + 1} \<Longrightarrow> is_free s q" using search_found [OF f] sz by auto
  have P: "[?p..<?p + sz] = [?p..<e + 1]" "e - (sz - 1) = ?p" using e(1) sz by auto
  obtain s' where s': "take_run [?p..<e + 1] s = Some s'" "pmm_ok s' (dropped {?p..<e + 1} L)"
      "\<forall>q\<in>{?p..<e + 1}. unlinked (pages s' q) = ALLOCATED"
      "\<forall>q. q \<notin> {?p..<e + 1} \<longrightarrow> unlinked (pages s' q) = unlinked (pages s q)" "PAGE_BOUNDARYCHECK s' = PAGE_BOUNDARYCHECK s"
    using take_run_ok [OF ok, of "[?p..<e + 1]"] e(2) by (auto simp: is_free_def simp del: upt_Suc)
  have "pmm_alloc takepage sz c s = Some (Some (?p * 4096), s')"
    using sz f s'(1) e(1) P by (simp add: pmm_alloc_def Let_def del: upt_Suc)
  moreover have "taken {?p..<e + 1} s s'" using s'(3,4) e(2) by (simp add: taken_def)
  ultimately show ?thesis using that s'(2,5) by blast
qed

text \<open>
  C13: \<open>pmm_alloc\<close> for more than one page always returns. Either it gives the address of a run of page frames that
  were all free and in the array, now each with one reference and no flags, takes exactly these off the free lists
  and leaves the contents of every other frame record alone; or it gives NULL, the state is unchanged, and no
  section it may use has that many consecutive free frames.
\<close>

theorem pmm_alloc_contiguous:
  assumes "pmm_ok s L" and "1 < sz"
  shows "\<exists>r s'. pmm_alloc takepage sz c s = Some (r, s') \<and>
    (case r of
       Some addr \<Rightarrow> \<exists>p. addr = p * 4096 \<and> p + sz \<le> pagecount s \<and> taken {p..<p + sz} s s' \<and> pmm_ok s' (dropped {p..<p + sz} L)
     | None \<Rightarrow> s' = s \<and> (\<forall>c' p. c' \<le> c \<and> searchstart s c' \<le> p \<and> p + sz \<le> min (topid c') (pagecount s)
                 \<longrightarrow> (\<exists>q. p \<le> q \<and> q < p + sz \<and> \<not> is_free s q)))"
proof (cases "search sz c s")
  case None
  have "pmm_alloc takepage sz c s = Some (None, s)" using None assms(2) by (simp add: pmm_alloc_def)
  moreover have "\<exists>q. p \<le> q \<and> q < p + sz \<and> \<not> is_free s q"
    if "c' \<le> c \<and> searchstart s c' \<le> p \<and> p + sz \<le> min (topid c') (pagecount s)" for c' p
    using search_none [OF None, of c' p] that assms(2) by auto
  ultimately show ?thesis by (intro exI [of _ None] exI [of _ s]) auto
next
  case (Some e)
  have e: "sz \<le> e + 1" "e < pagecount s" using search_found [OF Some] assms(2) by auto
  then have P: "{e + 1 - sz..<e + 1} = {e + 1 - sz..<e + 1 - sz + sz}" "e + 1 - sz + sz \<le> pagecount s" by auto
  obtain s' where s': "pmm_alloc takepage sz c s = Some (Some ((e + 1 - sz) * 4096), s')"
    "pmm_ok s' (dropped {e + 1 - sz..<e + 1} L)" "taken {e + 1 - sz..<e + 1} s s'"
    by (rule pmm_alloc_found [OF assms Some]) (rule that)
  show ?thesis
    by (intro exI [of _ "Some ((e + 1 - sz) * 4096)"] exI [of _ s'])
      (simp only: s'(1) option.case, intro conjI refl exI [of _ "e + 1 - sz"] P(2) s'(2,3) [unfolded P(1)])
qed

subsection \<open>Single frames\<close>

lemma first_of_list:
  assumes ok: "lists_ok X s L" and c: "c < 3"
  shows "case first_of (\<lambda>c. list_of b c s) c of None \<Rightarrow> \<forall>c'\<le>c. L b c' = [] | Some p \<Rightarrow> section_of p \<le> c \<and> p \<in> set (L b (section_of p))"
  using c
proof (induction c)
  case 0
  show ?case using dllist_head [OF lists_okD(1) [OF ok, of 0 b]] lists_okD(2) [OF ok, of 0 _ b]
    by (cases "L b 0") (auto split: option.splits)
next
  case (Suc c)
  note head = dllist_head [OF lists_okD(1) [OF ok Suc.prems, of b]]
  show ?case
  proof (cases "L b (Suc c)")
    case Nil
    with head Suc show ?thesis by (auto simp: le_Suc_eq split: option.splits)
  next
    case (Cons p ps)
    with head lists_okD(2) [OF ok Suc.prems, of p b] show ?thesis by simp
  qed
qed

text \<open>With no frame on the standby lists, \<open>pmm_allocpage\<close> takes a free frame or there is none.\<close>

lemma allocpage_free:
  assumes ok: "pmm_ok s L" and c: "c < 3" and st: "\<And>c'. c' \<le> c \<Longrightarrow> L True c' = []"
  shows "pmm_allocpage takepage c s = Some (None, s) \<and> (\<forall>c'\<le>c. L False c' = [])
    \<or> (\<exists>p s'. pmm_allocpage takepage c s = Some (Some (p * 4096), s') \<and> section_of p \<le> c \<and> p \<in> set (L False (section_of p))
         \<and> pmm_ok s' (dropped {p} L) \<and> pages s' p = ALLOCATED \<and> (\<forall>q. q \<noteq> p \<longrightarrow> unlinked (pages s' q) = unlinked (pages s q)))"
proof (cases "first_of (freelists s) c")
  case None
  have "\<forall>c'\<le>c. L False c' = []" using first_of_list [OF pmm_okD(1) [OF ok] c, of False] None by (simp add: list_of_def)
  moreover have "first_of (standbytails s) c = None"
    using c st
  proof (induction c)
    case (Suc c)
    then show ?case using dllist_tail [OF lists_okD(1) [OF pmm_okD(1) [OF ok] Suc.prems(1), of True]] by (simp add: tail_of_def)
  qed (use dllist_tail [OF lists_okD(1) [OF pmm_okD(1) [OF ok], of 0 True]] in \<open>simp add: tail_of_def\<close>)
  ultimately show ?thesis using None by (simp add: pmm_allocpage.simps)
next
  case (Some p)
  have p: "section_of p \<le> c" "p \<in> set (L False (section_of p))"
    using first_of_list [OF pmm_okD(1) [OF ok] c, of False] Some by (simp_all add: list_of_def)
  obtain s1 s' where s': "removefromfreelist p s = Some s1" "refcount (pages s1 p) = 0" "doalloc p s1 = Some s'"
      "pmm_ok s' (dropped {p} L)" "pages s' p = ALLOCATED" "\<And>q. q \<noteq> p \<Longrightarrow> unlinked (pages s' q) = unlinked (pages s q)"
    by (rule take_frame [OF ok p(2)]) (rule that)
  then have "pmm_allocpage takepage c s = Some (Some (p * 4096), s')" using Some by (simp add: pmm_allocpage.simps)
  with p s'(4-6) show ?thesis by blast
qed

subsection \<open>Freeing\<close>

lemma free_loop_ok:
  assumes "pmm_ok s L" and "\<And>p. p \<in> set ps \<Longrightarrow> unlinked (pages s p) = ALLOCATED \<and> PAGE_BOUNDARYCHECK s p" and "distinct ps"
  shows "\<exists>s' L'. free_loop (map (\<lambda>p. p * 4096) ps) s = Some s' \<and> pmm_ok s' L'
    \<and> (\<forall>q. is_free s' q \<longleftrightarrow> q \<in> set ps \<or> is_free s q)
    \<and> (\<forall>q\<in>set ps. refcount (pages s' q) = 0)
    \<and> (\<forall>q. q \<notin> set ps \<longrightarrow> unlinked (pages s' q) = unlinked (pages s q))"
  using assms
proof (induction ps arbitrary: s L)
  case (Cons p ps)
  have p: "unlinked (pages s p) = ALLOCATED" "PAGE_BOUNDARYCHECK s p" using Cons.prems(2) by auto
  note A = ALLOCATED_fields [OF p(1)]
  obtain s1 where s1: "pmm_release (p * 4096) s = Some s1" "pmm_ok s1 (pushed p False L)" "refcount (pages s1 p) = 0"
      "backing (pages s1 p) = None" "\<And>q. q \<noteq> p \<Longrightarrow> unlinked (pages s1 q) = unlinked (pages s q)"
      "PAGE_BOUNDARYCHECK s1 = PAGE_BOUNDARYCHECK s" "is_free s1 p"
  proof (rule release_last [OF Cons.prems(1), of p "p * 4096"])
  qed (use A p(2) in \<open>auto simp: is_free_def\<close>)
  have "unlinked (pages s1 q) = ALLOCATED \<and> PAGE_BOUNDARYCHECK s1 q" if "q \<in> set ps" for q
    using Cons.prems(2,3) that s1(5,6) by (metis distinct.simps(2) list.set_intros(2))
  from Cons.IH [OF s1(2) this] Cons.prems(3) obtain s' L' where s': "free_loop (map (\<lambda>p. p * 4096) ps) s1 = Some s'"
      "pmm_ok s' L'" "\<forall>q. is_free s' q \<longleftrightarrow> q \<in> set ps \<or> is_free s1 q" "\<forall>q\<in>set ps. refcount (pages s' q) = 0"
      "\<forall>q. q \<notin> set ps \<longrightarrow> unlinked (pages s' q) = unlinked (pages s1 q)"
    by auto
  have "is_free s1 q \<longleftrightarrow> q = p \<or> is_free s q" for q using is_free_unlinked [OF s1(5)] s1(7) by (cases "q = p") auto
  moreover have "refcount (pages s' p) = 0"
    using s'(5) Cons.prems(3) s1(3) unlinked_fields(2) [of "pages s' p" "pages s1 p"] by simp
  ultimately show ?case using s' s1 by (intro exI [of _ s'] exI [of _ L']) auto
qed auto


subsection \<open>The lists after initialisation\<close>

lemma place_page:
  assumes ok: "pmm_ok s L" and p: "unlinked (pages s p) = blank_page" "PAGE_BOUNDARYCHECK s p" "unlisted L p"
  obtains s' where "insertinfreelist p (upd_page p (\<lambda>x. x\<lparr>pg_flags := insert PAGE_FLAGS_FREE (pg_flags x)\<rparr>) s) = Some s'"
    and "pmm_ok s' (pushed p False L)"
    and "same_frames (upd_page p (\<lambda>x. x\<lparr>pg_flags := insert PAGE_FLAGS_FREE (pg_flags x)\<rparr>) s) s'"
    and "\<And>c. searchstart s' c \<le> searchstart s c"
proof -
  let ?u = "upd_page p (\<lambda>x. x\<lparr>pg_flags := insert PAGE_FLAGS_FREE (pg_flags x)\<rparr>) s"
  note D = pmm_okD [OF ok]
  have "refcount (pages s p) = 0" "backing (pages s p) = None" "pg_flags (pages s p) = {}"
    using p(1) by (cases "pages s p"; simp add: unlinked_def blank_page_def)+
  then have fr: "frame_ok ?u False (section_of p) p" using p(2) by (simp add: frame_ok_def)
  have "p \<notin> set (L False (section_of p))" using p(3) by (simp add: unlisted_def)
  from insertinfreelist_ok [OF upd_unlisted [OF D(1) p(3)] fr this refl]
  obtain s' where s': "insertinfreelist p ?u = Some s'" "lists_ok {} s' (pushed p False L)" "same_frames ?u s'"
      "searchstart s' = (searchstart s)(section_of p := min p (searchstart s (section_of p)))"
    by (auto simp: pushed_def)
  have "free_listed {} s' (pushed p False L)"
    unfolding free_listed_def
  proof (intro allI impI)
    fix q
    assume "PAGE_FLAGS_FREE \<in> pg_flags (pages s' q) \<and> q \<notin> {}"
    then show "q \<in> set (pushed p False L False (section_of q))"
      using D(2) [of q] by (cases "q = p") (auto simp: pushed_set same_framesD(3) [OF s'(3)])
  qed
  with s' show ?thesis using that by (simp add: pmm_ok_def)
qed

lemma place_pages_ok:
  assumes "pmm_ok s L" and "distinct ps"
    and "\<And>p. p \<in> set ps \<Longrightarrow> unlinked (pages s p) = blank_page \<and> PAGE_BOUNDARYCHECK s p \<and> unlisted L p"
  shows "\<exists>s' L'. place_pages ps s = Some s' \<and> pmm_ok s' L' \<and> pagecount s' = pagecount s \<and> pages_addr s' = pages_addr s
    \<and> (\<forall>q. is_free s' q \<longleftrightarrow> q \<in> set ps \<or> is_free s q) \<and> (\<forall>c. searchstart s' c \<le> searchstart s c)
    \<and> L' True = L True \<and> (\<forall>c. set (L' False c) \<subseteq> set (L False c) \<union> set ps)
    \<and> (\<forall>q. q \<notin> set ps \<longrightarrow> unlinked (pages s' q) = unlinked (pages s q))"
  using assms
proof (induction ps arbitrary: s L)
  case (Cons p ps)
  let ?u = "upd_page p (\<lambda>x. x\<lparr>pg_flags := insert PAGE_FLAGS_FREE (pg_flags x)\<rparr>) s"
  have p: "unlinked (pages s p) = blank_page" "PAGE_BOUNDARYCHECK s p" "unlisted L p" using Cons.prems(3) by auto
  obtain s1 where s1: "insertinfreelist p ?u = Some s1" "pmm_ok s1 (pushed p False L)" "same_frames ?u s1"
      "\<And>c. searchstart s1 c \<le> searchstart s c"
    by (rule place_page [OF Cons.prems(1) p]) (rule that)
  have eq: "unlinked (pages s1 q) = unlinked (pages s q)" if "q \<noteq> p" for q using s1(3) that by (simp add: same_frames_def)
  have addr: "pagecount s1 = pagecount s" "pages_addr s1 = pages_addr s" "PAGE_BOUNDARYCHECK s1 = PAGE_BOUNDARYCHECK s"
    using s1(3) by (auto simp: same_frames_def upd_page_def PAGE_BOUNDARYCHECK_def fun_eq_iff)
  have "unlinked (pages s1 q) = blank_page \<and> PAGE_BOUNDARYCHECK s1 q \<and> unlisted (pushed p False L) q" if "q \<in> set ps" for q
    using Cons.prems(2) Cons.prems(3) [of q] that eq [of q] by (auto simp: addr unlisted_def pushed_set)
  from Cons.IH [OF s1(2) _ this] Cons.prems(2) obtain s' L' where s': "place_pages ps s1 = Some s'" "pmm_ok s' L'"
      "pagecount s' = pagecount s1" "pages_addr s' = pages_addr s1" "\<forall>q. is_free s' q \<longleftrightarrow> q \<in> set ps \<or> is_free s1 q"
      "\<forall>c. searchstart s' c \<le> searchstart s1 c" "L' True = pushed p False L True"
      "\<forall>c. set (L' False c) \<subseteq> set (pushed p False L False c) \<union> set ps"
      "\<forall>q. q \<notin> set ps \<longrightarrow> unlinked (pages s' q) = unlinked (pages s1 q)"
    by auto
  have "L' True = L True" using s'(7) by (simp add: pushed_def)
  moreover have "set (L' False c) \<subseteq> set (L False c) \<union> set (p # ps)" for c using s'(8) by (fastforce simp: pushed_set split: if_splits)
  moreover have "unlinked (pages s' q) = unlinked (pages s q)" if "q \<notin> set (p # ps)" for q using that s'(9) eq by simp
  moreover
  have "searchstart s' c \<le> searchstart s c" for c using s'(6) s1(4) order_trans by blast
  moreover have "is_free s1 q \<longleftrightarrow> q = p \<or> is_free s q" for q
    using is_free_unlinked [OF eq] same_framesD(3) [OF s1(3)] by (cases "q = p") (auto simp: is_free_def)
  ultimately show ?case using s'(1-5) s1(1) addr by (intro exI [of _ s'] exI [of _ L']) auto
qed auto

lemma measure_memory_biggest:
  assumes "measure_memory es i t big m = (t', big', m')"
  shows "(big' = big \<or> (\<exists>k<length es. big' = Some (i + k, es ! k) \<and> mm_type (es ! k) = LIMINE_MEMMAP_USABLE))
    \<and> t \<le> t' \<and> (\<forall>e\<in>set es. mm_type e = LIMINE_MEMMAP_USABLE \<longrightarrow> mm_base e + mm_length e \<le> t' \<and> big' \<noteq> None)
    \<and> (big \<noteq> None \<longrightarrow> big' \<noteq> None)"
  using assms
proof (induction es arbitrary: i t big m)
  case (Cons e es)
  define t1 where "t1 = (if mm_type e \<noteq> LIMINE_MEMMAP_OTHER then max t (mm_base e + mm_length e) else t)"
  define b1 where "b1 = (if mm_type e = LIMINE_MEMMAP_USABLE
      then case big of None \<Rightarrow> Some (i, e) | Some (j, b) \<Rightarrow> if mm_length e > mm_length b then Some (i, e) else Some (j, b)
      else big)"
  have "\<exists>m1. measure_memory es (i + 1) t1 b1 m1 = (t', big', m')"
    using Cons.prems by (auto simp: t1_def b1_def Let_def split: if_splits)
  then obtain m1 where "measure_memory es (i + 1) t1 b1 m1 = (t', big', m')" ..
  note IH = Cons.IH [OF this]
  have b1: "b1 = big \<or> b1 = Some (i, e) \<and> mm_type e = LIMINE_MEMMAP_USABLE" "big \<noteq> None \<longrightarrow> b1 \<noteq> None"
      "mm_type e = LIMINE_MEMMAP_USABLE \<longrightarrow> b1 \<noteq> None \<and> mm_base e + mm_length e \<le> t1" "t \<le> t1"
    by (auto simp: b1_def t1_def split: option.splits)
  have "big' = big \<or> (\<exists>k<length (e # es). big' = Some (i + k, (e # es) ! k) \<and> mm_type ((e # es) ! k) = LIMINE_MEMMAP_USABLE)"
    using IH b1(1)
  proof (elim conjE disjE exE)
    fix k
    assume "k < length es" "big' = Some (i + 1 + k, es ! k)" "mm_type (es ! k) = LIMINE_MEMMAP_USABLE"
    then show ?thesis by (intro disjI2 exI [of _ "Suc k"]) simp
  qed force+
  with IH b1(2-) show ?case by auto
qed simp

lemma usable_frames_range:
  assumes "mm_type e = LIMINE_MEMMAP_USABLE" and "4096 dvd mm_base e" and "4096 dvd mm_length e"
  shows "p \<in> set (usable_frames count isbiggest e) \<longleftrightarrow>
    (if isbiggest then mm_base e + count * sizeof_page else mm_base e) \<le> p * 4096 \<and> p * 4096 < mm_base e + mm_length e"
proof -
  obtain a b where ab: "mm_base e = 4096 * a" "mm_length e = 4096 * b" using assms(2,3) by (elim dvdE)
  have "p < (mm_base e + mm_length e) div 4096 \<longleftrightarrow> p * 4096 < mm_base e + mm_length e" using ab by auto
  moreover have "mm_base e div 4096 \<le> p \<longleftrightarrow> mm_base e \<le> p * 4096" using ab by auto
  moreover have "(x + 4095) div 4096 \<le> p \<longleftrightarrow> x \<le> p * 4096" for x :: nat by linarith
  ultimately show ?thesis using assms(1) by (simp add: usable_frames_def Let_def)
qed

text \<open>What the boot protocol says of the usable entries: page aligned, sorted and apart, below the direct map.\<close>

definition memmap_ok :: "memmap_entry list \<Rightarrow> nat \<Rightarrow> bool" where
  "memmap_ok es hhdmbase \<longleftrightarrow>
     (\<forall>e\<in>set es. mm_type e = LIMINE_MEMMAP_USABLE \<longrightarrow>
        mm_base e mod 4096 = 0 \<and> mm_length e mod 4096 = 0 \<and> mm_base e + mm_length e \<le> hhdmbase)
     \<and> sorted_wrt (\<lambda>e f. mm_base e + mm_length e \<le> mm_base f) (filter (\<lambda>e. mm_type e = LIMINE_MEMMAP_USABLE) es)"

lemma memmap_apart:
  assumes "sorted_wrt R (filter P es)" and "i < j" and "j < length es" and "P (es ! i)" and "P (es ! j)"
  shows "R (es ! i) (es ! j)"
proof -
  have es: "es = take j es @ es ! j # drop (Suc j) es" using assms(3) by (rule id_take_nth_drop)
  have "es ! i \<in> set (take j es)" using assms(2,3) by (metis in_set_conv_nth length_take min.strict_order_iff nth_take min.absorb2 less_imp_le)
  moreover have "sorted_wrt R (filter P (take j es) @ es ! j # filter P (drop (Suc j) es))"
    using assms(1,5) by (subst (asm) es) simp
  ultimately show ?thesis using assms(4) by (simp add: sorted_wrt_append)
qed

lemma distinct_concat_upt:
  assumes "\<And>i. i < n \<Longrightarrow> distinct (f i)" and "\<And>i j. i < j \<Longrightarrow> j < n \<Longrightarrow> set (f i) \<inter> set (f j) = {}"
  shows "distinct (concat (map f [0..<n]))"
  using assms
proof (induction n)
  case (Suc n)
  have "set (f i) \<inter> set (f n) = {}" if "i < n" for i using Suc.prems(2) that by simp
  then have "(\<Union>i\<in>{0..<n}. set (f i)) \<inter> set (f n) = {}" by (auto simp: disjoint_iff)
  with Suc show ?case by simp
qed simp

definition in_entry :: "memmap_entry \<Rightarrow> pageid \<Rightarrow> bool" where
  "in_entry e p \<longleftrightarrow> mm_type e = LIMINE_MEMMAP_USABLE \<and> mm_base e \<le> p * 4096 \<and> p * 4096 < mm_base e + mm_length e"

lemma usable_frames_iff:
  assumes ok: "memmap_ok es hhdmbase" and i: "i < length es"
  shows "p \<in> set (usable_frames count big (es ! i)) \<longleftrightarrow>
    in_entry (es ! i) p \<and> (big \<longrightarrow> mm_base (es ! i) + count * sizeof_page \<le> p * 4096)"
proof (cases "mm_type (es ! i) = LIMINE_MEMMAP_USABLE")
  case True
  then have "4096 dvd mm_base (es ! i)" "4096 dvd mm_length (es ! i)"
    using ok i by (auto simp: memmap_ok_def mod_eq_0_iff_dvd)
  with True show ?thesis by (auto simp: usable_frames_range in_entry_def)
qed (simp add: usable_frames_def in_entry_def)

lemma in_entry_unique:
  assumes ok: "memmap_ok es hhdmbase" and "i < length es" "j < length es" and "in_entry (es ! i) p" "in_entry (es ! j) p"
  shows "i = j"
proof -
  have "False" if "i < j" "j < length es" "in_entry (es ! i) p" "in_entry (es ! j) p" for i j
    using that ok memmap_apart [OF _ that(1,2), where P = "\<lambda>e. mm_type e = LIMINE_MEMMAP_USABLE"]
    by (fastforce simp: memmap_ok_def in_entry_def)
  with assms(2-) show ?thesis by (meson linorder_neqE_nat)
qed

lemma usable_frames_distinct:
  assumes ok: "memmap_ok es hhdmbase"
  shows "distinct (concat (map (\<lambda>i. usable_frames count (i = big) (es ! i)) [0..<length es]))"
proof (rule distinct_concat_upt)
  show "distinct (usable_frames count (i = big) (es ! i))" for i by (simp add: usable_frames_def Let_def)
  show "set (usable_frames count (i = big) (es ! i)) \<inter> set (usable_frames count (j = big) (es ! j)) = {}"
    if "i < j" "j < length es" for i j
    using usable_frames_iff [OF ok, of i] usable_frames_iff [OF ok, of j] in_entry_unique [OF ok, of i j] that
    by (fastforce simp: disjoint_iff)
qed

lemma usable_frames_set:
  assumes ok: "memmap_ok es hhdmbase" and big: "big < length es" "mm_type (es ! big) = LIMINE_MEMMAP_USABLE"
    and fit: "count * sizeof_page \<le> mm_length (es ! big)"
  shows "p \<in> set (concat (map (\<lambda>i. usable_frames count (i = big) (es ! i)) [0..<length es])) \<longleftrightarrow>
    (\<exists>e\<in>set es. in_entry e p) \<and> \<not> (mm_base (es ! big) \<le> p * 4096 \<and> p * 4096 < mm_base (es ! big) + count * sizeof_page)"
proof -
  let ?a = "mm_base (es ! big) \<le> p * 4096 \<and> p * 4096 < mm_base (es ! big) + count * sizeof_page"
  have arr: "?a \<Longrightarrow> in_entry (es ! big) p" using big(2) fit by (simp add: in_entry_def)
  have "p \<in> set (usable_frames count (i = big) (es ! i)) \<longleftrightarrow> in_entry (es ! i) p \<and> \<not> ?a" if i: "i < length es" for i
  proof (cases "i = big")
    case False
    then have "\<not> (in_entry (es ! i) p \<and> in_entry (es ! big) p)" using in_entry_unique [OF ok i big(1)] by blast
    with usable_frames_iff [OF ok i, of p count "i = big"] False arr show ?thesis by blast
  qed (use usable_frames_iff [OF ok i, of p count "i = big"] in \<open>auto simp: in_entry_def\<close>)
  then have "p \<in> set (concat (map (\<lambda>i. usable_frames count (i = big) (es ! i)) [0..<length es]))
      \<longleftrightarrow> (\<exists>i<length es. in_entry (es ! i) p \<and> \<not> ?a)" by (simp add: Bex_def) blast
  also have "\<dots> \<longleftrightarrow> (\<exists>e\<in>set es. in_entry e p) \<and> \<not> ?a" unfolding in_set_conv_nth Bex_def by blast
  finally show ?thesis .
qed

lemma blank_state_ok: "pmm_ok \<lparr>pages = \<lambda>_. blank_page, pages_addr = a, pagecount = n, memorysize = m, freepagecount = 0,
    freelists = \<lambda>_. None, freetails = \<lambda>_. None, standbylists = \<lambda>_. None, standbytails = \<lambda>_. None, searchstart = i\<rparr> (\<lambda>_ _. [])"
  by (simp add: pmm_ok_def lists_ok_def free_listed_def blank_page_def list_of_def tail_of_def)

text \<open>
  C30: On a memory map as the boot protocol promises it, whose biggest usable entry holds the frame array, \<open>pmm_init\<close>
  succeeds, the free lists are well formed, and a frame is free exactly when it lies in a usable entry and outside the
  array; every free frame has a record in the array.
\<close>

theorem pmm_init_free_memory:
  assumes "memmap_ok es hhdmbase" and "measure_memory es 0 0 None 0 = (memtop, Some (big, b), memsize)"
    and "(memtop + 4095) div 4096 * sizeof_page \<le> mm_length b"
  shows "\<exists>s L. pmm_init es hhdmbase = Some s \<and> pmm_ok s L \<and> pages_addr s = hhdmbase + mm_base b
    \<and> pagecount s = (memtop + 4095) div 4096 \<and>
    (\<forall>p. is_free s p \<longleftrightarrow>
       (\<exists>e\<in>set es. in_entry e p)
       \<and> \<not> (mm_base b \<le> p * 4096 \<and> p * 4096 < mm_base b + pagecount s * sizeof_page))
    \<and> (\<forall>p. is_free s p \<longrightarrow> p < pagecount s)"
proof -
  define count where "count = (memtop + 4095) div 4096"
  define ps where "ps = concat (map (\<lambda>i. usable_frames count (i = big) (es ! i)) [0..<length es])"
  define s0 :: pmm where "s0 = \<lparr>pages = \<lambda>_. blank_page, pages_addr = mm_base b + hhdmbase, pagecount = count, memorysize = memsize,
    freepagecount = 0, freelists = \<lambda>_. None, freetails = \<lambda>_. None, standbylists = \<lambda>_. None,
    standbytails = \<lambda>_. None, searchstart = (\<lambda>i. if i = 0 then 0 else if i = 1 then TOP_1MB else TOP_4GB)\<rparr>"
  have init: "pmm_init es hhdmbase = place_pages ps s0"
    using assms(2) by (simp add: pmm_init_def Let_def ps_def s0_def count_def)
  have big: "big < length es" "es ! big = b" "mm_type b = LIMINE_MEMMAP_USABLE" and top: "\<And>e. e \<in> set es \<Longrightarrow>
      mm_type e = LIMINE_MEMMAP_USABLE \<Longrightarrow> mm_base e + mm_length e \<le> memtop"
    using measure_memory_biggest [OF assms(2)] by auto
  have range: "p \<in> set ps \<longleftrightarrow> (\<exists>e\<in>set es. in_entry e p)
       \<and> \<not> (mm_base b \<le> p * 4096 \<and> p * 4096 < mm_base b + count * sizeof_page)" for p
    using usable_frames_set [OF assms(1) big(1)] big(2,3) assms(3) unfolding ps_def count_def by simp
  have fr: "unlinked (pages s0 p) = blank_page \<and> PAGE_BOUNDARYCHECK s0 p \<and> unlisted (\<lambda>_ _. []) p" if "p \<in> set ps" for p
    using that assms(1) unfolding range
    by (fastforce simp: s0_def unlinked_def blank_page_def unlisted_def PAGE_BOUNDARYCHECK_def memmap_ok_def in_entry_def)
  have ok: "pmm_ok s0 (\<lambda>_ _. [])" unfolding s0_def by (rule blank_state_ok)
  have dist: "distinct ps" unfolding ps_def by (rule usable_frames_distinct [OF assms(1)])
  obtain s L where s: "place_pages ps s0 = Some s" "pmm_ok s L" "pagecount s = count" "pages_addr s = mm_base b + hhdmbase"
      "\<And>q. is_free s q \<longleftrightarrow> q \<in> set ps \<or> is_free s0 q"
    using place_pages_ok [OF ok dist fr] by (auto simp: s0_def)
  have "p < count" if "p \<in> set ps" for p
    using that top unfolding range count_def by (fastforce simp: in_entry_def)
  moreover have "\<not> is_free s0 q" for q by (simp add: s0_def is_free_def blank_page_def)
  ultimately show ?thesis using init s range by (intro exI [of _ s] exI [of _ L]) (simp add: count_def)
qed

text \<open>
  C38: The two halves of \<open>pmm_release\<close> are not one step. When the last reference to a cached page is dropped and the
  page cache holds the page again before the release takes the mutex, the frame ends up alone on the standby list
  of its section with a reference count of one: every other frame of that list is lost, and no assignment of frames
  to the lists makes the state well formed again.
\<close>

theorem release_hold_race:
  assumes ok: "pmm_ok s L" and p: "refcount (pages s p) = 1" "backing (pages s p) \<noteq> None" "PAGE_FLAGS_DIRTY \<notin> pg_flags (pages s p)"
    "pg_next (pages s p) = None" "pg_prev (pages s p) = None" and b: "PAGE_BOUNDARYCHECK s p"
  shows "\<exists>s1 s2 s3. release_drop p s = Some (0, s1) \<and> pmm_hold (p * 4096) s1 = Some s2 \<and> release_insert p s2 = Some s3
    \<and> standbylists s3 (section_of p) = Some p \<and> standbytails s3 (section_of p) = Some p \<and> lnext s3 p = None
    \<and> refcount (pages s3 p) = 1 \<and> (\<forall>L'. \<not> pmm_ok s3 L')"
proof -
  let ?c = "section_of p"
  have nf: "PAGE_FLAGS_FREE \<notin> pg_flags (pages s p)"
    using pmm_okD(2,4) [OF ok, of p] p(1) by (auto simp: unlisted_def)
  define s1 where "s1 = upd_page p (\<lambda>x. x\<lparr>refcount := refcount x - 1\<rparr>) s"
  define s2 where "s2 = (set_tail True ?c None (set_list True ?c None
    (upd_page p (\<lambda>x. x\<lparr>refcount := refcount x + 1\<rparr>) s1)))\<lparr>freepagecount := freepagecount s - 1\<rparr>"
  obtain s3 where s3: "release_insert p s2 = Some s3" "standbylists s3 ?c = Some p" "standbytails s3 ?c = Some p"
      "lnext s3 p = None" "refcount (pages s3 p) = 1"
    using p nf b
    by (auto simp: release_insert_def insertinfreelist_def s2_def s1_def Let_def PAGE_BOUNDARYCHECK_def upd_page_def
        set_tail_def set_list_def list_of_def lnext_def set_lnext_def set_lprev_def)
  have "release_drop p s = Some (0, s1)" using p(1) by (simp add: release_drop_def s1_def)
  moreover have "pmm_hold (p * 4096) s1 = Some s2"
    using p nf b
    by (simp add: pmm_hold_def internalhold_def removefromfreelist_def s2_def s1_def Let_def PAGE_BOUNDARYCHECK_def upd_page_def
        set_tail_def set_list_def lnext_def lprev_def)
  moreover have "\<not> pmm_ok s3 L'" for L'
  proof
    assume ok': "pmm_ok s3 L'"
    have "Some p = (if L' True ?c = [] then None else Some (hd (L' True ?c)))"
      using dllist_head [OF lists_okD(1) [OF pmm_okD(1) [OF ok'] section_of_less, of True p]] s3(2) by (simp add: list_of_def)
    then have "p \<in> set (L' True ?c)" by (cases "L' True ?c") auto
    then show False using pmm_okD(3) [OF ok'] s3(5) by (simp add: frame_ok_def)
  qed
  ultimately show ?thesis using s3 by blast
qed

subsection \<open>Concrete states\<close>

definition ex_map :: "memmap_entry list" where
  "ex_map = [\<lparr>mm_base = 0x1000, mm_length = 0x4000, mm_type = LIMINE_MEMMAP_USABLE\<rparr>,
     \<lparr>mm_base = 0x5000, mm_length = 0x3000, mm_type = LIMINE_MEMMAP_OTHER\<rparr>,
     \<lparr>mm_base = 0x8000, mm_length = 0x3000, mm_type = LIMINE_MEMMAP_USABLE\<rparr>]"

text \<open>One frame of the biggest entry holds the array; frames 2 to 4 and 8 to 10 are free.\<close>

theorem pmm_init_free_memory_witness:
  "\<exists>s L. pmm_init ex_map 0x100000 = Some s \<and> pmm_ok s L \<and> is_free s 2 \<and> \<not> is_free s 5 \<and> is_free s 10"
proof -
  have m: "measure_memory ex_map 0 0 None 0 = (0xB000, Some (0, ex_map ! 0), 0x7000)" by (simp add: ex_map_def)
  have "memmap_ok ex_map 0x100000" "(0xB000 + 4095) div 4096 * sizeof_page \<le> mm_length (ex_map ! 0)"
    by (simp_all add: memmap_ok_def ex_map_def sizeof_page_def)
  from pmm_init_free_memory [OF this(1) m this(2)] obtain s L where s: "pmm_init ex_map 0x100000 = Some s" "pmm_ok s L"
      "\<And>p. is_free s p \<longleftrightarrow> (\<exists>e\<in>set ex_map. in_entry e p)
        \<and> \<not> (mm_base (ex_map ! 0) \<le> p * 4096 \<and> p * 4096 < mm_base (ex_map ! 0) + pagecount s * sizeof_page)"
      "pagecount s = (0xB000 + 4095) div 4096"
    by (elim exE conjE) (rule that, auto)
  with s(1,2) show ?thesis by (intro exI [of _ s] exI [of _ L]) (simp add: s(3) ex_map_def in_entry_def sizeof_page_def)
qed

definition ex_blank :: pmm where
  "ex_blank = \<lparr>pages = \<lambda>_. blank_page, pages_addr = 0x100000, pagecount = 5, memorysize = 0x4000,
    freepagecount = 0, freelists = \<lambda>_. None, freetails = \<lambda>_. None, standbylists = \<lambda>_. None,
    standbytails = \<lambda>_. None, searchstart = (\<lambda>i. if i = 0 then 0 else if i = 1 then TOP_1MB else TOP_4GB)\<rparr>"

lemma ex_blank_ok: "pmm_ok ex_blank (\<lambda>_ _. [])"
  unfolding ex_blank_def by (rule blank_state_ok)

lemma ex_pmm_alloc:
  "\<exists>(s :: pmm) L s'. pmm_ok s L \<and> is_free s 2 \<and> pmm_alloc (\<lambda>_ _. None) 2 0 s = Some (Some 0x2000, s')"
proof -
  have d: "distinct [2, 3 :: nat]" by simp
  have "unlinked (pages ex_blank p) = blank_page \<and> PAGE_BOUNDARYCHECK ex_blank p \<and> unlisted (\<lambda>_ _. []) p"
    if "p \<in> set [2, 3]" for p
    using that by (auto simp: PAGE_BOUNDARYCHECK_def ex_blank_def unlisted_def unlinked_def blank_page_def)
  with place_pages_ok [OF ex_blank_ok d] have "\<exists>(s :: pmm) L. pmm_ok s L \<and> pagecount s = pagecount ex_blank
      \<and> (\<forall>q. is_free s q \<longleftrightarrow> q \<in> set [2, 3] \<or> is_free ex_blank q) \<and> searchstart s 0 \<le> searchstart ex_blank 0"
    by blast
  then obtain s :: pmm and L where s: "pmm_ok s L" "pagecount s = pagecount ex_blank"
      "\<And>q. is_free s q \<longleftrightarrow> q \<in> set [2, 3] \<or> is_free ex_blank q" "searchstart s 0 \<le> searchstart ex_blank 0"
    by blast
  have "\<not> is_free ex_blank q" for q by (simp add: ex_blank_def is_free_def blank_page_def)
  then have fr: "is_free s q \<longleftrightarrow> q = 2 \<or> q = 3" for q using s(3) [of q] by simp
  have "search 2 0 s \<noteq> None"
  proof
    assume "search 2 0 s = None"
    then have "\<exists>q. 2 \<le> q \<and> q < 2 + 2 \<and> \<not> is_free s q"
      using search_none [of 2 0 s 0 2] s(2,4) by (simp add: ex_blank_def topid_def TOP_1MB_def PMM_SECTION_1MB_def)
    then obtain q where "2 \<le> q" "q < 4" "\<not> is_free s q" by auto
    then show False using fr [of q] by linarith
  qed
  then obtain e where e: "search 2 0 s = Some e" by blast
  have "is_free s e" "is_free s (e - 1)" using search_found [OF e] by auto
  then have "e = 3" by (auto simp: fr)
  then obtain s' where "pmm_alloc (\<lambda>_ _. None) 2 0 s = Some (Some 0x2000, s')"
    using pmm_alloc_found [OF s(1) _ e, of "\<lambda>_ _. None"] by auto
  then show ?thesis using s(1) fr by blast
qed

theorem pmm_alloc_contiguous_witness:
  "\<exists>(s :: pmm) L s' p. pmm_ok s L \<and> pmm_alloc (\<lambda>_ _. None) 2 0 s = Some (Some 0x2000, s')
     \<and> 0x2000 = p * 4096 \<and> p + 2 \<le> pagecount s \<and> taken {p..<p + 2} s s' \<and> pmm_ok s' (dropped {p..<p + 2} L)"
proof -
  obtain s :: pmm and L s' where s: "pmm_ok s L" "pmm_alloc (\<lambda>_ _. None) 2 0 s = Some (Some 0x2000, s')"
    using ex_pmm_alloc by blast
  with pmm_alloc_contiguous [OF s(1), of 2 "\<lambda>_ _. None" 0] obtain p where "0x2000 = p * 4096" "p + 2 \<le> pagecount s"
      "taken {p..<p + 2} s s'" "pmm_ok s' (dropped {p..<p + 2} L)" by auto
  with s show ?thesis by (intro exI conjI)
qed


theorem release_hold_race_witness:
  "\<exists>(s :: pmm) L s1 s2 s3. pmm_ok s L \<and> release_drop 2 s = Some (0, s1) \<and> pmm_hold 0x2000 s1 = Some s2
     \<and> release_insert 2 s2 = Some s3 \<and> refcount (pages s3 2) = 1 \<and> \<not> pmm_ok s3 L"
proof -
  let ?s = "upd_page 2 (\<lambda>x. x\<lparr>backing := Some 0, refcount := 1\<rparr>) ex_blank"
  have "lists_ok {} ?s (\<lambda>_ _. [])" by (rule upd_unlisted [OF pmm_okD(1) [OF ex_blank_ok]]) (simp add: unlisted_def)
  then have ok: "pmm_ok ?s (\<lambda>_ _. [])"
    by (simp add: pmm_ok_def free_listed_def upd_page_def ex_blank_def blank_page_def)
  have "PAGE_BOUNDARYCHECK ?s 2" by (simp add: PAGE_BOUNDARYCHECK_def ex_blank_def)
  with release_hold_race [OF ok, of 2] ok show ?thesis
    by (simp add: ex_blank_def blank_page_def) (metis (no_types, lifting))
qed

end
