(* ===== verification/Mmu.thy ===== *)
theory Mmu
  imports Pmm
begin

text \<open>
  The page tables: \<^verbatim>\<open>src/kernel-src/arch/x86-64/mmu.c\<close> and \<^verbatim>\<open>include/arch/mmu.h\<close>.

  A table is 512 entries of 64 bits at a physical address; the direct map of physical memory, through
  which the code reaches it, is not visible here. \<open>mem t i\<close> is entry \<open>i\<close> of the table at \<open>t\<close>. The operations
  that take page frames have the allocator as a parameter \<open>alloc\<close> on a state of its own; \<open>None\<close> is a failed
  assertion in it.

  The locale \<open>frame_source\<close> says what the page tables rely on: a frame that is handed out is not one of those
  in use. Under it an address space is a finite map from pages to entries, and mapping a page updates this map
  at that page only; the physical memory manager is an instance.
\<close>

unbundle bit_operations_syntax

type_synonym tablemem = "u64 \<Rightarrow> nat \<Rightarrow> u64"

definition ADDRMASK :: u64 where "ADDRMASK = 0x7ffffffffffff000"
definition PTMASK :: u64 where "PTMASK = 0x1ff000"
definition PDMASK :: u64 where "PDMASK = 0x3fe00000"
definition PDPTMASK :: u64 where "PDPTMASK = 0x7fc0000000"
definition PML4MASK :: u64 where "PML4MASK = 0xff8000000000"

definition ARCH_MMU_FLAGS_READ :: u64 where "ARCH_MMU_FLAGS_READ = 1"
definition ARCH_MMU_FLAGS_WRITE :: u64 where "ARCH_MMU_FLAGS_WRITE = 2"
definition ARCH_MMU_FLAGS_USER :: u64 where "ARCH_MMU_FLAGS_USER = 4"
definition ARCH_MMU_FLAGS_NOEXEC :: u64 where "ARCH_MMU_FLAGS_NOEXEC = 0x8000000000000000"
definition ARCH_MMU_FLAGS_DIRTY :: u64 where "ARCH_MMU_FLAGS_DIRTY = 0x40"

definition KERNELSPACE_START :: u64 where "KERNELSPACE_START = 0xffff800000000000"
definition USERSPACE_START :: u64 where "USERSPACE_START = 0x1000"
definition USERSPACE_END :: u64 where "USERSPACE_END = 0x800000000000"

definition INTERMEDIATE_FLAGS :: u64 where
  "INTERMEDIATE_FLAGS = ARCH_MMU_FLAGS_WRITE OR ARCH_MMU_FLAGS_READ OR ARCH_MMU_FLAGS_USER"

definition FLAGS_MASK :: u64 where
  "FLAGS_MASK = ARCH_MMU_FLAGS_WRITE OR ARCH_MMU_FLAGS_READ OR ARCH_MMU_FLAGS_NOEXEC OR ARCH_MMU_FLAGS_USER"

definition next_table :: "u64 \<Rightarrow> u64 option" where
  "next_table entry = (if entry = 0 then None else Some (entry AND ADDRMASK))"

definition ptoffset :: "u64 \<Rightarrow> nat" where "ptoffset va = unat (drop_bit 12 (va AND PTMASK))"
definition pdoffset :: "u64 \<Rightarrow> nat" where "pdoffset va = unat (drop_bit 21 (va AND PDMASK))"
definition pdptoffset :: "u64 \<Rightarrow> nat" where "pdptoffset va = unat (drop_bit 30 (va AND PDPTMASK))"
definition pml4offset :: "u64 \<Rightarrow> nat" where "pml4offset va = unat (drop_bit 39 (va AND PML4MASK))"

text \<open>The place of the entry of a page: a table and an index.\<close>

definition get_page :: "tablemem \<Rightarrow> u64 \<Rightarrow> u64 \<Rightarrow> (u64 \<times> nat) option" where
  "get_page mem pml4 va =
     (case next_table (mem pml4 (pml4offset va)) of
        None \<Rightarrow> None
      | Some pdpt \<Rightarrow>
          (case next_table (mem pdpt (pdptoffset va)) of
             None \<Rightarrow> None
           | Some pd \<Rightarrow>
               (case next_table (mem pd (pdoffset va)) of
                  None \<Rightarrow> None
                | Some pt \<Rightarrow> Some (pt, ptoffset va))))"

definition set_entry :: "u64 \<Rightarrow> nat \<Rightarrow> u64 \<Rightarrow> tablemem \<Rightarrow> tablemem" where
  "set_entry t i e mem = mem(t := (mem t)(i := e))"

text \<open>
  The step of \<open>add_page\<close> from one level to the next: the table an entry points to, or a new one, cleared
  after the entry is set. \<open>None\<close> as the first component is the failed allocation.
\<close>

definition next_or_new :: "('s \<Rightarrow> (u64 option \<times> 's) option) \<Rightarrow> u64 \<Rightarrow> nat \<Rightarrow> tablemem \<times> 's
    \<Rightarrow> (u64 option \<times> tablemem \<times> 's) option" where
  "next_or_new alloc t i = (\<lambda>(mem, s).
     case next_table (mem t i) of
       Some n \<Rightarrow> Some (Some n, mem, s)
     | None \<Rightarrow>
         (case alloc s of
            None \<Rightarrow> None
          | Some (None, s) \<Rightarrow> Some (None, mem, s)
          | Some (Some f, s) \<Rightarrow> Some (Some f, (set_entry t i (f OR INTERMEDIATE_FLAGS) mem)(f := \<lambda>_. 0), s)))"

definition DEPTH_PDPT :: nat where "DEPTH_PDPT = 1"
definition DEPTH_PD :: nat where "DEPTH_PD = 2"
definition DEPTH_PT :: nat where "DEPTH_PT = 3"

definition add_page :: "('s \<Rightarrow> (u64 option \<times> 's) option) \<Rightarrow> u64 \<Rightarrow> u64 \<Rightarrow> u64 \<Rightarrow> nat \<Rightarrow> tablemem \<times> 's
    \<Rightarrow> (bool \<times> tablemem \<times> 's) option" where
  "add_page alloc pml4 va entry depth = (\<lambda>(mem, s).
     if depth = DEPTH_PDPT then Some (True, set_entry pml4 (pml4offset va) entry mem, s)
     else case next_or_new alloc pml4 (pml4offset va) (mem, s) of
       None \<Rightarrow> None
     | Some (None, mem, s) \<Rightarrow> Some (False, mem, s)
     | Some (Some pdpt, mem, s) \<Rightarrow>
         (if depth = DEPTH_PD then Some (True, set_entry pdpt (pdptoffset va) entry mem, s)
          else case next_or_new alloc pdpt (pdptoffset va) (mem, s) of
            None \<Rightarrow> None
          | Some (None, mem, s) \<Rightarrow> Some (False, mem, s)
          | Some (Some pd, mem, s) \<Rightarrow>
              (if depth = DEPTH_PT then Some (True, set_entry pd (pdoffset va) entry mem, s)
               else case next_or_new alloc pd (pdoffset va) (mem, s) of
                 None \<Rightarrow> None
               | Some (None, mem, s) \<Rightarrow> Some (False, mem, s)
               | Some (Some pt, mem, s) \<Rightarrow> Some (True, set_entry pt (ptoffset va) entry mem, s))))"

text \<open>The frames \<open>destroy\<close> releases, in order.\<close>

primrec destroy :: "nat \<Rightarrow> tablemem \<Rightarrow> u64 \<Rightarrow> u64 list" where
  "destroy 0 mem table =
     concat (map (\<lambda>i. let addr = mem table i AND ADDRMASK in if addr = 0 then [] else [addr]) [0..<512])"
| "destroy (Suc depth) mem table =
     concat (map (\<lambda>i. let addr = mem table i AND ADDRMASK
                      in if addr = 0 then [] else destroy depth mem addr @ [addr])
       [0..<if Suc depth = 3 then 256 else 512])"

definition arch_mmu_destroytable :: "tablemem \<Rightarrow> u64 \<Rightarrow> 'a pmm_scheme \<Rightarrow> 'a pmm_scheme option" where
  "arch_mmu_destroytable mem table s = free_loop (map unat (destroy 3 mem table @ [table])) s"

definition arch_mmu_map :: "('s \<Rightarrow> (u64 option \<times> 's) option) \<Rightarrow> u64 \<Rightarrow> u64 \<Rightarrow> u64 \<Rightarrow> u64 \<Rightarrow> tablemem \<times> 's
    \<Rightarrow> (bool \<times> tablemem \<times> 's) option" where
  "arch_mmu_map alloc table paddr vaddr flags = add_page alloc table vaddr ((paddr AND ADDRMASK) OR flags) 0"

definition arch_mmu_unmap :: "u64 \<Rightarrow> u64 \<Rightarrow> tablemem \<Rightarrow> tablemem" where
  "arch_mmu_unmap table vaddr mem =
     (case get_page mem table vaddr of None \<Rightarrow> mem | Some (pt, i) \<Rightarrow> set_entry pt i 0 mem)"

definition arch_mmu_remap :: "u64 \<Rightarrow> u64 \<Rightarrow> u64 \<Rightarrow> u64 \<Rightarrow> tablemem \<Rightarrow> tablemem" where
  "arch_mmu_remap table paddr vaddr flags mem =
     (case get_page mem table vaddr of
        None \<Rightarrow> mem
      | Some (pt, i) \<Rightarrow>
          let addr = (if paddr = 0 then mem pt i AND ADDRMASK else paddr AND ADDRMASK)
          in set_entry pt i (addr OR flags) mem)"

definition arch_mmu_getphysical :: "tablemem \<Rightarrow> u64 \<Rightarrow> u64 \<Rightarrow> u64" where
  "arch_mmu_getphysical mem table vaddr =
     (case get_page mem table vaddr of None \<Rightarrow> 0 | Some (pt, i) \<Rightarrow> mem pt i AND ADDRMASK)"

definition arch_mmu_ispresent :: "tablemem \<Rightarrow> u64 \<Rightarrow> u64 \<Rightarrow> bool" where
  "arch_mmu_ispresent mem table vaddr = (case get_page mem table vaddr of None \<Rightarrow> False | Some (pt, i) \<Rightarrow> mem pt i \<noteq> 0)"

definition arch_mmu_iswritable :: "tablemem \<Rightarrow> u64 \<Rightarrow> u64 \<Rightarrow> bool" where
  "arch_mmu_iswritable mem table vaddr =
     (case get_page mem table vaddr of None \<Rightarrow> False | Some (pt, i) \<Rightarrow> mem pt i AND ARCH_MMU_FLAGS_WRITE \<noteq> 0)"

definition arch_mmu_isdirty :: "tablemem \<Rightarrow> u64 \<Rightarrow> u64 \<Rightarrow> bool" where
  "arch_mmu_isdirty mem table vaddr =
     (case get_page mem table vaddr of None \<Rightarrow> False | Some (pt, i) \<Rightarrow> mem pt i AND ARCH_MMU_FLAGS_DIRTY \<noteq> 0)"

definition arch_mmu_getflags :: "tablemem \<Rightarrow> u64 \<Rightarrow> u64 \<Rightarrow> u64 option" where
  "arch_mmu_getflags mem table vaddr =
     (case get_page mem table vaddr of None \<Rightarrow> None | Some (pt, i) \<Rightarrow> Some (mem pt i AND FLAGS_MASK))"

definition arch_mmu_newtable :: "('s \<Rightarrow> (u64 option \<times> 's) option) \<Rightarrow> u64 \<Rightarrow> tablemem \<times> 's
    \<Rightarrow> (u64 option \<times> tablemem \<times> 's) option" where
  "arch_mmu_newtable alloc template = (\<lambda>(mem, s).
     case alloc s of
       None \<Rightarrow> None
     | Some (None, s) \<Rightarrow> Some (None, mem, s)
     | Some (Some table, s) \<Rightarrow> Some (Some table, mem(table := mem template), s))"

subsection \<open>Faults\<close>

datatype vmm_action = VMM_ACTION_READ | VMM_ACTION_WRITE | VMM_ACTION_EXEC

text \<open>How a fault ends: handled, a user copy that returns \<open>EFAULT\<close>, a signal to the thread, or a panic.\<close>

datatype fault_end = FAULT_HANDLED | FAULT_USERCOPY | FAULT_SIGSEGV | FAULT_PANIC

record context_regs =
  ctx_error :: u64
  ctx_cs :: u64
  ctx_cr2 :: u64

definition ARCH_CONTEXT_ISUSER :: "context_regs \<Rightarrow> bool" where
  "ARCH_CONTEXT_ISUSER ctx \<longleftrightarrow> ctx_cs ctx = 0x23"

text \<open>\<open>usercopy\<close> says whether the current thread is in a user copy; \<open>pagefault\<close> is \<open>vmm_pagefault\<close>.\<close>

definition pfisr :: "(u64 \<Rightarrow> bool \<Rightarrow> vmm_action set \<Rightarrow> bool) \<Rightarrow> bool \<Rightarrow> context_regs \<Rightarrow> fault_end" where
  "pfisr pagefault usercopy ctx =
     (let vmmerror = (if ctx_error ctx AND 1 \<noteq> 0 then {VMM_ACTION_READ} else {})
            \<union> (if ctx_error ctx AND 2 \<noteq> 0 then {VMM_ACTION_WRITE} else {})
            \<union> (if ctx_error ctx AND 16 \<noteq> 0 then {VMM_ACTION_EXEC} else {})
      in if pagefault (ctx_cr2 ctx) (ctx_cs ctx \<noteq> 8) vmmerror then FAULT_HANDLED
         else if usercopy then FAULT_USERCOPY
         else if ARCH_CONTEXT_ISUSER ctx then FAULT_SIGSEGV else FAULT_PANIC)"

definition gpfisr :: "bool \<Rightarrow> context_regs \<Rightarrow> fault_end" where
  "gpfisr usercopy ctx =
     (if usercopy then FAULT_USERCOPY else if ARCH_CONTEXT_ISUSER ctx then FAULT_SIGSEGV else FAULT_PANIC)"

text \<open>A fault of a user program or of a user copy never stops the kernel.\<close>

lemma pfisr_no_panic: "usercopy \<or> ARCH_CONTEXT_ISUSER ctx \<Longrightarrow> pfisr pagefault usercopy ctx \<noteq> FAULT_PANIC"
  by (auto simp: pfisr_def Let_def)

subsection \<open>The tree of tables\<close>

text \<open>The table at the end of a path of indices, and the entry at the end of a path.\<close>

fun table_at :: "tablemem \<Rightarrow> u64 \<Rightarrow> nat list \<Rightarrow> u64 option" where
  "table_at mem t [] = Some t"
| "table_at mem t (i # p) = (case next_table (mem t i) of None \<Rightarrow> None | Some n \<Rightarrow> table_at mem n p)"

definition entry_at :: "tablemem \<Rightarrow> u64 \<Rightarrow> nat list \<Rightarrow> u64" where
  "entry_at mem t p = (case table_at mem t (butlast p) of None \<Rightarrow> 0 | Some n \<Rightarrow> mem n (last p))"

definition page_path :: "u64 \<Rightarrow> nat list" where
  "page_path va = [pml4offset va, pdptoffset va, pdoffset va, ptoffset va]"

text \<open>No table is reached by two paths.\<close>

definition tree_ok :: "tablemem \<Rightarrow> u64 \<Rightarrow> bool" where
  "tree_ok mem t \<longleftrightarrow> (\<forall>p q n. length p \<le> 3 \<and> length q \<le> 3 \<and> table_at mem t p = Some n \<and> table_at mem t q = Some n \<longrightarrow> p = q)"

definition table_set :: "tablemem \<Rightarrow> u64 \<Rightarrow> u64 set" where
  "table_set mem t = {n. \<exists>p. length p \<le> 3 \<and> table_at mem t p = Some n}"

lemma table_at_snoc:
  "table_at mem t (p @ [i]) = (case table_at mem t p of None \<Rightarrow> None | Some n \<Rightarrow> next_table (mem n i))"
  by (induction mem t p rule: table_at.induct) (auto split: option.split)

lemma tree_okD:
  assumes "tree_ok mem t" and "table_at mem t p = Some n" and "table_at mem t q = Some n" and "length p \<le> 3" and "length q \<le> 3"
  shows "p = q"
  using assms unfolding tree_ok_def by blast

lemma get_page_path:
  "get_page mem t va = map_option (\<lambda>n. (n, ptoffset va)) (table_at mem t (butlast (page_path va)))"
  by (simp add: get_page_def page_path_def split: option.split)

lemma last_page_path [simp]: "last (page_path va) = ptoffset va" "length (page_path va) = 4"
  by (simp_all add: page_path_def)

text \<open>Setting an entry that leads nowhere to a cleared table that is not in the tree.\<close>

lemma table_at_new:
  assumes ok: "tree_ok mem t" and p: "table_at mem t p = Some n" "length p \<le> 2" and nx: "next_table (mem n i) = None"
    and f: "f \<notin> table_set mem t" and e: "next_table e = Some f" and mem': "mem' = (set_entry n i e mem)(f := \<lambda>_. 0)"
  shows "length q \<le> 3 \<Longrightarrow> table_at mem' t q = (if q = p @ [i] then Some f else table_at mem t q)"
proof (induction q rule: rev_induct)
  case (snoc j q)
  have old: "table_at mem t (p @ [i]) = None" using p(1) nx by (simp add: table_at_snoc)
  have M: "mem' x k = (if x = f then 0 else if x = n \<and> k = i then e else mem x k)" for x k by (simp add: mem' set_entry_def)
  show ?case
  proof (cases "q = p @ [i]")
    case True
    then have "table_at mem' t q = Some f" "table_at mem t q = None" "q @ [j] \<noteq> p @ [i]" using snoc old by simp_all
    then show ?thesis using table_at_snoc [of mem' t q j] table_at_snoc [of mem t q j] M [of f j] by (simp add: next_table_def)
  next
    case False
    then have IH: "table_at mem' t q = table_at mem t q" using snoc by simp
    show ?thesis
    proof (cases "table_at mem t q")
      case None
      moreover have "q \<noteq> p" using None p(1) by auto
      ultimately show ?thesis using IH by (simp add: table_at_snoc)
    next
      case (Some x)
      then have "x \<noteq> f" using f snoc.prems by (auto simp: table_set_def)
      moreover have "x = n \<longleftrightarrow> q = p" using tree_okD [OF ok, of q n p] p Some snoc.prems by auto
      ultimately have "mem' x j = (if q @ [j] = p @ [i] then e else mem x j)" using M [of x j] by auto
      then show ?thesis using table_at_snoc [of mem' t q j] table_at_snoc [of mem t q j] IH Some e by simp
    qed
  qed
qed simp

text \<open>Setting an entry of a table of the last level.\<close>

lemma table_at_leaf:
  assumes ok: "tree_ok mem t" and p: "table_at mem t p = Some n" "length p = 3"
  shows "length q \<le> 3 \<Longrightarrow> table_at (set_entry n i e mem) t q = table_at mem t q"
proof (induction q rule: rev_induct)
  case (snoc j q)
  then have IH: "table_at (set_entry n i e mem) t q = table_at mem t q" and "length q \<le> 3" "length q \<noteq> 3" by auto
  have "x \<noteq> n" if "table_at mem t q = Some x" for x
    using tree_okD [OF ok, of q n p] p that \<open>length q \<le> 3\<close> \<open>length q \<noteq> 3\<close> by auto
  moreover have "set_entry n i e mem x k = mem x k" if "x \<noteq> n" for x k using that by (simp add: set_entry_def)
  ultimately show ?case using IH by (simp add: table_at_snoc split: option.split)
qed simp

lemma tree_new:
  assumes ok: "tree_ok mem t" and T: "\<And>q. length q \<le> 3 \<Longrightarrow> table_at mem' t q = (if q = r then Some f else table_at mem t q)"
    and r: "table_at mem t r = None" "length r \<le> 3" and f: "f \<notin> table_set mem t"
  shows "tree_ok mem' t" and "table_set mem' t = insert f (table_set mem t)"
proof -
  have nf: "table_at mem t q \<noteq> Some f" if "length q \<le> 3" for q using f that by (auto simp: table_set_def)
  show "tree_ok mem' t" unfolding tree_ok_def
  proof (intro allI impI, elim conjE)
    fix p q n
    assume *: "length p \<le> 3" "length q \<le> 3" "table_at mem' t p = Some n" "table_at mem' t q = Some n"
    show "p = q"
    proof (cases "p = r \<or> q = r")
      case True
      with * T nf show ?thesis by (metis option.inject)
    next
      case False
      with * T show ?thesis using tree_okD [OF ok, of p n q] by simp
    qed
  qed
  have "n \<in> table_set mem' t \<longleftrightarrow> n = f \<or> n \<in> table_set mem t" for n
    unfolding table_set_def mem_Collect_eq using T r by (metis option.distinct(1) option.inject)
  then show "table_set mem' t = insert f (table_set mem t)" by blast
qed

lemma entry_at_new:
  assumes T: "\<And>q. length q \<le> 3 \<Longrightarrow> table_at mem' t q = (if q = r then Some f else table_at mem t q)"
    and r: "table_at mem t r = None" and M: "\<And>j. mem' f j = 0" and q: "length q = 4"
    and eq: "\<And>x j. table_at mem t (butlast q) = Some x \<Longrightarrow> mem' x j = mem x j"
  shows "entry_at mem' t q = entry_at mem t q"
proof (cases "butlast q = r")
  case True
  then show ?thesis using T [of r] r M q by (auto simp: entry_at_def)
next
  case False
  then have "table_at mem' t (butlast q) = table_at mem t (butlast q)" using T [of "butlast q"] q by simp
  then show ?thesis using eq by (simp add: entry_at_def split: option.split)
qed

lemma tree_ok_cong:
  assumes "tree_ok mem t" and "\<And>q. length q \<le> 3 \<Longrightarrow> table_at mem' t q = table_at mem t q"
  shows "tree_ok mem' t" and "table_set mem' t = table_set mem t"
  using assms(1) unfolding tree_ok_def table_set_def by (simp_all add: assms(2) cong: conj_cong)

lemma entry_at_leaf:
  assumes ok: "tree_ok mem t" and p: "table_at mem t (butlast p) = Some n" "length p = 4" and q: "length q = 4"
  shows "entry_at (set_entry n (last p) e mem) t q = (if q = p then e else entry_at mem t q)"
proof -
  have eq: "table_at (set_entry n (last p) e mem) t (butlast q) = table_at mem t (butlast q)"
    using table_at_leaf [OF ok p(1)] p(2) q by simp
  show ?thesis
  proof (cases "table_at mem t (butlast q)")
    case (Some x)
    have "x = n \<longleftrightarrow> butlast q = butlast p"
      using tree_okD [OF ok, of "butlast q" n "butlast p"] p q Some by auto
    moreover have "q = p \<longleftrightarrow> butlast q = butlast p \<and> last q = last p"
      using p(2) q by (metis append_butlast_last_id list.size(3) zero_neq_numeral)
    ultimately show ?thesis using Some eq by (auto simp: entry_at_def set_entry_def)
  qed (use eq p(1) in \<open>auto simp: entry_at_def\<close>)
qed

subsection \<open>Mapping a page\<close>

text \<open>
  An allocator of page frames: \<open>inv s F\<close> says that in state \<open>s\<close> at least the frames \<open>F\<close> are in use. A frame is
  page aligned, below \<open>2 ^ 63\<close> and not at address 0.
\<close>

locale frame_source =
  fixes alloc :: "'s \<Rightarrow> (u64 option \<times> 's) option"
    and inv :: "'s \<Rightarrow> u64 set \<Rightarrow> bool"
  assumes alloc_returns: "inv s F \<Longrightarrow> \<exists>r s'. alloc s = Some (r, s')"
    and alloc_fresh: "inv s F \<Longrightarrow> alloc s = Some (Some f, s') \<Longrightarrow> f \<notin> F \<and> f \<noteq> 0 \<and> f AND ADDRMASK = f \<and> inv s' (insert f F)"
    and alloc_failed: "inv s F \<Longrightarrow> alloc s = Some (None, s') \<Longrightarrow> inv s' F"

lemma next_table_new: "f AND ADDRMASK = f \<Longrightarrow> f \<noteq> 0 \<Longrightarrow> next_table (f OR INTERMEDIATE_FLAGS) = Some f"
proof -
  assume f: "f AND ADDRMASK = f" "f \<noteq> 0"
  have "INTERMEDIATE_FLAGS AND ADDRMASK = 0"
    by (simp add: INTERMEDIATE_FLAGS_def ARCH_MMU_FLAGS_READ_def ARCH_MMU_FLAGS_WRITE_def ARCH_MMU_FLAGS_USER_def ADDRMASK_def)
  then have "(f OR INTERMEDIATE_FLAGS) AND ADDRMASK = f" using f(1) by (simp add: bit.conj_disj_distrib2)
  then show ?thesis using f(2) by (auto simp: next_table_def)
qed

context frame_source
begin

text \<open>The address space, its tables all in use, and what the operations keep of it.\<close>

definition space_ok :: "u64 \<Rightarrow> tablemem \<times> 's \<Rightarrow> bool" where
  "space_ok t = (\<lambda>(mem, s). tree_ok mem t \<and> inv s (table_set mem t))"

lemma next_or_new_ok:
  assumes ok: "space_ok t (mem, s)" and p: "table_at mem t p = Some n" "length p \<le> 2"
  obtains r mem' s' where "next_or_new alloc n i (mem, s) = Some (r, mem', s')" and "space_ok t (mem', s')"
    and "\<And>q. length q = 4 \<Longrightarrow> entry_at mem' t q = entry_at mem t q"
    and "\<And>x. r = Some x \<Longrightarrow> table_at mem' t (p @ [i]) = Some x"
proof (cases "next_table (mem n i)")
  case (Some x)
  then show ?thesis using that [of "Some x" mem s] ok p(1) by (simp add: next_or_new_def table_at_snoc)
next
  case None
  have tr: "tree_ok mem t" and inv: "inv s (table_set mem t)" using ok by (auto simp: space_ok_def)
  obtain r s' where a: "alloc s = Some (r, s')" using alloc_returns [OF inv] by blast
  show ?thesis
  proof (cases r)
    case r: None
    with a None show ?thesis using that [of None mem s'] alloc_failed [OF inv] tr by (simp add: next_or_new_def space_ok_def)
  next
    case (Some f)
    then have f: "f \<notin> table_set mem t" "f \<noteq> 0" "f AND ADDRMASK = f" "inv s' (insert f (table_set mem t))"
      using alloc_fresh [OF inv] a by auto
    define mem' where "mem' = (set_entry n i (f OR INTERMEDIATE_FLAGS) mem)(f := \<lambda>_. 0)"
    note T = table_at_new [OF tr p None f(1) next_table_new [OF f(3,2)] mem'_def]
    have old: "table_at mem t (p @ [i]) = None" using p(1) None by (simp add: table_at_snoc)
    have r: "length (p @ [i]) \<le> 3" using p(2) by simp
    note N = tree_new [OF tr T old r f(1)]
    have "entry_at mem' t q = entry_at mem t q" if q: "length q = 4" for q
    proof (rule entry_at_new [OF T old _ q])
      fix x j
      assume x: "table_at mem t (butlast q) = Some x"
      then have "x \<noteq> f" using f(1) q by (auto simp: table_set_def)
      moreover have "x \<noteq> n" using tree_okD [OF tr, of "butlast q" n p] p q x by auto
      ultimately show "mem' x j = mem x j" by (simp add: mem'_def set_entry_def)
    next
      show "mem' f j = 0" for j by (simp add: mem'_def)
    qed
    moreover have "table_at mem' t (p @ [i]) = Some f" using T p(2) by simp
    ultimately show ?thesis
      using that [of "Some f" mem' s'] a None Some f(4) N by (simp add: next_or_new_def space_ok_def mem'_def [symmetric])
  qed
qed

lemma set_leaf_ok:
  assumes ok: "space_ok t (mem, s)" and p: "table_at mem t (butlast p) = Some n" "length p = 4"
  shows "space_ok t (set_entry n (last p) e mem, s)"
    and "length q = 4 \<Longrightarrow> entry_at (set_entry n (last p) e mem) t q = (if q = p then e else entry_at mem t q)"
proof -
  have tr: "tree_ok mem t" using ok by (simp add: space_ok_def)
  have l: "length (butlast p) = 3" using p(2) by simp
  have "tree_ok (set_entry n (last p) e mem) t" "table_set (set_entry n (last p) e mem) t = table_set mem t"
    by (rule tree_ok_cong [OF tr table_at_leaf [OF tr p(1) l]], assumption)+
  then show "space_ok t (set_entry n (last p) e mem, s)" using ok by (simp add: space_ok_def)
  show "entry_at (set_entry n (last p) e mem) t q = (if q = p then e else entry_at mem t q)" if "length q = 4"
    by (rule entry_at_leaf [OF tr p that])
qed

lemma add_page_ok:
  assumes ok: "space_ok t (mem, s)"
  shows "\<exists>ok mem' s'. add_page alloc t va e 0 (mem, s) = Some (ok, mem', s') \<and> space_ok t (mem', s')
    \<and> (\<forall>q. length q = 4 \<longrightarrow> entry_at mem' t q = (if ok \<and> q = page_path va then e else entry_at mem t q))"
proof -
  have D: "(0 :: nat) \<noteq> DEPTH_PDPT" "(0 :: nat) \<noteq> DEPTH_PD" "(0 :: nat) \<noteq> DEPTH_PT"
    by (simp_all add: DEPTH_PDPT_def DEPTH_PD_def DEPTH_PT_def)
  have p0: "table_at mem t [] = Some t" "length [] \<le> (2 :: nat)" by simp_all
  obtain r1 mem1 s1 where 1: "next_or_new alloc t (pml4offset va) (mem, s) = Some (r1, mem1, s1)" "space_ok t (mem1, s1)"
      "\<And>q. length q = 4 \<Longrightarrow> entry_at mem1 t q = entry_at mem t q"
      "\<And>x. r1 = Some x \<Longrightarrow> table_at mem1 t ([] @ [pml4offset va]) = Some x"
    by (rule next_or_new_ok [OF ok p0]) (rule that)
  show ?thesis
  proof (cases r1)
    case None
    with 1 D show ?thesis by (intro exI [of _ False] exI [of _ mem1] exI [of _ s1]) (simp add: add_page_def)
  next
    case (Some pdpt)
    then have p1: "table_at mem1 t [pml4offset va] = Some pdpt" "length [pml4offset va] \<le> 2" using 1(4) by simp_all
    obtain r2 mem2 s2 where 2: "next_or_new alloc pdpt (pdptoffset va) (mem1, s1) = Some (r2, mem2, s2)" "space_ok t (mem2, s2)"
        "\<And>q. length q = 4 \<Longrightarrow> entry_at mem2 t q = entry_at mem1 t q"
        "\<And>x. r2 = Some x \<Longrightarrow> table_at mem2 t ([pml4offset va] @ [pdptoffset va]) = Some x"
      by (rule next_or_new_ok [OF 1(2) p1]) (rule that)
    show ?thesis
    proof (cases r2)
      case None
      with Some 1 2 D show ?thesis by (intro exI [of _ False] exI [of _ mem2] exI [of _ s2]) (simp add: add_page_def)
    next
      case pd: (Some pd)
      then have p2: "table_at mem2 t [pml4offset va, pdptoffset va] = Some pd" "length [pml4offset va, pdptoffset va] \<le> 2"
        using 2(4) by simp_all
      obtain r3 mem3 s3 where 3: "next_or_new alloc pd (pdoffset va) (mem2, s2) = Some (r3, mem3, s3)" "space_ok t (mem3, s3)"
          "\<And>q. length q = 4 \<Longrightarrow> entry_at mem3 t q = entry_at mem2 t q"
          "\<And>x. r3 = Some x \<Longrightarrow> table_at mem3 t ([pml4offset va, pdptoffset va] @ [pdoffset va]) = Some x"
        by (rule next_or_new_ok [OF 2(2) p2]) (rule that)
      show ?thesis
      proof (cases r3)
        case None
        with Some pd 1 2 3 D show ?thesis by (intro exI [of _ False] exI [of _ mem3] exI [of _ s3]) (simp add: add_page_def)
      next
        case pt: (Some pt)
        then have p3: "table_at mem3 t (butlast (page_path va)) = Some pt" using 3(4) by (simp add: page_path_def)
        note L = set_leaf_ok [OF 3(2) p3, unfolded last_page_path, OF refl]
        show ?thesis using Some pd pt D 1(1,3) 2(1,3) 3(1,3) L
          by (intro exI [of _ True] exI [of _ "set_entry pt (ptoffset va) e mem3"] exI [of _ s3]) (simp add: add_page_def)
      qed
    qed
  qed
qed

end

subsection \<open>Pages and entries\<close>

text \<open>The entry of a virtual address; 0 where the tables have none.\<close>

definition lookup :: "tablemem \<Rightarrow> u64 \<Rightarrow> u64 \<Rightarrow> u64" where
  "lookup mem t va = entry_at mem t (page_path va)"

definition PAGEMASK :: u64 where
  "PAGEMASK = 0xfffffffff000"

lemma unshift:
  assumes "drop_bit n (x AND m) = drop_bit n (y AND m :: u64)" and "m AND mask n = 0"
  shows "x AND m = y AND m"
proof (rule bit_word_eqI)
  fix k
  assume "k < LENGTH(64)"
  show "bit (x AND m) k = bit (y AND m) k"
  proof (cases "k < n")
    case True
    moreover have "bit (m AND mask n) k \<longleftrightarrow> bit m k \<and> k < n" using \<open>k < LENGTH(64)\<close> by (simp add: bit_and_iff bit_mask_iff)
    ultimately have "\<not> bit m k" unfolding assms(2) by simp
    then show ?thesis by (simp add: bit_and_iff)
  next
    case False
    then have "k = n + (k - n)" by simp
    then show ?thesis using assms(1) by (metis bit_drop_bit_eq comp_apply)
  qed
qed

lemma page_path_eq_iff: "page_path va = page_path va' \<longleftrightarrow> va AND PAGEMASK = va' AND PAGEMASK"
proof -
  have split: "x AND PAGEMASK = (x AND PTMASK) OR (x AND PDMASK) OR (x AND PDPTMASK) OR (x AND PML4MASK)" for x
    by (simp add: PAGEMASK_def PTMASK_def PDMASK_def PDPTMASK_def PML4MASK_def flip: bit.conj_disj_distrib)
  have sub: "PAGEMASK AND PTMASK = PTMASK" "PAGEMASK AND PDMASK = PDMASK" "PAGEMASK AND PDPTMASK = PDPTMASK" "PAGEMASK AND PML4MASK = PML4MASK"
    by (simp_all add: PAGEMASK_def PTMASK_def PDMASK_def PDPTMASK_def PML4MASK_def)
  have low: "PTMASK AND mask 12 = 0" "PDMASK AND mask 21 = 0" "PDPTMASK AND mask 30 = 0" "PML4MASK AND mask 39 = 0"
    by (simp_all add: PTMASK_def PDMASK_def PDPTMASK_def PML4MASK_def mask_eq_exp_minus_1)
  show ?thesis
  proof
    assume "page_path va = page_path va'"
    then have eq: "drop_bit 12 (va AND PTMASK) = drop_bit 12 (va' AND PTMASK)" "drop_bit 21 (va AND PDMASK) = drop_bit 21 (va' AND PDMASK)"
        "drop_bit 30 (va AND PDPTMASK) = drop_bit 30 (va' AND PDPTMASK)" "drop_bit 39 (va AND PML4MASK) = drop_bit 39 (va' AND PML4MASK)"
      by (simp_all only: page_path_def ptoffset_def pdoffset_def pdptoffset_def pml4offset_def list.inject word_unat_eq_iff)
    note eq(1) [THEN unshift, OF low(1)] eq(2) [THEN unshift, OF low(2)] eq(3) [THEN unshift, OF low(3)] eq(4) [THEN unshift, OF low(4)]
    then show "va AND PAGEMASK = va' AND PAGEMASK" by (simp add: split)
  next
    assume *: "va AND PAGEMASK = va' AND PAGEMASK"
    have "va AND m = va' AND m" if "PAGEMASK AND m = m" for m using * that by (metis and.assoc)
    with sub show "page_path va = page_path va'"
      by (simp add: page_path_def ptoffset_def pdoffset_def pdptoffset_def pml4offset_def)
  qed
qed

lemma lookup_get_page:
  "lookup mem t va = (case get_page mem t va of None \<Rightarrow> 0 | Some (pt, i) \<Rightarrow> mem pt i)"
  by (simp add: lookup_def entry_at_def get_page_path split: option.split)

text \<open>Every query is a function of the entry.\<close>

lemma queries:
  "arch_mmu_getphysical mem t va = lookup mem t va AND ADDRMASK"
  "arch_mmu_ispresent mem t va \<longleftrightarrow> lookup mem t va \<noteq> 0"
  "arch_mmu_iswritable mem t va \<longleftrightarrow> lookup mem t va AND ARCH_MMU_FLAGS_WRITE \<noteq> 0"
  "arch_mmu_isdirty mem t va \<longleftrightarrow> lookup mem t va AND ARCH_MMU_FLAGS_DIRTY \<noteq> 0"
  by (auto simp: arch_mmu_getphysical_def arch_mmu_ispresent_def arch_mmu_iswritable_def arch_mmu_isdirty_def lookup_get_page
      split: option.split)

subsection \<open>The physical memory manager as the source of tables\<close>

definition pmm_frame :: "(pageid \<Rightarrow> 'a pmm_scheme \<Rightarrow> (errno \<times> 'a pmm_scheme) option) \<Rightarrow> 'a pmm_scheme
    \<Rightarrow> (u64 option \<times> 'a pmm_scheme) option" where
  "pmm_frame takepage s =
     map_option (\<lambda>(r, s). (map_option of_nat r, s)) (pmm_allocpage takepage PMM_SECTION_DEFAULT s)"

text \<open>The lists are in order, the page cache has no frame to give, and the frames \<open>F\<close> have references.\<close>

definition frames_inv :: "'a pmm_scheme \<Rightarrow> u64 set \<Rightarrow> bool" where
  "frames_inv s F \<longleftrightarrow> (\<exists>L. pmm_ok s L \<and> (\<forall>c<3. L True c = [] \<and> (\<forall>p\<in>set (L False c). p \<noteq> 0 \<and> p < 2 ^ 51)))
     \<and> (\<forall>f\<in>F. refcount (pages s (unat f div 4096)) \<noteq> 0)"

lemma page_address:
  assumes "p \<noteq> 0" and "p < 2 ^ 51"
  shows "unat (of_nat (p * 4096) :: u64) = p * 4096" and "(of_nat (p * 4096) :: u64) AND ADDRMASK = of_nat (p * 4096)"
    and "(of_nat (p * 4096) :: u64) \<noteq> 0"
proof -
  let ?x = "of_nat (p * 4096) :: u64"
  have u: "p * 4096 < 2 ^ 63" using assms(2) by simp
  then show x: "unat ?x = p * 4096" by (intro unat_of_nat_small) simp
  then show "?x \<noteq> 0" using assms(1) by (metis mult_is_0 unat_0 zero_neq_numeral)
  have "take_bit 63 ?x = ?x" using u x by (simp add: word_unat_eq_iff unsigned_take_bit_eq take_bit_nat_def)
  then have m63: "?x AND mask 63 = ?x" by (simp only: take_bit_eq_mask)
  have "?x = push_bit 12 (of_nat p)" by (simp add: push_bit_eq_mult mult.commute)
  then have m12: "?x AND NOT (mask 12) = ?x" by (auto simp: bit_eq_iff bit_simps)
  have "?x AND ADDRMASK = ?x AND (mask 63 AND NOT (mask 12))" by (simp add: ADDRMASK_def mask_eq_exp_minus_1)
  also have "\<dots> = (?x AND mask 63) AND NOT (mask 12)" by (rule and.assoc [symmetric])
  finally show "?x AND ADDRMASK = ?x" unfolding m63 m12 .
qed

interpretation pmm_tables: frame_source "pmm_frame takepage" frames_inv
proof
  fix s :: "'a pmm_scheme" and F
  assume "frames_inv s F"
  then obtain L where L: "pmm_ok s L" "\<And>c. c < 3 \<Longrightarrow> L True c = []" "\<And>c p. c < 3 \<Longrightarrow> p \<in> set (L False c) \<Longrightarrow> p \<noteq> 0 \<and> p < 2 ^ 51"
      "\<And>f. f \<in> F \<Longrightarrow> refcount (pages s (unat f div 4096)) \<noteq> 0"
    unfolding frames_inv_def by auto
  have c: "PMM_SECTION_DEFAULT < 3" and st: "\<And>c'. c' \<le> PMM_SECTION_DEFAULT \<Longrightarrow> L True c' = []"
    using L(2) by (simp_all add: PMM_SECTION_DEFAULT_def)
  note A = allocpage_free [OF L(1) c st, of takepage]
  show "\<exists>r s'. pmm_frame takepage s = Some (r, s')" using A by (auto simp: pmm_frame_def)
  show "frames_inv s' F" if "pmm_frame takepage s = Some (None, s')" for s'
    using A that \<open>frames_inv s F\<close> by (auto simp: pmm_frame_def)
  show "f \<notin> F \<and> f \<noteq> 0 \<and> f AND ADDRMASK = f \<and> frames_inv s' (insert f F)" if f: "pmm_frame takepage s = Some (Some f, s')" for f s'
  proof -
    obtain p where p: "f = of_nat (p * 4096)" "p \<in> set (L False (section_of p))" "pmm_ok s' (dropped {p} L)" "pages s' p = ALLOCATED"
        "\<And>q. q \<noteq> p \<Longrightarrow> unlinked (pages s' q) = unlinked (pages s q)"
      using A f by (auto simp: pmm_frame_def)
    note P = page_address [of p] L(3) [OF section_of_less p(2)]
    have r: "refcount (pages s' p) = 1" using p(4) by (simp add: ALLOCATED_def)
    have z: "refcount (pages s p) = 0" using pmm_okD(3) [OF L(1) p(2)] by (simp add: frame_ok_def)
    have u: "unat f div 4096 = p" using P p(1) by simp
    have "f \<notin> F" using L(4) u z by metis
    have r': "refcount (pages s' (unat g div 4096)) \<noteq> 0" if "g \<in> insert f F" for g
    proof (cases "unat g div 4096 = p")
      case False
      then have "refcount (pages s' (unat g div 4096)) = refcount (pages s (unat g div 4096))"
        by (rule unlinked_fields(2) [OF p(5)])
      then show ?thesis using that False u L(4) [of g] by auto
    qed (simp add: r)
    have "dropped {p} L True c = [] \<and> (\<forall>q\<in>set (dropped {p} L False c). q \<noteq> 0 \<and> q < 2 ^ 51)" if "c < 3" for c
      using L(2,3) [OF that] by (auto simp: dropped_def)
    then have "frames_inv s' (insert f F)"
      unfolding frames_inv_def using p(3) r' by (intro conjI exI [of _ "dropped {p} L"] allI impI ballI) (blast+)
    with \<open>f \<notin> F\<close> P p(1) show ?thesis by simp
  qed
qed

text \<open>
  C14: With page tables taken from the physical memory manager, \<open>arch_mmu_map\<close> always returns, keeps the tables a tree of
  frames in use, and changes the address space at one page only: after a success the entry of every address of that
  page is the new one, every other address has the entry it had, and a failed call changes no entry. When
  the flags are outside the address bits, \<open>arch_mmu_getphysical\<close> then gives the frame that was mapped.
\<close>

theorem arch_mmu_map_updates_one_page:
  assumes "tree_ok mem t" and "frames_inv s (table_set mem t)"
  shows "\<exists>ok mem' s'. arch_mmu_map (pmm_frame takepage) t paddr va flags (mem, s) = Some (ok, mem', s')
    \<and> tree_ok mem' t \<and> frames_inv s' (table_set mem' t)
    \<and> (\<forall>va'. lookup mem' t va' =
          (if ok \<and> va' AND PAGEMASK = va AND PAGEMASK then (paddr AND ADDRMASK) OR flags else lookup mem t va'))
    \<and> (ok \<and> flags AND ADDRMASK = 0 \<longrightarrow> arch_mmu_getphysical mem' t va = paddr AND ADDRMASK)"
proof -
  have "pmm_tables.space_ok t (mem, s)" using assms by (simp add: pmm_tables.space_ok_def)
  from pmm_tables.add_page_ok [OF this, of takepage va "(paddr AND ADDRMASK) OR flags"] obtain ok mem' s' where
    *: "arch_mmu_map (pmm_frame takepage) t paddr va flags (mem, s) = Some (ok, mem', s')" "pmm_tables.space_ok t (mem', s')"
      "\<And>q. length q = 4 \<Longrightarrow> entry_at mem' t q = (if ok \<and> q = page_path va then (paddr AND ADDRMASK) OR flags else entry_at mem t q)"
    unfolding arch_mmu_map_def by auto
  have l: "lookup mem' t va' = (if ok \<and> va' AND PAGEMASK = va AND PAGEMASK then (paddr AND ADDRMASK) OR flags else lookup mem t va')" for va'
    by (simp add: lookup_def *(3) page_path_eq_iff)
  moreover have "arch_mmu_getphysical mem' t va = paddr AND ADDRMASK" if "ok \<and> flags AND ADDRMASK = 0"
    using that by (simp add: queries l bit.conj_disj_distrib2 and.assoc)
  ultimately show ?thesis using *(1,2) by (simp add: pmm_tables.space_ok_def)
qed

subsection \<open>Destroying an address space\<close>

text \<open>What a path of indices leads to, table or page; 0 where it leads nowhere.\<close>

fun reached :: "tablemem \<Rightarrow> u64 \<Rightarrow> nat list \<Rightarrow> u64" where
  "reached mem t [] = t"
| "reached mem t (i # p) = (if mem t i AND ADDRMASK = 0 then 0 else reached mem (mem t i AND ADDRMASK) p)"

text \<open>The paths \<open>destroy\<close> visits from a table of some depth: \<open>n\<close> entries of it, all 512 of those below.\<close>

definition paths :: "nat \<Rightarrow> nat \<Rightarrow> nat list set" where
  "paths d n = {i # q |i q. i < n \<and> length q \<le> d \<and> set q \<subseteq> {..<512}}"

lemma count_list_concat_upt: "count_list (concat (map g [0..<n])) f = (\<Sum>i<n. count_list (g i) f)"
  by (induction n) simp_all

lemma card_Cons_paths:
  fixes n :: nat
  assumes "\<And>i. i < n \<Longrightarrow> finite (Q i)"
  shows "card {i # q |i q. i < n \<and> q \<in> Q i} = (\<Sum>i<n. card (Q i))"
proof -
  have "{i # q |i q. i < n \<and> q \<in> Q i} = (\<lambda>(i, q). i # q) ` (SIGMA i:{..<n}. Q i)" by auto
  moreover have "inj_on (\<lambda>(i, q). i # q) (SIGMA i:{..<n}. Q i)" by (auto simp: inj_on_def)
  moreover have "card (SIGMA i:{..<n}. Q i) = (\<Sum>i<n. card (Q i))" using assms by (intro card_SigmaI) auto
  ultimately show ?thesis by (simp add: card_image)
qed

lemma finite_short: "finite {q :: nat list. length q \<le> d \<and> set q \<subseteq> {..<512} \<and> P q}"
  by (rule finite_subset [OF _ finite_lists_length_le [of "{..<512}" d]]) auto

lemma card_below:
  "card {q. length q \<le> Suc d \<and> set q \<subseteq> {..<512} \<and> reached mem a q = f}
    = (if a = f then 1 else 0) + card {p \<in> paths d 512. reached mem a p = f}"
proof -
  let ?A = "if a = f then {[] :: nat list} else {}" and ?B = "{p \<in> paths d 512. reached mem a p = f}"
  have "q \<in> {q. length q \<le> Suc d \<and> set q \<subseteq> {..<512} \<and> reached mem a q = f} \<longleftrightarrow> q \<in> ?A \<union> ?B" for q
    by (cases q) (auto simp: paths_def simp del: reached.simps(2))
  then have "{q. length q \<le> Suc d \<and> set q \<subseteq> {..<512} \<and> reached mem a q = f} = ?A \<union> ?B" by blast
  moreover have "finite ?B"
    by (rule finite_subset [OF _ finite_short [of "Suc d" "\<lambda>_. True"]]) (auto simp: paths_def)
  moreover have "?A \<inter> ?B = {}" by (auto simp: paths_def)
  ultimately show ?thesis by (simp add: card_Un_disjoint)
qed

lemma destroy_count:
  assumes f: "f \<noteq> 0"
  shows "d \<le> 3 \<Longrightarrow> count_list (destroy d mem t) f = card {p \<in> paths d (if d = 3 then 256 else 512). reached mem t p = f}"
proof (induction d arbitrary: t)
  case 0
  have Q: "{q. length q \<le> 0 \<and> set q \<subseteq> {..<512} \<and> reached mem t (i # q) = f} = (if mem t i AND ADDRMASK = f then {[]} else {})" for i
    using f by auto
  have "{p \<in> paths 0 n. reached mem t p = f}
      = {i # q |i q. i < n \<and> q \<in> {q. length q \<le> 0 \<and> set q \<subseteq> {..<512} \<and> reached mem t (i # q) = f}}" for n
    unfolding paths_def by blast
  then have "card {p \<in> paths 0 n. reached mem t p = f} = (\<Sum>i<n. card {q. length q \<le> 0 \<and> set q \<subseteq> {..<512} \<and> reached mem t (i # q) = f})" for n
    by (simp only: card_Cons_paths [OF finite_short])
  moreover have "(\<Sum>i<n. card {q. length q \<le> 0 \<and> set q \<subseteq> {..<512} \<and> reached mem t (i # q) = f}) = (\<Sum>i<n. count_list (let addr = mem t i AND ADDRMASK in if addr = 0 then [] else [addr]) f)" for n
    unfolding Q using f by (intro sum.cong refl) (simp add: Let_def)
  ultimately show ?case unfolding destroy.simps count_list_concat_upt by simp
next
  case (Suc d)
  define n where "n = (if Suc d = 3 then 256 else 512 :: nat)"
  let ?Q = "\<lambda>i. {q. length q \<le> Suc d \<and> set q \<subseteq> {..<512} \<and> reached mem t (i # q) = f}"
  have "{p \<in> paths (Suc d) n. reached mem t p = f} = {i # q |i q. i < n \<and> q \<in> ?Q i}"
    unfolding paths_def by blast
  also have "card \<dots> = (\<Sum>i<n. card (?Q i))" by (rule card_Cons_paths) (rule finite_short)
  also have "\<dots> = (\<Sum>i<n. count_list (let addr = mem t i AND ADDRMASK in if addr = 0 then [] else destroy d mem addr @ [addr]) f)"
  proof (rule sum.cong [OF refl])
    fix i
    define a where "a = mem t i AND ADDRMASK"
    have "count_list (destroy d mem a) f = card {p \<in> paths d (if d = 3 then 256 else 512). reached mem a p = f}"
      by (rule Suc.IH) (use Suc.prems in simp)
    then have IH: "count_list (destroy d mem a) f = card {p \<in> paths d 512. reached mem a p = f}" using Suc.prems by simp
    show "card (?Q i) = count_list (let addr = mem t i AND ADDRMASK in if addr = 0 then [] else destroy d mem addr @ [addr]) f"
    proof (cases "a = 0")
      case False
      then have "?Q i = {q. length q \<le> Suc d \<and> set q \<subseteq> {..<512} \<and> reached mem a q = f}" by (simp add: a_def)
      then show ?thesis using False IH card_below [of d mem a f] by (simp add: Let_def flip: a_def)
    qed (use f in \<open>simp flip: a_def\<close>)
  qed
  also have "\<dots> = count_list (destroy (Suc d) mem t) f"
    unfolding destroy.simps count_list_concat_upt n_def ..
  finally show ?case by (simp add: n_def)
qed

lemma destroy_nonzero: "0 \<notin> set (destroy d mem t)"
  by (induction d arbitrary: t) (auto simp: Let_def)

text \<open>
  C31: \<open>arch_mmu_destroytable\<close> drops, before the reference to the top table itself, exactly the references the user
  half of the address space holds: every frame, be it a table or a mapped page, is released once for each path of
  indices that leads to it from the lower 256 entries of the top table, and no frame that only the kernel half
  reaches is released.
\<close>

theorem destroytable_releases_user_half:
  "\<exists>rs. arch_mmu_destroytable mem t s = free_loop (map unat (rs @ [t])) s
     \<and> (\<forall>f. count_list rs f = card {p \<in> paths 3 256. reached mem t p = f \<and> f \<noteq> 0})"
proof (intro exI conjI allI)
  show "arch_mmu_destroytable mem t s = free_loop (map unat (destroy 3 mem t @ [t])) s"
    by (simp add: arch_mmu_destroytable_def)
  show "count_list (destroy 3 mem t) f = card {p \<in> paths 3 256. reached mem t p = f \<and> f \<noteq> 0}" for f
    using destroy_count [of f 3 mem t] destroy_nonzero [of 3 mem t] by (cases "f = 0") (simp_all add: count_list_0_iff)
qed

subsection \<open>Translation caches\<close>

text \<open>
  The TLB of a CPU as the set of pages it holds. \<open>do_invalidate\<close> empties it for a NULL page or a big range and drops
  the pages of the range one by one otherwise.
\<close>

definition do_invalidate :: "u64 \<Rightarrow> u64 \<Rightarrow> u64 set \<Rightarrow> u64 set" where
  "do_invalidate page sz tlb =
     (if page = 0 \<or> sz \<ge> 128 * PAGE_SIZE then {}
      else fold (\<lambda>i tlb. tlb - {page + of_nat (4096 * i)}) [0..<(unat sz + 4095) div 4096] tlb)"

record shootdown =
  shootdown_page :: u64
  shootdown_size :: u64
  shootdown_remaining :: nat
  tlbs :: "nat \<Rightarrow> u64 set"

text \<open>The handler of the interrupt on the CPU \<open>cpu\<close>.\<close>

definition arch_mmu_tlbipi :: "nat \<Rightarrow> shootdown \<Rightarrow> shootdown" where
  "arch_mmu_tlbipi cpu s =
     s\<lparr>tlbs := (tlbs s)(cpu := do_invalidate (shootdown_page s) (shootdown_size s) (tlbs s cpu)),
       shootdown_remaining := shootdown_remaining s - 1\<rparr>"

text \<open>
  \<open>running\<close> is the number of running threads of the process of the current thread, if it has one; \<open>order\<close> is the
  order in which the other CPUs take the interrupt. The wait at the end is passed when none is left.
\<close>

definition needs_shootdown :: "bool \<Rightarrow> nat \<Rightarrow> nat option \<Rightarrow> u64 \<Rightarrow> bool" where
  "needs_shootdown thread cpusawake running page \<longleftrightarrow>
     thread \<and> cpusawake \<ge> 2 \<and> (page \<ge> KERNELSPACE_START \<or>
       ((page = 0 \<or> (page \<ge> USERSPACE_START \<and> page < USERSPACE_END)) \<and> (case running of None \<Rightarrow> False | Some n \<Rightarrow> n > 1)))"

definition arch_mmu_invalidate_range ::
  "bool \<Rightarrow> nat \<Rightarrow> nat option \<Rightarrow> nat list \<Rightarrow> nat \<Rightarrow> u64 \<Rightarrow> u64 \<Rightarrow> shootdown \<Rightarrow> shootdown option" where
  "arch_mmu_invalidate_range thread cpusawake running order me page sz s =
     (if page mod PAGE_SIZE \<noteq> 0 then None
      else
        let shoot = needs_shootdown thread cpusawake running page;
            s = (if shoot
                 then fold arch_mmu_tlbipi order
                   (s\<lparr>shootdown_page := page, shootdown_size := sz, shootdown_remaining := cpusawake - 1\<rparr>)
                 else s);
            s = s\<lparr>tlbs := (tlbs s)(me := do_invalidate page sz (tlbs s me))\<rparr>
        in if shoot \<and> shootdown_remaining s \<noteq> 0 then None else Some s)"

text \<open>The pages a range covers.\<close>

definition range_pages :: "u64 \<Rightarrow> u64 \<Rightarrow> u64 set" where
  "range_pages page sz = {page + of_nat (4096 * i) |i. 4096 * i < unat sz}"

lemma mem_fold_drop:
  "x \<in> fold (\<lambda>i tlb. tlb - {g i}) is T \<longleftrightarrow> x \<in> T \<and> (\<forall>i\<in>set is. x \<noteq> g i)"
  by (induction "is" arbitrary: T) auto

lemma do_invalidate_drops: "do_invalidate page sz tlb \<inter> range_pages page sz = {}"
proof -
  have "x \<notin> do_invalidate page sz tlb" if "x = page + of_nat (4096 * i)" "4096 * i < unat sz" for x i
  proof -
    have "i \<in> set [0..<(unat sz + 4095) div 4096]" using that(2) by simp
    then show ?thesis using that(1) unfolding do_invalidate_def by (simp only: mem_fold_drop empty_iff split: if_split) blast
  qed
  then show ?thesis by (auto simp: range_pages_def)
qed

lemma tlbipi_other: "c \<notin> set cs \<Longrightarrow> tlbs (fold arch_mmu_tlbipi cs s) c = tlbs s c"
  by (induction cs arbitrary: s) (simp_all add: arch_mmu_tlbipi_def)

lemma tlbipi_remaining: "shootdown_remaining (fold arch_mmu_tlbipi cs s) = shootdown_remaining s - length cs"
  by (induction cs arbitrary: s) (simp_all add: arch_mmu_tlbipi_def)

lemma tlbipi_drops:
  assumes "distinct cs" and "c \<in> set cs"
  shows "tlbs (fold arch_mmu_tlbipi cs s) c \<inter> range_pages (shootdown_page s) (shootdown_size s) = {}"
  using assms
proof (induction cs arbitrary: s)
  case (Cons d cs)
  let ?s = "arch_mmu_tlbipi d s"
  have p: "shootdown_page ?s = shootdown_page s" "shootdown_size ?s = shootdown_size s" by (simp_all add: arch_mmu_tlbipi_def)
  show ?case
  proof (cases "c = d")
    case True
    have "tlbs ?s d \<inter> range_pages (shootdown_page s) (shootdown_size s) = {}"
      using do_invalidate_drops by (simp add: arch_mmu_tlbipi_def)
    then show ?thesis using True tlbipi_other [of d cs ?s] Cons.prems(1) by simp
  next
    case False
    then show ?thesis using Cons.IH [of ?s] Cons.prems p by simp
  qed
qed simp

text \<open>
  When a shootdown is needed and the other CPUs that are awake take the interrupt in any order,
  \<open>arch_mmu_invalidate_range\<close> gets past its wait and afterwards no CPU has a page of the range in its TLB.
\<close>

lemma invalidate_reaches_every_cpu:
  assumes "needs_shootdown thread cpusawake running page" and "page mod PAGE_SIZE = 0"
    and "distinct order" and "set order = {..<cpusawake} - {me}" and "me < cpusawake"
  shows "\<exists>s'. arch_mmu_invalidate_range thread cpusawake running order me page sz s = Some s'
    \<and> (\<forall>cpu<cpusawake. tlbs s' cpu \<inter> range_pages page sz = {})"
proof -
  let ?s = "s\<lparr>shootdown_page := page, shootdown_size := sz, shootdown_remaining := cpusawake - 1\<rparr>"
  let ?r = "fold arch_mmu_tlbipi order ?s"
  let ?s' = "?r\<lparr>tlbs := (tlbs ?r)(me := do_invalidate page sz (tlbs ?r me))\<rparr>"
  have "card (set order) = cpusawake - 1" using assms(4,5) by simp
  then have l: "length order = cpusawake - 1" using assms(3) by (simp add: distinct_card)
  have "arch_mmu_invalidate_range thread cpusawake running order me page sz s = Some ?s'"
    using assms(1,2) l by (simp add: arch_mmu_invalidate_range_def Let_def tlbipi_remaining)
  moreover have "tlbs ?s' cpu \<inter> range_pages page sz = {}" if "cpu < cpusawake" for cpu
    using that tlbipi_drops [OF assms(3), of cpu ?s] assms(4) do_invalidate_drops by (cases "cpu = me") simp_all
  ultimately show ?thesis by blast
qed

subsection \<open>Concrete states\<close>

text \<open>One table on each level, at the frames 1 to 4.\<close>

definition ex_tables :: tablemem where
  "ex_tables t i = (if i = 0 \<and> (t = 0x1000 \<or> t = 0x2000 \<or> t = 0x3000) then t + 0x1007 else 0)"

definition ex_used :: pmm where
  "ex_used = \<lparr>pages = \<lambda>_. ALLOCATED, pages_addr = 0x100000, pagecount = 5, memorysize = 0x4000,
    freepagecount = 0, freelists = \<lambda>_. None, freetails = \<lambda>_. None, standbylists = \<lambda>_. None,
    standbytails = \<lambda>_. None, searchstart = \<lambda>_. 0\<rparr>"

lemma ex_used_ok: "frames_inv ex_used F"
proof -
  have "pmm_ok ex_used (\<lambda>_ _. [])"
    by (simp add: ex_used_def pmm_ok_def lists_ok_def free_listed_def ALLOCATED_def blank_page_def list_of_def tail_of_def)
  then show ?thesis unfolding frames_inv_def by (intro conjI exI [of _ "\<lambda>_ _. []"]) (auto simp: ex_used_def ALLOCATED_def)
qed

lemma ex_tables_path:
  assumes "table_at ex_tables 0x1000 p = Some n" and "length p \<le> 3"
  shows "p = replicate (length p) 0" and "n = 0x1000 + 0x1000 * of_nat (length p)"
proof -
  consider "p = []" | i where "p = [i]" | i j where "p = [i, j]" | i j k where "p = [i, j, k]"
    using assms(2) by (cases p rule: remdups_adj.cases) (auto simp: length_Suc_conv numeral_3_eq_3 le_Suc_eq)
  then have "p = replicate (length p) 0 \<and> n = 0x1000 + 0x1000 * of_nat (length p)"
    using assms(1) by cases (auto simp: ex_tables_def next_table_def ADDRMASK_def split: if_splits)
  then show "p = replicate (length p) 0" and "n = 0x1000 + 0x1000 * of_nat (length p)" by blast+
qed

lemma ex_tables_ok: "tree_ok ex_tables 0x1000"
  unfolding tree_ok_def
proof (intro allI impI, elim conjE)
  fix p q n
  assume *: "length p \<le> 3" "length q \<le> 3" "table_at ex_tables 0x1000 p = Some n" "table_at ex_tables 0x1000 q = Some n"
  have "(0x1000 :: u64) * of_nat (length p) = 0x1000 * of_nat (length q)"
    using ex_tables_path(2) [OF *(3,1)] ex_tables_path(2) [OF *(4,2)] by simp
  moreover have "length p \<in> {0, 1, 2, 3}" "length q \<in> {0, 1, 2, 3}" using *(1,2) by (simp_all del: length_0_conv) linarith+
  ultimately have "length p = length q" by (elim insertE) simp_all
  then show "p = q" using ex_tables_path(1) [OF *(3,1)] ex_tables_path(1) [OF *(4,2)] by metis
qed

theorem arch_mmu_map_updates_one_page_witness:
  "\<exists>mem' s'. tree_ok ex_tables 0x1000 \<and> frames_inv ex_used (table_set ex_tables 0x1000)
     \<and> arch_mmu_map (pmm_frame (\<lambda>_ _. None)) 0x1000 0x9000 0x5000 7 (ex_tables, ex_used) = Some (True, mem', s')
     \<and> tree_ok mem' 0x1000 \<and> arch_mmu_getphysical mem' 0x1000 0x5000 = 0x9000 \<and> lookup mem' 0x1000 0x6000 = 0"
proof -
  obtain ok mem' s' where *: "arch_mmu_map (pmm_frame (\<lambda>_ _. None)) 0x1000 0x9000 0x5000 7 (ex_tables, ex_used) = Some (ok, mem', s')"
      "tree_ok mem' 0x1000" "ok \<and> 7 AND ADDRMASK = 0 \<longrightarrow> arch_mmu_getphysical mem' 0x1000 0x5000 = 0x9000 AND ADDRMASK"
      "\<And>va'. lookup mem' 0x1000 va' = (if ok \<and> va' AND PAGEMASK = 0x5000 AND PAGEMASK then (0x9000 AND ADDRMASK) OR 7
          else lookup ex_tables 0x1000 va')"
    using arch_mmu_map_updates_one_page [OF ex_tables_ok ex_used_ok, of "\<lambda>_ _. None" "0x9000" "0x5000" 7] by blast
  have "ok"
    using *(1) by (simp add: arch_mmu_map_def add_page_def next_or_new_def ex_tables_def next_table_def ADDRMASK_def DEPTH_PDPT_def
        DEPTH_PD_def DEPTH_PT_def pml4offset_def pdptoffset_def pdoffset_def PML4MASK_def PDPTMASK_def PDMASK_def)
  moreover have "lookup ex_tables 0x1000 0x6000 = 0"
    by (simp add: lookup_get_page get_page_def ex_tables_def next_table_def ADDRMASK_def
        pml4offset_def pdptoffset_def pdoffset_def PML4MASK_def PDPTMASK_def PDMASK_def)
  moreover have "lookup mem' 0x1000 0x6000 = lookup ex_tables 0x1000 0x6000" by (simp add: *(4) PAGEMASK_def)
  ultimately show ?thesis
    using * ex_tables_ok ex_used_ok by (intro exI [of _ mem'] exI [of _ s']) (simp add: ADDRMASK_def)
qed

end
