(* ===== verification/Vmmcache.thy ===== *)
theory Vmmcache
  imports Pmm "HOL-Library.Monad_Syntax"
begin

text \<open>
  The page cache: \<^verbatim>\<open>src/kernel-src/mm/vmmcache.c\<close>.

  The state extends the one of the physical memory manager by the hash table, the page lists of the vnodes, the list
  of dirty pages, the count of the mutex and the reference counts of the vnodes. A vnode is known by its
  address. An operation is the run of one thread: \<open>HOLD_LOCK\<close> on a mutex that is taken is a wait nobody ends, and so
  is the wait for a page that is neither ready nor failed; both are \<open>None\<close>, as is a failed assertion. What a file
  system answers to \<open>VOP_GETPAGE\<close> and \<open>VOP_PUTPAGE\<close> is a parameter.

  The lemmas show that the cache is a map from vnode and offset to pages, and what goes wrong around it: a
  successful \<open>vmmcache_getpage\<close> releases the mutex twice, and \<open>vmmcache_syncvnode\<close> never finds a dirty page.
\<close>

type_synonym vnode = nat

record vcache = pmm +
  table :: "nat \<Rightarrow> pageid option"
  vnode_pages :: "vnode \<Rightarrow> pageid option"
  cachedpages :: nat
  dirtylist :: "pageid option"
  dirtylistend :: "pageid option"
  mutex :: int
  sync_sem :: int
  vnode_refs :: "vnode \<Rightarrow> int"

definition TABLE_SIZE :: nat where "TABLE_SIZE = 4096"

definition HOLD_LOCK :: "vcache \<Rightarrow> vcache option" where
  "HOLD_LOCK s = (if mutex s > 0 then Some (s\<lparr>mutex := mutex s - 1\<rparr>) else None)"

definition RELEASE_LOCK :: "vcache \<Rightarrow> vcache" where
  "RELEASE_LOCK s = s\<lparr>mutex := mutex s + 1\<rparr>"

definition VOP_HOLD :: "vnode \<Rightarrow> vcache \<Rightarrow> vcache" where
  "VOP_HOLD v s = s\<lparr>vnode_refs := (vnode_refs s)(v := vnode_refs s v + 1)\<rparr>"

definition VOP_RELEASE :: "vnode \<Rightarrow> vcache \<Rightarrow> vcache" where
  "VOP_RELEASE v s = s\<lparr>vnode_refs := (vnode_refs s)(v := vnode_refs s v - 1)\<rparr>"

subsection \<open>The hash table and the lists of the vnodes\<close>

text \<open>The bytes of a word, lowest first, as they are in memory.\<close>

definition bytes_of :: "u64 \<Rightarrow> u8 list" where
  "bytes_of w = map (\<lambda>i. ucast (drop_bit (8 * i) w)) [0..<8]"

definition getentry :: "vnode \<Rightarrow> u64 \<Rightarrow> nat" where
  "getentry v offset = unat (fnv1ahash (bytes_of (of_nat v) @ bytes_of offset)) mod TABLE_SIZE"

definition hnext :: "vcache \<Rightarrow> pageid \<Rightarrow> pageid option" where "hnext s p = hashnext (pages s p)"
definition hprev :: "vcache \<Rightarrow> pageid \<Rightarrow> pageid option" where "hprev s p = hashprev (pages s p)"
definition vnext :: "vcache \<Rightarrow> pageid \<Rightarrow> pageid option" where "vnext s p = vnodenext (pages s p)"
definition vprev :: "vcache \<Rightarrow> pageid \<Rightarrow> pageid option" where "vprev s p = vnodeprev (pages s p)"

definition set_hnext :: "pageid \<Rightarrow> pageid option \<Rightarrow> vcache \<Rightarrow> vcache" where
  "set_hnext p v = upd_page p (\<lambda>x. x\<lparr>hashnext := v\<rparr>)"
definition set_hprev :: "pageid \<Rightarrow> pageid option \<Rightarrow> vcache \<Rightarrow> vcache" where
  "set_hprev p v = upd_page p (\<lambda>x. x\<lparr>hashprev := v\<rparr>)"
definition set_vnext :: "pageid \<Rightarrow> pageid option \<Rightarrow> vcache \<Rightarrow> vcache" where
  "set_vnext p v = upd_page p (\<lambda>x. x\<lparr>vnodenext := v\<rparr>)"
definition set_vprev :: "pageid \<Rightarrow> pageid option \<Rightarrow> vcache \<Rightarrow> vcache" where
  "set_vprev p v = upd_page p (\<lambda>x. x\<lparr>vnodeprev := v\<rparr>)"

definition findpage :: "vnode \<Rightarrow> u64 \<Rightarrow> vcache \<Rightarrow> pageid option option" where
  "findpage v offset s =
     walk (hnext s) (\<lambda>p. backing (pages s p) = Some v \<and> pg_offset (pages s p) = offset) (table s (getentry v offset))"

text \<open>The two halves of \<open>putpage\<close> and of \<open>removepage\<close>: the list of the table, then the list of the vnode.\<close>

definition put_hash :: "nat \<Rightarrow> pageid \<Rightarrow> vcache \<Rightarrow> vcache" where
  "put_hash entry p s =
     (let s = set_hprev p None s;
          s = set_hnext p (table s entry) s;
          s = (case table s entry of None \<Rightarrow> s | Some q \<Rightarrow> set_hprev q (Some p) s)
      in s\<lparr>table := (table s)(entry := Some p)\<rparr>)"

definition put_vnode :: "vnode \<Rightarrow> pageid \<Rightarrow> vcache \<Rightarrow> vcache" where
  "put_vnode v p s =
     (let s = set_vprev p None s;
          s = set_vnext p (vnode_pages s v) s;
          s = (case vnode_pages s v of None \<Rightarrow> s | Some q \<Rightarrow> set_vprev q (Some p) s)
      in s\<lparr>vnode_pages := (vnode_pages s)(v := Some p)\<rparr>)"

definition putpage :: "pageid \<Rightarrow> vcache \<Rightarrow> vcache option" where
  "putpage p s =
     (case backing (pages s p) of
        None \<Rightarrow> None
      | Some v \<Rightarrow>
          let s = put_vnode v p (put_hash (getentry v (pg_offset (pages s p))) p s)
          in Some (s\<lparr>cachedpages := cachedpages s + 1\<rparr>))"

definition remove_hash :: "nat \<Rightarrow> pageid \<Rightarrow> vcache \<Rightarrow> vcache" where
  "remove_hash entry p s =
     (let s = (case hnext s p of None \<Rightarrow> s | Some q \<Rightarrow> set_hprev q (hprev s p) s);
          s = (case hprev s p of
                 Some q \<Rightarrow> set_hnext q (hnext s p) s
               | None \<Rightarrow> s\<lparr>table := (table s)(entry := hnext s p)\<rparr>)
      in set_hprev p None (set_hnext p None s))"

definition remove_vnode :: "vnode \<Rightarrow> pageid \<Rightarrow> vcache \<Rightarrow> vcache" where
  "remove_vnode v p s =
     (let s = (case vnext s p of None \<Rightarrow> s | Some q \<Rightarrow> set_vprev q (vprev s p) s);
          s = (case vprev s p of
                 Some q \<Rightarrow> set_vnext q (vnext s p) s
               | None \<Rightarrow> s\<lparr>vnode_pages := (vnode_pages s)(v := vnext s p)\<rparr>)
      in set_vprev p None (set_vnext p None s))"

definition removepage :: "pageid \<Rightarrow> vcache \<Rightarrow> vcache option" where
  "removepage p s =
     (case backing (pages s p) of
        None \<Rightarrow> None
      | Some v \<Rightarrow>
          let s = remove_vnode v p (remove_hash (getentry v (pg_offset (pages s p))) p s)
          in Some (s\<lparr>cachedpages := cachedpages s - 1\<rparr>))"

subsection \<open>Taking pages out of the cache\<close>

definition vmmcache_takepage :: "pageid \<Rightarrow> vcache \<Rightarrow> (errno \<times> vcache) option" where
  "vmmcache_takepage p s = do {
     s \<leftarrow> HOLD_LOCK s;
     if refcount (pages s p) > 1 then Some (EAGAIN, RELEASE_LOCK s)
     else if refcount (pages s p) \<noteq> 1 \<or> PAGE_FLAGS_DIRTY \<in> pg_flags (pages s p) then None
     else do {
       s \<leftarrow> (if PAGE_FLAGS_TRUNCATED \<notin> pg_flags (pages s p) then removepage p s else Some s);
       Some (E_OK, RELEASE_LOCK s)
     }
   }"

definition vmmcache_evict :: "pageid \<Rightarrow> vcache \<Rightarrow> (errno \<times> vcache) option" where
  "vmmcache_evict p s = do {
     s \<leftarrow> HOLD_LOCK s;
     if refcount (pages s p) > 1 then Some (EAGAIN, RELEASE_LOCK s)
     else if refcount (pages s p) \<noteq> 1 \<or> PAGE_FLAGS_DIRTY \<in> pg_flags (pages s p) then None
     else do {
       s \<leftarrow> (if PAGE_FLAGS_TRUNCATED \<notin> pg_flags (pages s p) then removepage p s else Some s);
       Some (E_OK, RELEASE_LOCK (upd_page p (\<lambda>x. x\<lparr>pg_flags := {}, backing := None, pg_offset := 0\<rparr>) s))
     }
   }"

definition vmmcache_pushpage :: "vnode \<Rightarrow> u64 \<Rightarrow> pageid \<Rightarrow> vcache \<Rightarrow> (errno \<times> vcache) option" where
  "vmmcache_pushpage v offset p s =
     (if offset mod PAGE_SIZE \<noteq> 0 then None
      else do {
        s \<leftarrow> HOLD_LOCK s;
        pagetest \<leftarrow> findpage v offset s;
        (case pagetest of
           Some _ \<Rightarrow> Some (EAGAIN, RELEASE_LOCK s)
         | None \<Rightarrow> do {
             s \<leftarrow> putpage p (upd_page p (\<lambda>x. x\<lparr>backing := Some v, pg_offset := offset,
                    pg_flags := insert PAGE_FLAGS_READY (pg_flags x)\<rparr>) s);
             Some (E_OK, RELEASE_LOCK s)
           })
      })"

subsection \<open>Getting pages\<close>

text \<open>
  The branch of \<open>vmmcache_getpage\<close> for a page that is in the cache, up to the last \<open>RELEASE_LOCK\<close>. The result is
  the page, or \<open>None\<close> for the jump back to \<open>retry_err\<close>.
\<close>

definition page_present :: "pageid \<Rightarrow> pageid option \<Rightarrow> vcache \<Rightarrow> (pageid option \<times> vcache) option" where
  "page_present p newpage s = do {
     s \<leftarrow> pmm_hold (pmm_getpageaddress p) s;
     let s = RELEASE_LOCK s;
     s \<leftarrow> (case newpage of None \<Rightarrow> Some s | Some n \<Rightarrow> pmm_release (pmm_getpageaddress n) s);
     if PAGE_FLAGS_READY \<notin> pg_flags (pages s p) \<and> PAGE_FLAGS_ERROR \<notin> pg_flags (pages s p) then None
     else if PAGE_FLAGS_ERROR \<in> pg_flags (pages s p) then do {
       s \<leftarrow> pmm_release (pmm_getpageaddress p) s;
       Some (None, s)
     }
     else Some (Some p, s)
   }"

text \<open>Loading a page: from the second look into the cache on, with the mutex held.\<close>

definition page_load :: "(vnode \<Rightarrow> u64 \<Rightarrow> errno) \<Rightarrow> vnode \<Rightarrow> u64 \<Rightarrow> pageid \<Rightarrow> vcache \<Rightarrow> (errno \<times> vcache) option" where
  "page_load vop_getpage v offset newpage s = do {
     s \<leftarrow> putpage newpage (upd_page newpage (\<lambda>x. x\<lparr>backing := Some v, pg_offset := offset\<rparr>) s);
     let s = RELEASE_LOCK s;
     if vop_getpage v offset \<noteq> E_OK then do {
       s \<leftarrow> HOLD_LOCK s;
       s \<leftarrow> removepage newpage s;
       let s = upd_page newpage (\<lambda>x. x\<lparr>pg_flags := insert PAGE_FLAGS_ERROR (pg_flags x), backing := None, pg_offset := 0\<rparr>) s;
       s \<leftarrow> pmm_release (pmm_getpageaddress newpage) (RELEASE_LOCK s);
       Some (vop_getpage v offset, s)
     }
     else Some (E_OK, upd_page newpage (\<lambda>x. x\<lparr>pg_flags := insert PAGE_FLAGS_READY (pg_flags x)\<rparr>) s)
   }"

text \<open>\<open>is_file v\<close> says that the vnode is a regular file or a block device.\<close>

partial_function (option) vmmcache_getpage ::
  "(vnode \<Rightarrow> bool) \<Rightarrow> (vnode \<Rightarrow> u64 \<Rightarrow> errno) \<Rightarrow> vnode \<Rightarrow> u64 \<Rightarrow> vcache \<Rightarrow> (errno \<times> pageid option \<times> vcache) option" where
  "vmmcache_getpage is_file vop_getpage v offset s =
     (if \<not> is_file v \<or> offset mod PAGE_SIZE \<noteq> 0 then None
      else do {
        s \<leftarrow> HOLD_LOCK s;
        page \<leftarrow> findpage v offset s;
        (case page of
           Some p \<Rightarrow> do {
             (r, s) \<leftarrow> page_present p None s;
             (case r of
                None \<Rightarrow> vmmcache_getpage is_file vop_getpage v offset s
              | Some p \<Rightarrow> Some (E_OK, Some p, RELEASE_LOCK s))
           }
         | None \<Rightarrow> do {
             (address, s) \<leftarrow> pmm_allocpage vmmcache_takepage PMM_SECTION_DEFAULT (RELEASE_LOCK s);
             (case address of
                None \<Rightarrow> Some (ENOMEM, None, s)
              | Some address \<Rightarrow> do {
                  let newpage = pmm_getpage address;
                  s \<leftarrow> HOLD_LOCK s;
                  page \<leftarrow> findpage v offset s;
                  (case page of
                     Some p \<Rightarrow> do {
                       (r, s) \<leftarrow> page_present p (Some newpage) s;
                       (case r of
                          None \<Rightarrow> vmmcache_getpage is_file vop_getpage v offset s
                        | Some p \<Rightarrow> Some (E_OK, Some p, RELEASE_LOCK s))
                     }
                   | None \<Rightarrow> do {
                       (e, s) \<leftarrow> page_load vop_getpage v offset newpage s;
                       (if e \<noteq> E_OK then Some (e, None, s) else Some (E_OK, Some newpage, RELEASE_LOCK s))
                     })
                })
           })
      })"

declare vmmcache_getpage.simps [code]

subsection \<open>Truncation\<close>

partial_function (option) truncate_loop ::
  "u64 \<Rightarrow> pageid option \<Rightarrow> pageid option \<Rightarrow> vcache \<Rightarrow> (pageid option \<times> vcache) option" where
  "truncate_loop offset page pagelist s =
     (case page of
        None \<Rightarrow> Some (pagelist, s)
      | Some oldpage \<Rightarrow>
          let page = vnext s oldpage
          in if pg_offset (pages s oldpage) < offset then truncate_loop offset page pagelist s
             else do {
               s \<leftarrow> removepage oldpage
                 (upd_page oldpage (\<lambda>x. x\<lparr>pg_flags := insert PAGE_FLAGS_TRUNCATED (pg_flags x)\<rparr>) s);
               truncate_loop offset page (Some oldpage) (set_vnext oldpage pagelist s)
             })"

partial_function (option) unpin_loop :: "pageid option \<Rightarrow> vcache \<Rightarrow> vcache option" where
  "unpin_loop pagelist s =
     (case pagelist of
        None \<Rightarrow> Some s
      | Some p \<Rightarrow>
          let pagelist = vnext s p
          in do {
            s \<leftarrow> (if PAGE_FLAGS_PINNED \<in> pg_flags (pages s p) then pmm_release (pmm_getpageaddress p) s else Some s);
            unpin_loop pagelist s
          })"

definition vmmcache_truncate :: "vnode \<Rightarrow> u64 \<Rightarrow> vcache \<Rightarrow> (errno \<times> vcache) option" where
  "vmmcache_truncate v offset s = do {
     s \<leftarrow> HOLD_LOCK s;
     (pagelist, s) \<leftarrow> truncate_loop offset (vnode_pages s v) None s;
     s \<leftarrow> unpin_loop pagelist (RELEASE_LOCK s);
     Some (E_OK, s)
   }"

subsection \<open>Dirty pages\<close>

text \<open>
  Called with the mutex held, returns with it released. The list of dirty pages uses the links the free lists
  use while the page is free. \<open>VOP_RELEASE\<close> clears the pointer it is given, here \<open>page->backing\<close>, when it drops the last
  reference; the call to \<open>vfs_inactive\<close> it then makes is left to the file system.
\<close>

definition syncpage :: "(vnode \<Rightarrow> u64 \<Rightarrow> errno) \<Rightarrow> pageid \<Rightarrow> vcache \<Rightarrow> (errno \<times> vcache) option" where
  "syncpage vop_putpage p s =
     (if PAGE_FLAGS_DIRTY \<notin> pg_flags (pages s p) then None
      else
        let s = RELEASE_LOCK (upd_page p (\<lambda>x. x\<lparr>pg_flags := pg_flags x - {PAGE_FLAGS_DIRTY}\<rparr>) s)
        in case backing (pages s p) of
             None \<Rightarrow> None
           | Some v \<Rightarrow>
               let e = (if PAGE_FLAGS_TRUNCATED \<notin> pg_flags (pages s p) then vop_putpage v (pg_offset (pages s p)) else E_OK)
               in do {
                 let s = VOP_RELEASE v s;
                 let s = (if vnode_refs s v = 0 then upd_page p (\<lambda>x. x\<lparr>backing := None\<rparr>) s else s);
                 s \<leftarrow> pmm_release (pmm_getpageaddress p) s;
                 Some (e, s)
               })"

text \<open>The test of the loop of \<open>vmmcache_syncvnode\<close>; the flag is taken from the offset of the page.\<close>

definition PAGE_FLAGS_DIRTY_bit :: u64 where
  "PAGE_FLAGS_DIRTY_bit = 8"

definition wants_sync :: "u64 \<Rightarrow> u64 \<Rightarrow> page \<Rightarrow> bool" where
  "wants_sync offset ptop x \<longleftrightarrow>
     \<not> (pg_offset x < offset \<or> pg_offset x \<ge> ptop \<or> (pg_offset x AND PAGE_FLAGS_DIRTY_bit) = 0)"

definition unlink_dirty :: "pageid \<Rightarrow> vcache \<Rightarrow> vcache" where
  "unlink_dirty p s =
     (let s = (case lnext s p of None \<Rightarrow> s | Some q \<Rightarrow> set_lprev q (lprev s p) s);
          s = (case lprev s p of Some q \<Rightarrow> set_lnext q (lnext s p) s | None \<Rightarrow> s\<lparr>dirtylist := lnext s p\<rparr>)
      in if dirtylist s = None then s\<lparr>dirtylistend := None\<rparr> else s)"

partial_function (option) collect_dirty ::
  "u64 \<Rightarrow> u64 \<Rightarrow> pageid option \<Rightarrow> pageid option \<Rightarrow> vcache \<Rightarrow> (pageid option \<times> vcache) option" where
  "collect_dirty offset ptop page vnodedirtylist s =
     (case page of
        None \<Rightarrow> Some (vnodedirtylist, s)
      | Some p \<Rightarrow>
          if wants_sync offset ptop (pages s p)
          then let s = set_lprev p None (set_lnext p vnodedirtylist (unlink_dirty p s))
               in collect_dirty offset ptop (vnext s p) (Some p) s
          else collect_dirty offset ptop (vnext s p) vnodedirtylist s)"

partial_function (option) sync_collected ::
  "(vnode \<Rightarrow> u64 \<Rightarrow> errno) \<Rightarrow> pageid option \<Rightarrow> errno \<Rightarrow> vcache \<Rightarrow> (errno \<times> vcache) option" where
  "sync_collected vop_putpage vnodedirtylist e s =
     (case vnodedirtylist of
        None \<Rightarrow> Some (e, s)
      | Some p \<Rightarrow> do {
          s \<leftarrow> HOLD_LOCK s;
          let vnodedirtylist = lnext s p;
          (error, s) \<leftarrow> syncpage vop_putpage p (set_lnext p None s);
          sync_collected vop_putpage vnodedirtylist (if e = E_OK then error else e) s
        })"

definition vmmcache_syncvnode :: "(vnode \<Rightarrow> u64 \<Rightarrow> errno) \<Rightarrow> vnode \<Rightarrow> u64 \<Rightarrow> u64 \<Rightarrow> vcache \<Rightarrow> (errno \<times> vcache) option" where
  "vmmcache_syncvnode vop_putpage v offset sz s =
     (let offset = ROUND_DOWN offset PAGE_SIZE; ptop = offset + sz
      in if ptop \<le> offset then None
         else do {
           s \<leftarrow> HOLD_LOCK s;
           (vnodedirtylist, s) \<leftarrow> collect_dirty offset ptop (vnode_pages s v) None s;
           sync_collected vop_putpage vnodedirtylist E_OK (RELEASE_LOCK s)
         })"

text \<open>\<open>vmmcache_sync\<close> up to its wait for the writer; the result says whether it waits.\<close>

definition vmmcache_sync :: "vcache \<Rightarrow> (bool \<times> vcache) option" where
  "vmmcache_sync s = do {
     s \<leftarrow> HOLD_LOCK s;
     if dirtylist s = None then Some (False, RELEASE_LOCK s)
     else Some (True, RELEASE_LOCK (s\<lparr>sync_sem := sync_sem s + 1\<rparr>))
   }"

text \<open>\<open>vmmcache_makedirty\<close> up to the new modification time it stores in the vnode.\<close>

definition vmmcache_makedirty :: "pageid \<Rightarrow> vcache \<Rightarrow> (errno \<times> vcache) option" where
  "vmmcache_makedirty p s = do {
     s \<leftarrow> HOLD_LOCK s;
     s \<leftarrow> (if PAGE_FLAGS_DIRTY \<notin> pg_flags (pages s p) \<and> PAGE_FLAGS_TRUNCATED \<notin> pg_flags (pages s p)
           then
             let s = upd_page p (\<lambda>x. x\<lparr>pg_flags := insert PAGE_FLAGS_DIRTY (pg_flags x)\<rparr>) s;
                 s = set_lnext p (dirtylist s) (set_lprev p None s);
                 s = (case dirtylist s of Some q \<Rightarrow> set_lprev q (Some p) s | None \<Rightarrow> s\<lparr>dirtylistend := Some p\<rparr>);
                 s = s\<lparr>dirtylist := Some p\<rparr>
             in do {
               s \<leftarrow> pmm_hold (pmm_getpageaddress p) s;
               v \<leftarrow> backing (pages s p);
               Some (VOP_HOLD v s)
             }
           else Some s);
     Some (E_OK, RELEASE_LOCK s)
   }"

definition tick :: "vcache \<Rightarrow> vcache" where
  "tick s = s\<lparr>sync_sem := sync_sem s + 1\<rparr>"

text \<open>One turn of the loop of the writer thread; the result says whether it wrote a page or goes to sleep.\<close>

definition writer_turn :: "(vnode \<Rightarrow> u64 \<Rightarrow> errno) \<Rightarrow> vcache \<Rightarrow> (bool \<times> vcache) option" where
  "writer_turn vop_putpage s = do {
     s \<leftarrow> HOLD_LOCK s;
     (case dirtylistend s of
        None \<Rightarrow> Some (False, RELEASE_LOCK s)
      | Some p \<Rightarrow>
          let s = s\<lparr>dirtylistend := lprev s p\<rparr>;
              s = (case dirtylistend s of Some q \<Rightarrow> set_lnext q None s | None \<Rightarrow> s\<lparr>dirtylist := None\<rparr>);
              s = set_lprev p None s
          in do {
            (_, s) \<leftarrow> syncpage vop_putpage p s;
            Some (True, s)
          })
   }"

text \<open>The state \<open>vmmcache_init\<close> leaves; the start of the writer thread is not part of it.\<close>

definition vmmcache_init :: "pmm \<Rightarrow> vcache" where
  "vmmcache_init s = pmm.extend s \<lparr>table = \<lambda>_. None, vnode_pages = \<lambda>_. None, cachedpages = 0, dirtylist = None,
     dirtylistend = None, mutex = 1, sync_sem = 0, vnode_refs = \<lambda>_. 0\<rparr>"

subsection \<open>The count of the mutex\<close>

text \<open>The operations of the physical memory manager and the list operations leave the mutex alone.\<close>

named_theorems keeps_mutex

lemma mutex_upd [simp]:
  "mutex (upd_page p f s) = mutex s" "mutex (set_lnext p v s) = mutex s" "mutex (set_lprev p v s) = mutex s"
  "mutex (set_hnext p v s) = mutex s" "mutex (set_hprev p v s) = mutex s"
  "mutex (set_vnext p v s) = mutex s" "mutex (set_vprev p v s) = mutex s"
  "mutex (set_list b c v s) = mutex s" "mutex (set_tail b c v s) = mutex s"
  "mutex (VOP_HOLD n s) = mutex s" "mutex (VOP_RELEASE n s) = mutex s"
  by (simp_all add: upd_page_def set_lnext_def set_lprev_def set_hnext_def set_hprev_def set_vnext_def set_vprev_def
      set_list_def set_tail_def VOP_HOLD_def VOP_RELEASE_def)

lemma mutex_RELEASE [simp]: "mutex (RELEASE_LOCK s) = mutex s + 1"
  by (simp add: RELEASE_LOCK_def)

lemma mutex_HOLD [keeps_mutex]: "HOLD_LOCK s = Some s' \<Longrightarrow> mutex s' = mutex (s :: vcache) - 1"
  by (auto simp: HOLD_LOCK_def split: if_splits)

lemma mutex_removefromfreelist [keeps_mutex]: "removefromfreelist p s = Some s' \<Longrightarrow> mutex s' = mutex (s :: vcache)"
  by (auto simp: removefromfreelist_def Let_def split: if_splits option.splits)

lemma mutex_insertinfreelist [keeps_mutex]: "insertinfreelist p s = Some s' \<Longrightarrow> mutex s' = mutex (s :: vcache)"
  by (auto simp: insertinfreelist_def Let_def split: if_splits option.splits)

lemma mutex_internalhold [keeps_mutex]: "internalhold p s = Some s' \<Longrightarrow> mutex s' = mutex (s :: vcache)"
  by (auto simp: internalhold_def Let_def keeps_mutex split: if_splits dest: mutex_removefromfreelist)

lemma mutex_hold [keeps_mutex]: "pmm_hold a s = Some s' \<Longrightarrow> mutex s' = mutex (s :: vcache)"
  by (simp add: pmm_hold_def mutex_internalhold)

lemma mutex_release [keeps_mutex]: "pmm_release a s = Some s' \<Longrightarrow> mutex s' = mutex (s :: vcache)"
  by (auto simp: pmm_release_def release_drop_def release_insert_def Let_def split: if_splits option.splits prod.splits
      dest!: mutex_insertinfreelist)

lemma mutex_doalloc [keeps_mutex]: "doalloc p s = Some s' \<Longrightarrow> mutex s' = mutex (s :: vcache)"
  by (auto simp: doalloc_def split: if_splits)

lemma mutex_put [simp]:
  "mutex (put_hash e p s) = mutex s" "mutex (put_vnode v p s) = mutex s"
  "mutex (remove_hash e p s) = mutex s" "mutex (remove_vnode v p s) = mutex s"
  by (auto simp: put_hash_def put_vnode_def remove_hash_def remove_vnode_def Let_def split: option.splits)

lemma mutex_putpage [keeps_mutex]: "putpage p s = Some s' \<Longrightarrow> mutex s' = mutex s"
  by (auto simp: putpage_def Let_def split: option.splits)

lemma mutex_removepage [keeps_mutex]: "removepage p s = Some s' \<Longrightarrow> mutex s' = mutex s"
  by (auto simp: removepage_def Let_def split: option.splits)

lemma mutex_takepage [keeps_mutex]: "vmmcache_takepage p s = Some (e, s') \<Longrightarrow> mutex s' = mutex s"
  by (auto simp: vmmcache_takepage_def Let_def bind_eq_Some_conv split: if_splits dest!: mutex_HOLD mutex_removepage)

lemma mutex_allocpage [keeps_mutex]:
  assumes "pmm_allocpage vmmcache_takepage c s = Some (r, s')"
  shows "mutex s' = mutex s"
proof -
  let ?P = "\<lambda>takepage c s rs. takepage = vmmcache_takepage \<longrightarrow> mutex (snd rs) = mutex (s :: vcache)"
  have "?P vmmcache_takepage c s (r, s')"
  proof (rule pmm_allocpage.raw_induct [where P = ?P, OF _ assms], goal_cases)
    case (1 f takepage c s rs)
    from 1(2) show ?case
      by (auto split: option.splits if_splits prod.splits
          dest!: mutex_removefromfreelist mutex_doalloc mutex_internalhold mutex_takepage mutex_release 1(1))
  qed
  then show ?thesis by simp
qed

lemma mutex_page_present [keeps_mutex]: "page_present p n s = Some (r, s') \<Longrightarrow> mutex s' = mutex s + 1"
  by (auto simp: page_present_def Let_def bind_eq_Some_conv split: if_splits option.splits dest!: mutex_hold mutex_release)

lemma mutex_page_load [keeps_mutex]: "page_load vop v off p s = Some (e, s') \<Longrightarrow> mutex s' = mutex s + 1"
  by (auto simp: page_load_def Let_def bind_eq_Some_conv split: if_splits dest!: mutex_putpage mutex_HOLD mutex_removepage mutex_release)


subsection \<open>Syncing a vnode\<close>

lemma aligned_not_wanted:
  assumes "pg_offset x mod PAGE_SIZE = 0"
  shows "\<not> wants_sync offset ptop x"
proof -
  have "pg_offset x AND mask 12 = 0" using assms by (simp add: PAGE_SIZE_def take_bit_eq_mod flip: take_bit_eq_mask)
  then have "(pg_offset x AND mask 12) AND 8 = 0" by simp
  then have "pg_offset x AND 8 = 0" by (simp add: and.assoc mask_eq_exp_minus_1)
  then show ?thesis by (simp add: wants_sync_def PAGE_FLAGS_DIRTY_bit_def)
qed

lemma collect_none:
  assumes "dseg (vnext s) (vprev s) a x ps b None" and "\<And>p. p \<in> set ps \<Longrightarrow> pg_offset (pages s p) mod PAGE_SIZE = 0"
  shows "collect_dirty offset ptop x r s = Some (r, s)"
  using assms
proof (induction ps arbitrary: a x)
  case Nil
  then show ?case by (simp add: collect_dirty.simps)
next
  case (Cons p ps)
  then have "x = Some p" "dseg (vnext s) (vprev s) (Some p) (vnext s p) ps b None" by auto
  with Cons.IH [OF this(2)] Cons.prems(2) aligned_not_wanted show ?case by (subst collect_dirty.simps) simp
qed

text \<open>
  C35: \<open>vmmcache_syncvnode\<close> never writes a page. The pages of a vnode have page-aligned offsets, and for these its test,
  which looks for the dirty flag in the offset instead of in the flags, fails: the call returns success and leaves
  the whole state, every dirty page included, as it was.
\<close>

theorem syncvnode_writes_nothing:
  assumes "mutex s > 0" and "dchain (vnext s) (vprev s) (vnode_pages s v) ps"
    and "\<forall>p\<in>set ps. pg_offset (pages s p) mod PAGE_SIZE = 0" and "ROUND_DOWN offset PAGE_SIZE < ROUND_DOWN offset PAGE_SIZE + sz"
  shows "vmmcache_syncvnode vop_putpage v offset sz s = Some (E_OK, s)"
proof -
  let ?s = "s\<lparr>mutex := mutex s - 1\<rparr>"
  obtain a b where "dseg (vnext s) (vprev s) a (vnode_pages s v) ps b None" using assms(2) by (auto simp: dchain_def dllist_def)
  moreover have "vnext ?s = vnext s" "vprev ?s = vprev s" by (simp_all add: vnext_def vprev_def fun_eq_iff)
  ultimately have "collect_dirty o' t (vnode_pages s v) None ?s = Some (None, ?s)" for o' t
    using assms(3) by (intro collect_none) auto
  then show ?thesis
    using assms(1,4) by (simp add: vmmcache_syncvnode_def HOLD_LOCK_def RELEASE_LOCK_def Let_def sync_collected.simps not_le)
qed

subsection \<open>The cache as a map\<close>

interpretation hashlist: dll_heap hnext hprev set_hnext set_hprev
  by unfold_locales (auto simp: hnext_def hprev_def set_hnext_def set_hprev_def upd_page_def fun_eq_iff)

interpretation vnodelist: dll_heap vnext vprev set_vnext set_vprev
  by unfold_locales (auto simp: vnext_def vprev_def set_vnext_def set_vprev_def upd_page_def fun_eq_iff)

text \<open>What identifies a page in the cache, and the parts of the state the cache does not use.\<close>

definition key :: "vcache \<Rightarrow> pageid \<Rightarrow> vnode option \<times> u64" where
  "key s p = (backing (pages s p), pg_offset (pages s p))"

definition uncached :: "page \<Rightarrow> page" where
  "uncached x = x\<lparr>hashnext := None, hashprev := None, vnodenext := None, vnodeprev := None\<rparr>"

lemma key_links [simp]:
  "key (set_hnext p v s) = key s" "key (set_hprev p v s) = key s" "key (set_vnext p v s) = key s" "key (set_vprev p v s) = key s"
  by (auto simp: key_def set_hnext_def set_hprev_def set_vnext_def set_vprev_def upd_page_def fun_eq_iff)

lemma other_links [simp]:
  "vnext (set_hnext p v s) = vnext s" "vnext (set_hprev p v s) = vnext s" "vprev (set_hnext p v s) = vprev s" "vprev (set_hprev p v s) = vprev s"
  "hnext (set_vnext p v s) = hnext s" "hnext (set_vprev p v s) = hnext s" "hprev (set_vnext p v s) = hprev s" "hprev (set_vprev p v s) = hprev s"
  "table (set_hnext p v s) = table s" "table (set_hprev p v s) = table s" "table (set_vnext p v s) = table s" "table (set_vprev p v s) = table s"
  "vnode_pages (set_hnext p v s) = vnode_pages s" "vnode_pages (set_hprev p v s) = vnode_pages s"
  "vnode_pages (set_vnext p v s) = vnode_pages s" "vnode_pages (set_vprev p v s) = vnode_pages s"
  by (auto simp: vnext_def vprev_def hnext_def hprev_def set_hnext_def set_hprev_def set_vnext_def set_vprev_def upd_page_def fun_eq_iff)

lemma cache_fields [simp]:
  "hnext (s\<lparr>table := t\<rparr>) = hnext s" "hprev (s\<lparr>table := t\<rparr>) = hprev s" "vnext (s\<lparr>table := t\<rparr>) = vnext s" "vprev (s\<lparr>table := t\<rparr>) = vprev s"
  "hnext (s\<lparr>vnode_pages := t\<rparr>) = hnext s" "hprev (s\<lparr>vnode_pages := t\<rparr>) = hprev s"
  "vnext (s\<lparr>vnode_pages := t\<rparr>) = vnext s" "vprev (s\<lparr>vnode_pages := t\<rparr>) = vprev s"
  "hnext (s\<lparr>cachedpages := n\<rparr>) = hnext s" "hprev (s\<lparr>cachedpages := n\<rparr>) = hprev s"
  "vnext (s\<lparr>cachedpages := n\<rparr>) = vnext s" "vprev (s\<lparr>cachedpages := n\<rparr>) = vprev s"
  "hnext (s\<lparr>mutex := k\<rparr>) = hnext s" "hprev (s\<lparr>mutex := k\<rparr>) = hprev s" "vnext (s\<lparr>mutex := k\<rparr>) = vnext s" "vprev (s\<lparr>mutex := k\<rparr>) = vprev s"
  "key (s\<lparr>table := t\<rparr>) = key s" "key (s\<lparr>vnode_pages := t\<rparr>) = key s" "key (s\<lparr>cachedpages := n\<rparr>) = key s" "key (s\<lparr>mutex := k\<rparr>) = key s"
  by (simp_all add: hnext_def hprev_def vnext_def vprev_def key_def fun_eq_iff)

text \<open>\<open>H e\<close> is the list of entry \<open>e\<close> of the table, \<open>V v\<close> the list of the vnode \<open>v\<close>.\<close>

definition cache_ok :: "vcache \<Rightarrow> (nat \<Rightarrow> pageid list) \<Rightarrow> (vnode \<Rightarrow> pageid list) \<Rightarrow> bool" where
  "cache_ok s H V \<longleftrightarrow>
     (\<forall>e. dchain (hnext s) (hprev s) (table s e) (H e)) \<and> (\<forall>v. dchain (vnext s) (vprev s) (vnode_pages s v) (V v))
     \<and> (\<forall>e p. p \<in> set (H e) \<longrightarrow> (\<exists>v off. key s p = (Some v, off) \<and> e = getentry v off \<and> p \<in> set (V v)))
     \<and> (\<forall>v p. p \<in> set (V v) \<longrightarrow> (\<exists>off. key s p = (Some v, off) \<and> p \<in> set (H (getentry v off))))
     \<and> (\<forall>e p q. p \<in> set (H e) \<and> q \<in> set (H e) \<and> key s p = key s q \<longrightarrow> p = q)"

text \<open>The page of a vnode at an offset.\<close>

definition cached :: "vcache \<Rightarrow> vnode \<Rightarrow> u64 \<Rightarrow> pageid option" where
  "cached s v off = (case findpage v off s of None \<Rightarrow> None | Some r \<Rightarrow> r)"

lemma findpage_find:
  assumes "cache_ok s H V"
  shows "findpage v off s = Some (find (\<lambda>p. key s p = (Some v, off)) (H (getentry v off)))"
  using assms walk_dchain [of "hnext s" "hprev s" "table s (getentry v off)" "H (getentry v off)"]
  by (simp add: cache_ok_def findpage_def key_def)

lemma cache_okD:
  assumes "cache_ok s H V"
  shows "dchain (hnext s) (hprev s) (table s e) (H e)" and "dchain (vnext s) (vprev s) (vnode_pages s v) (V v)"
    and "p \<in> set (H e) \<Longrightarrow> \<exists>v off. key s p = (Some v, off) \<and> e = getentry v off \<and> p \<in> set (V v)"
    and "p \<in> set (V v) \<Longrightarrow> \<exists>off. key s p = (Some v, off) \<and> p \<in> set (H (getentry v off))"
    and "p \<in> set (H e) \<Longrightarrow> q \<in> set (H e) \<Longrightarrow> key s p = key s q \<Longrightarrow> p = q"
    and "p \<in> set (H e) \<Longrightarrow> p \<in> set (H e') \<Longrightarrow> e = e'" and "p \<in> set (V v) \<Longrightarrow> p \<in> set (V v') \<Longrightarrow> v = v'"
proof -
  note A = assms [unfolded cache_ok_def]
  note B = A [THEN conjunct2, THEN conjunct2]
  show "dchain (hnext s) (hprev s) (table s e) (H e)" by (rule A [THEN conjunct1, rule_format])
  show "dchain (vnext s) (vprev s) (vnode_pages s v) (V v)" by (rule A [THEN conjunct2, THEN conjunct1, rule_format])
  show H: "\<exists>v off. key s p = (Some v, off) \<and> e = getentry v off \<and> p \<in> set (V v)" if "p \<in> set (H e)" for p e
    by (rule B [THEN conjunct1, rule_format, OF that])
  show V: "\<exists>off. key s p = (Some v, off) \<and> p \<in> set (H (getentry v off))" if "p \<in> set (V v)" for p v
    by (rule B [THEN conjunct2, THEN conjunct1, rule_format, OF that])
  show "p = q" if "p \<in> set (H e)" "q \<in> set (H e)" "key s p = key s q"
    by (rule B [THEN conjunct2, THEN conjunct2, rule_format]) (use that in simp)
  show "e = e'" if "p \<in> set (H e)" "p \<in> set (H e')" using H [OF that(1)] H [OF that(2)] by auto
  show "v = v'" if "p \<in> set (V v)" "p \<in> set (V v')" using V [OF that(1)] V [OF that(2)] by auto
qed

lemma cache_okI:
  assumes "\<And>e. dchain (hnext s) (hprev s) (table s e) (H e)" and "\<And>v. dchain (vnext s) (vprev s) (vnode_pages s v) (V v)"
    and "\<And>p e. p \<in> set (H e) \<Longrightarrow> \<exists>v off. key s p = (Some v, off) \<and> e = getentry v off \<and> p \<in> set (V v)"
    and "\<And>p v. p \<in> set (V v) \<Longrightarrow> \<exists>off. key s p = (Some v, off) \<and> p \<in> set (H (getentry v off))"
    and "\<And>p q e. p \<in> set (H e) \<Longrightarrow> q \<in> set (H e) \<Longrightarrow> key s p = key s q \<Longrightarrow> p = q"
  shows "cache_ok s H V"
  unfolding cache_ok_def by (intro conjI allI impI assms) (auto dest: assms(5))

lemma findpage_iff:
  assumes "cache_ok s H V"
  shows "cached s v off = Some p \<longleftrightarrow> p \<in> set (H (getentry v off)) \<and> key s p = (Some v, off)"
proof
  assume "cached s v off = Some p"
  then show "p \<in> set (H (getentry v off)) \<and> key s p = (Some v, off)"
    unfolding cached_def findpage_find [OF assms] option.case by (auto simp: find_Some_iff)
next
  assume p: "p \<in> set (H (getentry v off)) \<and> key s p = (Some v, off)"
  have "find (\<lambda>p. key s p = (Some v, off)) (H (getentry v off)) = Some p"
    using p cache_okD(5) [OF assms, of p "getentry v off"] by (intro find_unique) auto
  then show "cached s v off = Some p" unfolding cached_def findpage_find [OF assms] by simp
qed

lemma putpage_fields:
  assumes "putpage p s = Some s'" and k: "key s p = (Some v, off)"
  shows "hnext s' q = (if q = p then table s (getentry v off) else hnext s q)"
    and "hprev s' q = (if q = p then (if table s (getentry v off) = Some p then Some p else None)
           else if table s (getentry v off) = Some q then Some p else hprev s q)"
    and "table s' = (table s)(getentry v off := Some p)"
    and "vnext s' q = (if q = p then vnode_pages s v else vnext s q)"
    and "vprev s' q = (if q = p then (if vnode_pages s v = Some p then Some p else None)
           else if vnode_pages s v = Some q then Some p else vprev s q)"
    and "vnode_pages s' = (vnode_pages s)(v := Some p)" and "key s' = key s" and "mutex s' = mutex s"
proof -
  have b: "backing (pages s p) = Some v" "pg_offset (pages s p) = off" using k by (simp_all add: key_def)
  note D = assms(1) [unfolded putpage_def b option.case Let_def, simplified, symmetric]
  show "hnext s' q = (if q = p then table s (getentry v off) else hnext s q)"
    by (simp add: D put_vnode_def put_hash_def Let_def hashlist.links split: option.split)
  show "hprev s' q = (if q = p then (if table s (getentry v off) = Some p then Some p else None)
           else if table s (getentry v off) = Some q then Some p else hprev s q)"
    by (simp add: D put_vnode_def put_hash_def Let_def hashlist.links split: option.split)
  show "table s' = (table s)(getentry v off := Some p)"
    by (simp add: D put_vnode_def put_hash_def Let_def split: option.split)
  show "vnext s' q = (if q = p then vnode_pages s v else vnext s q)"
    by (simp add: D put_vnode_def put_hash_def Let_def vnodelist.links split: option.split)
  show "vprev s' q = (if q = p then (if vnode_pages s v = Some p then Some p else None)
           else if vnode_pages s v = Some q then Some p else vprev s q)"
    by (simp add: D put_vnode_def put_hash_def Let_def vnodelist.links split: option.split)
  show "vnode_pages s' = (vnode_pages s)(v := Some p)"
    by (simp add: D put_vnode_def put_hash_def Let_def split: option.split)
  show "key s' = key s" by (simp add: D put_vnode_def put_hash_def Let_def split: option.split)
  show "mutex s' = mutex s" using mutex_putpage [OF assms(1)] .
qed

lemma uncached_links [simp]:
  "uncached (pages (set_hnext p v s) q) = uncached (pages s q)" "uncached (pages (set_hprev p v s) q) = uncached (pages s q)"
  "uncached (pages (set_vnext p v s) q) = uncached (pages s q)" "uncached (pages (set_vprev p v s) q) = uncached (pages s q)"
  by (simp_all add: uncached_def set_hnext_def set_hprev_def set_vnext_def set_vprev_def upd_page_def)

lemma putpage_uncached: "putpage p s = Some s' \<Longrightarrow> uncached (pages s' q) = uncached (pages s q)"
  by (auto simp: putpage_def put_vnode_def put_hash_def Let_def split: option.splits)

lemma removepage_uncached: "removepage p s = Some s' \<Longrightarrow> uncached (pages s' q) = uncached (pages s q)"
  by (auto simp: removepage_def remove_vnode_def remove_hash_def Let_def split: option.splits)

lemma cached_eqI:
  assumes "cache_ok s H V" and "cache_ok s' H' V'"
    and "\<And>q v off. q \<in> set (H' (getentry v off)) \<and> key s' q = (Some v, off) \<longleftrightarrow> f v off = Some q"
  shows "cached s' v off = f v off"
  using findpage_iff [OF assms(2), of v off] assms(3) [of _ v off] by (metis option.exhaust)

lemma putpage_ok:
  assumes ok: "cache_ok s H V" and k: "key s p = (Some v, off)" and p: "\<And>e. p \<notin> set (H e)" "\<And>v. p \<notin> set (V v)"
    and new: "cached s v off = None" and H': "H' = H(getentry v off := p # H (getentry v off))" and V': "V' = V(v := p # V v)"
  obtains s' where "putpage p s = Some s'" and "cache_ok s' H' V'"
    and "\<And>v' off'. cached s' v' off' = (if v' = v \<and> off' = off then Some p else cached s v' off')"
proof -
  obtain s' where s': "putpage p s = Some s'" using k by (auto simp: putpage_def key_def Let_def)
  note F = putpage_fields [OF s' k] and D = cache_okD [OF ok]
  let ?e = "getentry v off"
  have "table s ?e \<noteq> Some p" using dchain_head [OF D(1) [of ?e]] p(1) [of ?e] by (auto split: if_splits)
  then have pv: "hprev s' q = (if q = p then None else if table s ?e = Some q then Some p else hprev s q)" for q using F(2) by simp
  have "vnode_pages s v \<noteq> Some p" using dchain_head [OF D(2) [of v]] p(2) [of v] by (auto split: if_splits)
  then have pv': "vprev s' q = (if q = p then None else if vnode_pages s v = Some q then Some p else vprev s q)" for q using F(5) by simp
  have l: "dchain (hnext s') (hprev s') (table s' e) (H' e)" for e
    unfolding F(3) H' by (rule dchains_push [where L = H and head = "table s", OF D(1) D(6) p(1) F(1) pv])
  have l': "dchain (vnext s') (vprev s') (vnode_pages s' u) (V' u)" for u
    unfolding F(6) V' by (rule dchains_push [where L = V and head = "vnode_pages s", OF D(2) D(7) p(2) F(4) pv'])
  have iH: "q \<in> set (H' e) \<longleftrightarrow> (q = p \<and> e = ?e) \<or> q \<in> set (H e)" for q e by (auto simp: H')
  have iV: "q \<in> set (V' u) \<longleftrightarrow> (q = p \<and> u = v) \<or> q \<in> set (V u)" for q u by (auto simp: V')
  have ok': "cache_ok s' H' V'"
  proof (rule cache_okI [OF l l'], unfold F(7) iH iV)
    show "\<exists>u off'. key s q = (Some u, off') \<and> e = getentry u off' \<and> (q = p \<and> u = v \<or> q \<in> set (V u))"
      if "q = p \<and> e = ?e \<or> q \<in> set (H e)" for q e
      using that k D(3) [of q e] by auto
    show "\<exists>off'. key s q = (Some u, off') \<and> (q = p \<and> getentry u off' = ?e \<or> q \<in> set (H (getentry u off')))"
      if "q = p \<and> u = v \<or> q \<in> set (V u)" for q u
      using that k D(4) [of q u] by auto
    have "q \<notin> set (H ?e) \<or> key s q \<noteq> key s p" for q using findpage_iff [OF ok, of v off q] new k by simp
    then show "q = r" if "q = p \<and> e = ?e \<or> q \<in> set (H e)" "r = p \<and> e = ?e \<or> r \<in> set (H e)" "key s q = key s r" for q r e
      using that D(5) [of q e r] by metis
  qed
  have "cached s' v' off' = (if v' = v \<and> off' = off then Some p else cached s v' off')" for v' off'
  proof (rule cached_eqI [OF ok ok'], unfold F(7) iH)
    show "((q = p \<and> getentry u o' = ?e) \<or> q \<in> set (H (getentry u o'))) \<and> key s q = (Some u, o')
        \<longleftrightarrow> (if u = v \<and> o' = off then Some p else cached s u o') = Some q" for q u o'
      using findpage_iff [OF ok, of u o' q] findpage_iff [OF ok, of v off q] k p(1) new by auto
  qed
  with s' ok' show ?thesis by (rule that)
qed

lemma removepage_fields:
  assumes "removepage p s = Some s'" and k: "key s p = (Some v, off)"
    and self: "hnext s p \<noteq> Some p" "hprev s p \<noteq> Some p" "vnext s p \<noteq> Some p" "vprev s p \<noteq> Some p"
  shows "q \<noteq> p \<Longrightarrow> hnext s' q = (if hprev s p = Some q then hnext s p else hnext s q)"
    and "q \<noteq> p \<Longrightarrow> hprev s' q = (if hnext s p = Some q then hprev s p else hprev s q)"
    and "table s' = (if hprev s p = None then (table s)(getentry v off := hnext s p) else table s)"
    and "q \<noteq> p \<Longrightarrow> vnext s' q = (if vprev s p = Some q then vnext s p else vnext s q)"
    and "q \<noteq> p \<Longrightarrow> vprev s' q = (if vnext s p = Some q then vprev s p else vprev s q)"
    and "vnode_pages s' = (if vprev s p = None then (vnode_pages s)(v := vnext s p) else vnode_pages s)"
    and "key s' = key s"
proof -
  have b: "backing (pages s p) = Some v" "pg_offset (pages s p) = off" using k by (simp_all add: key_def)
  note D = assms(1) [unfolded removepage_def b option.case Let_def, simplified, symmetric] remove_vnode_def remove_hash_def Let_def
  show "hnext s' q = (if hprev s p = Some q then hnext s p else hnext s q)" if "q \<noteq> p"
    using that self by (auto simp: D hashlist.links split: option.split)
  show "hprev s' q = (if hnext s p = Some q then hprev s p else hprev s q)" if "q \<noteq> p"
    using that self by (auto simp: D hashlist.links split: option.split)
  show "table s' = (if hprev s p = None then (table s)(getentry v off := hnext s p) else table s)"
    using self by (auto simp: D hashlist.links split: option.split)
  show "vnext s' q = (if vprev s p = Some q then vnext s p else vnext s q)" if "q \<noteq> p"
    using that self by (auto simp: D vnodelist.links split: option.split)
  show "vprev s' q = (if vnext s p = Some q then vprev s p else vprev s q)" if "q \<noteq> p"
    using that self by (auto simp: D vnodelist.links split: option.split)
  show "vnode_pages s' = (if vprev s p = None then (vnode_pages s)(v := vnext s p) else vnode_pages s)"
    using self by (auto simp: D vnodelist.links split: option.split)
  show "key s' = key s" by (simp add: D split: option.split)
qed

lemma not_self_linked:
  assumes "dchain nx pv h xs" and "p \<in> set xs"
  shows "nx p \<noteq> Some p" and "pv p \<noteq> Some p"
proof -
  obtain ps qs where "xs = ps @ p # qs" using assms(2) by (meson split_list)
  with assms(1) dchain_distinct [OF assms(1)] show "nx p \<noteq> Some p" "pv p \<noteq> Some p"
    using dchain_neighbours [of nx pv h ps p qs p] by auto
qed

lemma removepage_ok:
  assumes ok: "cache_ok s H V" and k: "cached s v off = Some p"
    and H': "H' = H(getentry v off := remove1 p (H (getentry v off)))" and V': "V' = V(v := remove1 p (V v))"
  obtains s' where "removepage p s = Some s'" and "cache_ok s' H' V'"
    and "\<And>v' off'. cached s' v' off' = (if v' = v \<and> off' = off then None else cached s v' off')"
proof -
  note D = cache_okD [OF ok]
  let ?e = "getentry v off"
  have p: "p \<in> set (H ?e)" "key s p = (Some v, off)" using k findpage_iff [OF ok] by blast+
  have pV: "p \<in> set (V v)" using D(3) [OF p(1)] p(2) by auto
  obtain s' where s': "removepage p s = Some s'" using p(2) by (auto simp: removepage_def key_def Let_def)
  note F = removepage_fields [OF s' p(2) not_self_linked [OF D(1) p(1)] not_self_linked [OF D(2) pV]]
  have l: "dchain (hnext s') (hprev s') (table s' e) (H' e)" for e
    unfolding F(3) H' by (rule dchains_remove [where L = H and head = "table s", OF D(1) D(6) p(1) F(1,2)])
  have l': "dchain (vnext s') (vprev s') (vnode_pages s' u) (V' u)" for u
    unfolding F(6) V' by (rule dchains_remove [where L = V and head = "vnode_pages s", OF D(2) D(7) pV F(4,5)])
  have "distinct (H ?e)" "distinct (V v)" using dchain_distinct D(1,2) by blast+
  then have iH: "q \<in> set (H' e) \<longleftrightarrow> q \<noteq> p \<and> q \<in> set (H e)" and iV: "q \<in> set (V' u) \<longleftrightarrow> q \<noteq> p \<and> q \<in> set (V u)" for q e u
    using D(6) [OF p(1), of e] D(7) [OF pV, of u] by (auto simp: H' V')
  have ok': "cache_ok s' H' V'"
  proof (rule cache_okI [OF l l'], unfold F(7) iH iV)
    show "\<exists>u off'. key s q = (Some u, off') \<and> e = getentry u off' \<and> (q \<noteq> p \<and> q \<in> set (V u))" if "q \<noteq> p \<and> q \<in> set (H e)" for q e
      using that D(3) [of q e] by auto
    show "\<exists>off'. key s q = (Some u, off') \<and> (q \<noteq> p \<and> q \<in> set (H (getentry u off')))" if "q \<noteq> p \<and> q \<in> set (V u)" for q u
      using that D(4) [of q u] by auto
    show "q = r" if "q \<noteq> p \<and> q \<in> set (H e)" "r \<noteq> p \<and> r \<in> set (H e)" "key s q = key s r" for q r e
      using that D(5) [of q e r] by blast
  qed
  have "cached s' v' off' = (if v' = v \<and> off' = off then None else cached s v' off')" for v' off'
  proof (rule cached_eqI [OF ok ok'], unfold F(7) iH)
    show "(q \<noteq> p \<and> q \<in> set (H (getentry u o'))) \<and> key s q = (Some u, o')
        \<longleftrightarrow> (if u = v \<and> o' = off then None else cached s u o') = Some q" for q u o'
      using findpage_iff [OF ok, of u o' q] k p(2) by auto
  qed
  with s' ok' show ?thesis by (rule that)
qed

lemma cache_ok_upd:
  assumes ok: "cache_ok s H V" and p: "\<And>e. p \<notin> set (H e)" "\<And>v. p \<notin> set (V v)"
  shows "cache_ok (upd_page p f s) H V" and "cached (upd_page p f s) v off = cached s v off"
proof -
  let ?s = "upd_page p f s"
  note D = cache_okD [OF ok]
  have q: "hnext ?s q = hnext s q \<and> hprev ?s q = hprev s q" "vnext ?s q = vnext s q \<and> vprev ?s q = vprev s q" "key ?s q = key s q"
    if "q \<noteq> p" for q using that by (simp_all add: hnext_def hprev_def vnext_def vprev_def key_def)
  have t: "table ?s = table s" "vnode_pages ?s = vnode_pages s" by (simp_all add: upd_page_def)
  have inH: "q \<in> set (H e) \<Longrightarrow> q \<noteq> p" and inV: "q \<in> set (V v) \<Longrightarrow> q \<noteq> p" for q e v using p by auto
  show ok': "cache_ok ?s H V"
  proof (rule cache_okI)
    show "dchain (hnext ?s) (hprev ?s) (table ?s e) (H e)" for e
      using D(1) [of e] dchain_frame [of "H e" "hnext ?s" "hnext s" "hprev ?s" "hprev s"] q(1) inH by (simp add: t)
    show "dchain (vnext ?s) (vprev ?s) (vnode_pages ?s v) (V v)" for v
      using D(2) [of v] dchain_frame [of "V v" "vnext ?s" "vnext s" "vprev ?s" "vprev s"] q(2) inV by (simp add: t)
    show "\<exists>v off. key ?s r = (Some v, off) \<and> e = getentry v off \<and> r \<in> set (V v)" if "r \<in> set (H e)" for r e
      using D(3) [OF that] q(3) [OF inH [OF that]] by simp
    show "\<exists>off. key ?s r = (Some v, off) \<and> r \<in> set (H (getentry v off))" if "r \<in> set (V v)" for r v
      using D(4) [OF that] q(3) [OF inV [OF that]] by simp
    show "r = r'" if "r \<in> set (H e)" "r' \<in> set (H e)" "key ?s r = key ?s r'" for r r' e
      using D(5) [OF that(1,2)] that q(3) inH by metis
  qed
  show "cached ?s v off = cached s v off"
  proof (rule cached_eqI [OF ok ok'])
    show "r \<in> set (H (getentry v off)) \<and> key ?s r = (Some v, off) \<longleftrightarrow> cached s v off = Some r" for r v off
      using findpage_iff [OF ok, of v off r] q(3) [of r] inH [of r "getentry v off"] by auto
  qed
qed

lemma lock_cache [simp]:
  "cache_ok (s\<lparr>mutex := k\<rparr>) H V = cache_ok s H V" "cached (s\<lparr>mutex := k\<rparr>) v off = cached s v off"
  "cache_ok (RELEASE_LOCK s) H V = cache_ok s H V" "cached (RELEASE_LOCK s) v off = cached s v off"
  by (simp_all add: cache_ok_def cached_def findpage_def RELEASE_LOCK_def)

lemma findpage_cached: "cache_ok s H V \<Longrightarrow> findpage v off s = Some (cached s v off)"
  by (simp add: cached_def findpage_find)

lemma pushpage_ok:
  assumes ok: "cache_ok s H V" and mx: "mutex s > 0" and p: "\<And>e. p \<notin> set (H e)" "\<And>v. p \<notin> set (V v)"
    and off: "off mod PAGE_SIZE = 0" and new: "cached s v off = None"
  obtains s' where "vmmcache_pushpage v off p s = Some (E_OK, s')"
    and "cache_ok s' (H(getentry v off := p # H (getentry v off))) (V(v := p # V v))"
    and "\<And>v' off'. cached s' v' off' = (if v' = v \<and> off' = off then Some p else cached s v' off')"
    and "refcount (pages s' p) = refcount (pages s p)" and "pg_flags (pages s' p) = insert PAGE_FLAGS_READY (pg_flags (pages s p))"
    and "mutex s' = mutex s"
proof -
  let ?s = "s\<lparr>mutex := mutex s - 1\<rparr>"
  let ?u = "upd_page p (\<lambda>x. x\<lparr>backing := Some v, pg_offset := off, pg_flags := insert PAGE_FLAGS_READY (pg_flags x)\<rparr>) ?s"
  have ok1: "cache_ok ?s H V" using ok by simp
  note U = cache_ok_upd [OF ok1 p]
  have k: "key ?u p = (Some v, off)" by (simp add: key_def)
  have n: "cached ?u v off = None" using new by (simp add: U)
  obtain s1 where s1: "putpage p ?u = Some s1" "cache_ok s1 (H(getentry v off := p # H (getentry v off))) (V(v := p # V v))"
      "\<And>v' off'. cached s1 v' off' = (if v' = v \<and> off' = off then Some p else cached ?u v' off')"
    by (rule putpage_ok [OF U(1) k p n refl refl]) (rule that)
  have un: "uncached (pages s1 p) = uncached (pages ?u p)" by (rule putpage_uncached [OF s1(1)])
  have fl: "refcount (pages s1 p) = refcount (pages s p)" "pg_flags (pages s1 p) = insert PAGE_FLAGS_READY (pg_flags (pages s p))"
    using arg_cong [OF un, of refcount] arg_cong [OF un, of pg_flags] by (simp_all add: uncached_def)
  have push: "vmmcache_pushpage v off p s = Some (E_OK, RELEASE_LOCK s1)"
    using mx off new s1(1) findpage_cached [OF ok1, of v off] by (simp add: vmmcache_pushpage_def HOLD_LOCK_def)
  show ?thesis
    by (rule that [OF push]) (use s1(2,3) fl mutex_putpage [OF s1(1)] in \<open>simp_all add: U\<close>, simp_all add: RELEASE_LOCK_def)
qed

lemma evict_ok:
  assumes ok: "cache_ok s H V" and mx: "mutex s > 0" and c: "cached s v off = Some p" and r: "refcount (pages s p) = 1"
    and fl: "PAGE_FLAGS_DIRTY \<notin> pg_flags (pages s p)" "PAGE_FLAGS_TRUNCATED \<notin> pg_flags (pages s p)"
  obtains s' H' V' where "vmmcache_evict p s = Some (E_OK, s')" and "cache_ok s' H' V'"
    and "\<And>v' off'. cached s' v' off' = (if v' = v \<and> off' = off then None else cached s v' off')"
    and "backing (pages s' p) = None" and "pg_flags (pages s' p) = {}"
proof -
  let ?s = "s\<lparr>mutex := mutex s - 1\<rparr>"
  let ?H = "H(getentry v off := remove1 p (H (getentry v off)))" and ?V = "V(v := remove1 p (V v))"
  have ok1: "cache_ok ?s H V" and c1: "cached ?s v off = Some p" using ok c by simp_all
  obtain s1 where s1: "removepage p ?s = Some s1" "cache_ok s1 ?H ?V"
      "\<And>v' off'. cached s1 v' off' = (if v' = v \<and> off' = off then None else cached ?s v' off')"
    by (rule removepage_ok [OF ok1 c1 refl refl]) (rule that)
  let ?f = "\<lambda>x. x\<lparr>pg_flags := {}, backing := None, pg_offset := 0\<rparr>"
  note D = cache_okD [OF ok]
  have p: "p \<in> set (H (getentry v off))" "key s p = (Some v, off)" using c findpage_iff [OF ok] by blast+
  have pV: "p \<in> set (V v)" using D(3) [OF p(1)] p(2) by auto
  have "p \<notin> set (?H e)" for e using D(6) [OF p(1), of e] dchain_distinct [OF D(1)] by auto
  moreover have "p \<notin> set (?V u)" for u using D(7) [OF pV, of u] dchain_distinct [OF D(2)] by auto
  ultimately have U: "cache_ok (upd_page p ?f s1) ?H ?V" "\<And>v off. cached (upd_page p ?f s1) v off = cached s1 v off"
    using cache_ok_upd [OF s1(2)] by blast+
  have "vmmcache_evict p s = Some (E_OK, RELEASE_LOCK (upd_page p ?f s1))"
    using mx r fl s1(1) by (simp add: vmmcache_evict_def HOLD_LOCK_def)
  then show ?thesis by (rule that) (use U s1(3) in simp_all, simp_all add: RELEASE_LOCK_def)
qed

text \<open>
  C10: The page cache is a map from vnode and offset to pages. Pushing a page under a key that has none makes a lookup
  of this key find it and changes no other lookup; evicting it again, when nobody else holds it and it is
  clean, gives back the map there was before and leaves the page without a backing vnode and without flags. All list
  and table invariants hold in between and afterwards.
\<close>

theorem pushpage_evict_roundtrip:
  assumes ok: "cache_ok s H V" and mx: "mutex s > 0" and p: "\<And>e. p \<notin> set (H e)" "\<And>v. p \<notin> set (V v)"
    and off: "off mod PAGE_SIZE = 0" and new: "cached s v off = None"
    and r: "refcount (pages s p) = 1" and fl: "pg_flags (pages s p) \<inter> {PAGE_FLAGS_DIRTY, PAGE_FLAGS_TRUNCATED} = {}"
  shows "\<exists>s1 s2 H1 V1 H2 V2. vmmcache_pushpage v off p s = Some (E_OK, s1) \<and> cache_ok s1 H1 V1
    \<and> (\<forall>v' off'. findpage v' off' s1 = Some (if v' = v \<and> off' = off then Some p else cached s v' off'))
    \<and> vmmcache_evict p s1 = Some (E_OK, s2) \<and> cache_ok s2 H2 V2
    \<and> (\<forall>v' off'. findpage v' off' s2 = findpage v' off' s)
    \<and> backing (pages s2 p) = None \<and> pg_flags (pages s2 p) = {}"
proof -
  obtain s1 where s1: "vmmcache_pushpage v off p s = Some (E_OK, s1)"
      "cache_ok s1 (H(getentry v off := p # H (getentry v off))) (V(v := p # V v))"
      "\<And>v' off'. cached s1 v' off' = (if v' = v \<and> off' = off then Some p else cached s v' off')"
      "refcount (pages s1 p) = refcount (pages s p)" "pg_flags (pages s1 p) = insert PAGE_FLAGS_READY (pg_flags (pages s p))"
      "mutex s1 = mutex s"
    by (rule pushpage_ok [OF ok mx p off new]) (rule that)
  have c: "cached s1 v off = Some p" "mutex s1 > 0" "refcount (pages s1 p) = 1" "PAGE_FLAGS_DIRTY \<notin> pg_flags (pages s1 p)"
      "PAGE_FLAGS_TRUNCATED \<notin> pg_flags (pages s1 p)"
    using s1(3-6) mx r fl by auto
  obtain s2 H2 V2 where s2: "vmmcache_evict p s1 = Some (E_OK, s2)" "cache_ok s2 H2 V2"
      "\<And>v' off'. cached s2 v' off' = (if v' = v \<and> off' = off then None else cached s1 v' off')"
      "backing (pages s2 p) = None" "pg_flags (pages s2 p) = {}"
    by (rule evict_ok [OF s1(2) c(2,1,3-5)]) (rule that)
  have "cached s2 v' off' = cached s v' off'" for v' off' using s2(3) s1(3) new by simp
  then have "\<forall>v' off'. findpage v' off' s2 = findpage v' off' s" using findpage_cached [OF ok] findpage_cached [OF s2(2)] by simp
  moreover have "\<forall>v' off'. findpage v' off' s1 = Some (if v' = v \<and> off' = off then Some p else cached s v' off')"
    using findpage_cached [OF s1(2)] s1(3) by simp
  ultimately show ?thesis using s1(1,2) s2(1,2,4,5) by blast
qed

subsection \<open>Concrete states\<close>

text \<open>An empty cache; every frame has one reference, and the flags given.\<close>

definition ex_cache :: "pflag set \<Rightarrow> vcache" where
  "ex_cache fl = vmmcache_init (ex_blank\<lparr>pages := \<lambda>_. ALLOCATED\<lparr>pg_flags := fl\<rparr>\<rparr>)"

lemma ex_cache_fields:
  "pages (ex_cache fl) p = ALLOCATED\<lparr>pg_flags := fl\<rparr>" "mutex (ex_cache fl) = 1" "table (ex_cache fl) = (\<lambda>_. None)"
  "vnode_pages (ex_cache fl) = (\<lambda>_. None)"
  by (simp_all add: ex_cache_def vmmcache_init_def pmm.extend_def ex_blank_def)

lemma ex_cache_ok: "cache_ok (ex_cache fl) (\<lambda>_. []) (\<lambda>_. [])" "cached (ex_cache fl) v off = None"
  by (simp_all add: cache_ok_def cached_def findpage_def ex_cache_fields)

lemma ex_pushed:
  obtains s where "cache_ok s ((\<lambda>_. [])(getentry 7 0x3000 := [2])) ((\<lambda>_. [])(7 := [2]))" and "findpage 7 0x3000 s = Some (Some 2)"
    and "refcount (pages s 2) = 1" and "pg_flags (pages s 2) = insert PAGE_FLAGS_READY fl" and "mutex s = 1" and "pg_offset (pages s 2) = 0x3000"
proof -
  have m: "mutex (ex_cache fl) > 0" "(0x3000 :: u64) mod PAGE_SIZE = 0" by (simp_all add: ex_cache_fields PAGE_SIZE_def)
  obtain s where s: "vmmcache_pushpage 7 0x3000 2 (ex_cache fl) = Some (E_OK, s)"
      "cache_ok s ((\<lambda>_. [])(getentry 7 0x3000 := [2])) ((\<lambda>_. [])(7 := [2]))"
      "\<And>v' off'. cached s v' off' = (if v' = 7 \<and> off' = 0x3000 then Some 2 else cached (ex_cache fl) v' off')"
      "refcount (pages s 2) = refcount (pages (ex_cache fl) 2)" "pg_flags (pages s 2) = insert PAGE_FLAGS_READY (pg_flags (pages (ex_cache fl) 2))"
      "mutex s = mutex (ex_cache fl)"
    by (rule pushpage_ok [OF ex_cache_ok(1) m(1) _ _ m(2) ex_cache_ok(2), of 2 7]) auto
  have "key s 2 = (Some 7, 0x3000)" using findpage_iff [OF s(2), of 7 "0x3000" 2] s(3) by simp
  with s findpage_cached [OF s(2)] show ?thesis by (intro that [of s]) (simp_all add: ex_cache_fields ALLOCATED_def key_def)
qed

theorem pushpage_evict_roundtrip_witness:
  "\<exists>s1 s2. vmmcache_pushpage 7 0x3000 2 (ex_cache {}) = Some (E_OK, s1) \<and> findpage 7 0x3000 s1 = Some (Some 2)
     \<and> vmmcache_evict 2 s1 = Some (E_OK, s2) \<and> findpage 7 0x3000 s2 = Some None"
proof -
  have m: "mutex (ex_cache {}) > 0" "(0x3000 :: u64) mod PAGE_SIZE = 0" "refcount (pages (ex_cache {}) 2) = 1"
      "pg_flags (pages (ex_cache {}) 2) \<inter> {PAGE_FLAGS_DIRTY, PAGE_FLAGS_TRUNCATED} = {}"
    by (simp_all add: ex_cache_fields PAGE_SIZE_def ALLOCATED_def)
  have "findpage 7 0x3000 (ex_cache {}) = Some None" using findpage_cached [OF ex_cache_ok(1)] ex_cache_ok(2) by simp
  with pushpage_evict_roundtrip [OF ex_cache_ok(1) m(1) _ _ m(2) ex_cache_ok(2) m(3,4), of 7] show ?thesis by force
qed


theorem syncvnode_writes_nothing_witness:
  "\<exists>s. PAGE_FLAGS_DIRTY \<in> pg_flags (pages s 2) \<and> findpage 7 0x3000 s = Some (Some 2)
     \<and> vmmcache_syncvnode (\<lambda>_ _. E_OK) 7 0 0x10000 s = Some (E_OK, s)"
proof -
  obtain s where s: "cache_ok s ((\<lambda>_. [])(getentry 7 0x3000 := [2])) ((\<lambda>_. [])(7 := [2]))" "findpage 7 0x3000 s = Some (Some 2)"
      "pg_flags (pages s 2) = {PAGE_FLAGS_READY, PAGE_FLAGS_DIRTY}" "mutex s = 1" "pg_offset (pages s 2) = 0x3000"
    by (rule ex_pushed [of "{PAGE_FLAGS_DIRTY}"]) auto
  have "dchain (vnext s) (vprev s) (vnode_pages s 7) [2]" using cache_okD(2) [OF s(1), of 7] by simp
  moreover have "mutex s > 0" "\<forall>p\<in>set [2]. pg_offset (pages s p) mod PAGE_SIZE = 0"
      "ROUND_DOWN 0 PAGE_SIZE < ROUND_DOWN 0 PAGE_SIZE + (0x10000 :: u64)"
    using s(4,5) by (simp_all add: PAGE_SIZE_def ROUND_DOWN_def)
  ultimately show ?thesis using syncvnode_writes_nothing [of s 7 "[2]" 0 "0x10000" "\<lambda>_ _. E_OK"] s(2,3) by blast
qed

end
