(* ===== verification/Vmranges.thy ===== *)
theory Vmranges
  imports Mmu Vmmcache Slab
begin

text \<open>
  The state of the virtual memory manager and its lists of ranges: \<^verbatim>\<open>src/kernel-src/include/kernel/vmm.h\<close> and the
  first part of \<^verbatim>\<open>src/kernel-src/mm/vmm.c\<close>, from \<open>newcache\<close> to \<open>insertrange\<close>.

  A range structure is named by the cache it lies in and its index there; caches are numbered along \<open>cachelist\<close>, to
  which new ones are only ever appended. The locks of the caches and of the spaces make an operation one step. A null
  pointer that is followed and a failed assertion are \<open>None\<close>.

  The lemmas show that \<open>insertrange\<close> updates the address space exactly at the addresses of the new range, whatever it
  merges, that \<open>getfreerange\<close> finds a gap whenever there is one, and that \<open>allocrange\<close> hands out unused structures.
\<close>

subsection \<open>State\<close>

datatype vmm_flag = VMM_FLAGS_PAGESIZE | VMM_FLAGS_ALLOCATE | VMM_FLAGS_PHYSICAL | VMM_FLAGS_FILE
  | VMM_FLAGS_EXACT | VMM_FLAGS_SHARED | VMM_FLAGS_REPLACE | VMM_FLAGS_CREDCHECK

definition VMM_PERMANENT_FLAGS_MASK :: "vmm_flag set" where
  "VMM_PERMANENT_FLAGS_MASK = {VMM_FLAGS_FILE, VMM_FLAGS_SHARED, VMM_FLAGS_PHYSICAL}"

datatype rangeid = RangeId (rg_cache: nat) (rg_index: nat)

type_synonym ctxid = nat

record vmmrange =
  vr_next :: "rangeid option"
  vr_prev :: "rangeid option"
  vr_start :: u64
  vr_size :: u64
  vr_flags :: "vmm_flag set"
  vr_mmuflags :: u64
  vr_vnode :: "vnode option"
  vr_offset :: u64

record vmmcacheheader =
  rc_frame :: u64
  rc_freecount :: nat
  rc_firstfree :: nat

record vmmspace =
  sp_ranges :: "rangeid option"
  sp_start :: u64
  sp_end :: u64

record vmmcontext =
  cx_space :: vmmspace
  cx_pagetable :: u64

text \<open>What \<open>arch_mmu_invalidate_range\<close> looks at besides its arguments.\<close>

record cpus =
  cp_thread :: bool
  cp_awake :: nat
  cp_running :: "nat option"
  cp_order :: "nat list"
  cp_me :: nat

text \<open>
  \<open>vm_frames\<close> is the state of the physical memory manager and the page cache, \<open>vm_tables\<close> the memory of the page
  tables, \<open>vm_contents\<close> what the frames hold, \<open>vm_thread\<close> the \<open>vmmctx\<close> of the current thread, if there is one, and \<open>vm_sigbus\<close>
  counts the \<open>SIGBUS\<close> signals sent to it.
\<close>

record vmm =
  vm_cachelist :: "vmmcacheheader list"
  vm_ranges :: "rangeid \<Rightarrow> vmmrange"
  vm_kernelspace :: vmmspace
  vm_contexts :: "ctxid \<Rightarrow> vmmcontext"
  vm_current :: ctxid
  vm_thread :: "ctxid option"
  vm_cr3 :: u64
  vm_template :: u64
  vm_tables :: tablemem
  vm_frames :: vcache
  vm_contents :: "pageid \<Rightarrow> nat \<Rightarrow> u8"
  vm_cpus :: cpus
  vm_shootdown :: shootdown
  vm_zeropage :: u64
  vm_sigbus :: nat

datatype spaceid = KERNEL_SPACE | USER_SPACE ctxid

definition space_of :: "spaceid \<Rightarrow> vmm \<Rightarrow> vmmspace" where
  "space_of sp s = (case sp of KERNEL_SPACE \<Rightarrow> vm_kernelspace s | USER_SPACE c \<Rightarrow> cx_space (vm_contexts s c))"

definition set_ranges :: "spaceid \<Rightarrow> rangeid option \<Rightarrow> vmm \<Rightarrow> vmm" where
  "set_ranges sp r s = (case sp of
     KERNEL_SPACE \<Rightarrow> s\<lparr>vm_kernelspace := (vm_kernelspace s)\<lparr>sp_ranges := r\<rparr>\<rparr>
   | USER_SPACE c \<Rightarrow> s\<lparr>vm_contexts := (vm_contexts s)(c := (vm_contexts s c)\<lparr>cx_space := (cx_space (vm_contexts s c))\<lparr>sp_ranges := r\<rparr>\<rparr>)\<rparr>)"

definition upd_range :: "rangeid \<Rightarrow> (vmmrange \<Rightarrow> vmmrange) \<Rightarrow> vmm \<Rightarrow> vmm" where
  "upd_range r f s = s\<lparr>vm_ranges := (vm_ranges s)(r := f (vm_ranges s r))\<rparr>"

definition RANGE_TOP :: "vmmrange \<Rightarrow> u64" where
  "RANGE_TOP x = vr_start x + vr_size x"

subsection \<open>The caches of range structures\<close>

text \<open>A page less the 48 bytes of the header, in units of the 64 bytes of a range.\<close>

definition VMM_RANGES_PER_CACHE :: nat where
  "VMM_RANGES_PER_CACHE = (4096 - 48) div 64"

definition allocframe :: "vmm \<Rightarrow> (u64 option \<times> vmm) option" where
  "allocframe s = do {
     (r, f) \<leftarrow> pmm_frame vmmcache_takepage (vm_frames s);
     Some (r, s\<lparr>vm_frames := f\<rparr>)
   }"

text \<open>\<open>c\<close> is the number the new cache will have.\<close>

definition newcache :: "nat \<Rightarrow> vmm \<Rightarrow> (vmmcacheheader option \<times> vmm) option" where
  "newcache c s = do {
     (r, s) \<leftarrow> allocframe s;
     (case r of
        None \<Rightarrow> Some (None, s)
      | Some frame \<Rightarrow>
          Some (Some \<lparr>rc_frame = frame, rc_freecount = VMM_RANGES_PER_CACHE, rc_firstfree = 0\<rparr>,
            fold (\<lambda>i. upd_range (RangeId c i) (\<lambda>x. x\<lparr>vr_size := 0, vr_next := None\<rparr>)) [0..<VMM_RANGES_PER_CACHE] s))
   }"

definition getentrynumber :: "nat \<Rightarrow> vmm \<Rightarrow> nat option" where
  "getentrynumber c s =
     find (\<lambda>i. vr_size (vm_ranges s (RangeId c i)) = 0) [rc_firstfree (vm_cachelist s ! c)..<VMM_RANGES_PER_CACHE]"

definition set_header :: "nat \<Rightarrow> vmmcacheheader \<Rightarrow> vmm \<Rightarrow> vmm" where
  "set_header c h s = s\<lparr>vm_cachelist := (vm_cachelist s)[c := h]\<rparr>"

partial_function (option) allocrange_from :: "nat \<Rightarrow> vmm \<Rightarrow> (rangeid option \<times> vmm) option" where
  "allocrange_from c s =
     (if c \<ge> length (vm_cachelist s) then Some (None, s)
      else
        let h = vm_cachelist s ! c
        in if rc_freecount h > 0 then do {
             r \<leftarrow> getentrynumber c s;
             Some (Some (RangeId c r), upd_range (RangeId c r) (\<lambda>x. x\<lparr>vr_size := - 1\<rparr>)
               (set_header c (h\<lparr>rc_freecount := rc_freecount h - 1, rc_firstfree := r + 1\<rparr>) s))
           }
           else if Suc c = length (vm_cachelist s) then do {
             (n, s) \<leftarrow> newcache (Suc c) s;
             (case n of
                None \<Rightarrow> Some (None, s)
              | Some h \<Rightarrow> allocrange_from (Suc c) (s\<lparr>vm_cachelist := vm_cachelist s @ [h]\<rparr>))
           }
           else allocrange_from (Suc c) s)"

declare allocrange_from.simps [code]

definition allocrange :: "vmm \<Rightarrow> (rangeid option \<times> vmm) option" where
  "allocrange s = allocrange_from 0 s"

definition freerange :: "rangeid \<Rightarrow> vmm \<Rightarrow> vmm" where
  "freerange r s =
     (let h = vm_cachelist s ! rg_cache r
      in set_header (rg_cache r) (h\<lparr>rc_freecount := rc_freecount h + 1, rc_firstfree := min (rc_firstfree h) (rg_index r)\<rparr>)
           (upd_range r (\<lambda>x. x\<lparr>vr_size := 0\<rparr>) s))"

subsection \<open>Spaces\<close>

definition KERNELSPACE_END :: u64 where
  "KERNELSPACE_END = 0xffffffffffffffff"

definition getspace :: "u64 \<Rightarrow> vmm \<Rightarrow> spaceid option" where
  "getspace vaddr s =
     (if USERSPACE_START \<le> vaddr \<and> vaddr < USERSPACE_END then Some (USER_SPACE (vm_current s))
      else if KERNELSPACE_START \<le> vaddr \<and> vaddr < KERNELSPACE_END then Some KERNEL_SPACE
      else None)"

definition range_next :: "vmm \<Rightarrow> rangeid \<Rightarrow> rangeid option" where
  "range_next s r = vr_next (vm_ranges s r)"

definition covers :: "vmmrange \<Rightarrow> u64 \<Rightarrow> bool" where
  "covers x addr \<longleftrightarrow> addr \<ge> vr_start x \<and> addr < RANGE_TOP x"

definition getrange :: "spaceid \<Rightarrow> u64 \<Rightarrow> vmm \<Rightarrow> rangeid option option" where
  "getrange sp addr s = walk (range_next s) (\<lambda>r. covers (vm_ranges s r) addr) (sp_ranges (space_of sp s))"

text \<open>
  The loop of \<open>getfreerange\<close> and the adjustment of the address after it: the gap it finds, or the first address after
  the last range.
\<close>

partial_function (option) gap_loop :: "u64 \<Rightarrow> u64 \<Rightarrow> rangeid \<Rightarrow> vmm \<Rightarrow> (u64 + u64) option" where
  "gap_loop sz addr r s =
     (let rangetop = RANGE_TOP (vm_ranges s r);
          addr = (if addr < rangetop then rangetop else addr)
      in case vr_next (vm_ranges s r) of
           None \<Rightarrow> Some (Inr addr)
         | Some n \<Rightarrow>
             let nextstart = vr_start (vm_ranges s n)
             in if addr < nextstart \<and> nextstart - addr \<ge> sz then Some (Inl addr) else gap_loop sz addr n s)"

declare gap_loop.simps [code]

text \<open>The result 0 is the null pointer.\<close>

definition getfreerange :: "spaceid \<Rightarrow> u64 \<Rightarrow> u64 \<Rightarrow> vmm \<Rightarrow> u64 option" where
  "getfreerange sp addr sz s =
     (let space = space_of sp s;
          addr = (if addr = 0 then sp_start space else addr)
      in case sp_ranges space of
           None \<Rightarrow> Some addr
         | Some r \<Rightarrow>
             let first = vr_start (vm_ranges s r)
             in if first \<noteq> sp_start space \<and> addr < first \<and> first - addr \<ge> sz then Some addr
                else do {
                  g \<leftarrow> gap_loop sz addr r s;
                  (case g of
                     Inl gap \<Rightarrow> Some gap
                   | Inr addr \<Rightarrow> Some (if addr \<noteq> sp_end space \<and> sp_end space - addr \<ge> sz then addr else 0))
                })"

subsection \<open>Insertion\<close>

text \<open>The macros of the vnodes on the state of the cache; \<open>VOP_RELEASE\<close> clears the pointer with the last reference.\<close>

definition hold_vnode :: "rangeid \<Rightarrow> vmm \<Rightarrow> vmm option" where
  "hold_vnode r s = do {
     v \<leftarrow> vr_vnode (vm_ranges s r);
     Some (s\<lparr>vm_frames := VOP_HOLD v (vm_frames s)\<rparr>)
   }"

definition release_vnode :: "rangeid \<Rightarrow> vmm \<Rightarrow> vmm option" where
  "release_vnode r s = do {
     v \<leftarrow> vr_vnode (vm_ranges s r);
     let s = s\<lparr>vm_frames := VOP_RELEASE v (vm_frames s)\<rparr>;
     Some (if vnode_refs (vm_frames s) v = 0 then upd_range r (\<lambda>x. x\<lparr>vr_vnode := None\<rparr>) s else s)
   }"

text \<open>The conditions under which \<open>insertrange\<close> joins a range and the one after it, and the joining itself.\<close>

definition joinable :: "vmmrange \<Rightarrow> vmmrange \<Rightarrow> bool" where
  "joinable x y \<longleftrightarrow> RANGE_TOP x = vr_start y \<and> vr_flags x = vr_flags y \<and> vr_mmuflags x = vr_mmuflags y
     \<and> (VMM_FLAGS_FILE \<notin> vr_flags x \<or> vr_vnode x = vr_vnode y \<and> vr_offset x + vr_size x = vr_offset y)"

definition set_prev_of :: "rangeid option \<Rightarrow> rangeid option \<Rightarrow> vmm \<Rightarrow> vmm" where
  "set_prev_of r p s = (case r of None \<Rightarrow> s | Some n \<Rightarrow> upd_range n (\<lambda>x. x\<lparr>vr_prev := p\<rparr>) s)"

definition join :: "rangeid \<Rightarrow> rangeid \<Rightarrow> vmm \<Rightarrow> vmm option" where
  "join a b s =
     (let y = vm_ranges s b;
          s = upd_range a (\<lambda>x. x\<lparr>vr_size := vr_size x + vr_size y, vr_next := vr_next y\<rparr>) s;
          s = set_prev_of (vr_next y) (Some a) s;
          s = freerange b s
      in if VMM_FLAGS_FILE \<in> vr_flags (vm_ranges s a) then release_vnode a s else Some s)"

definition join_next :: "rangeid \<Rightarrow> vmm \<Rightarrow> vmm option" where
  "join_next new s = (case vr_next (vm_ranges s new) of
     None \<Rightarrow> Some s
   | Some n \<Rightarrow> if joinable (vm_ranges s new) (vm_ranges s n) then join new n s else Some s)"

definition join_prev :: "rangeid \<Rightarrow> vmm \<Rightarrow> vmm option" where
  "join_prev new s = (case vr_prev (vm_ranges s new) of
     None \<Rightarrow> Some s
   | Some p \<Rightarrow> if joinable (vm_ranges s p) (vm_ranges s new) then join p new s else Some s)"

text \<open>The place for the new range: after \<open>r\<close>, and whether another one follows.\<close>

partial_function (option) insert_after :: "u64 \<Rightarrow> rangeid \<Rightarrow> vmm \<Rightarrow> (rangeid \<times> bool) option" where
  "insert_after newstart r s = (case vr_next (vm_ranges s r) of
     None \<Rightarrow> Some (r, False)
   | Some n \<Rightarrow>
       if newstart \<ge> RANGE_TOP (vm_ranges s r) \<and> newstart < vr_start (vm_ranges s n) then Some (r, True)
       else insert_after newstart n s)"

declare insert_after.simps [code]

definition link_range :: "spaceid \<Rightarrow> rangeid \<Rightarrow> rangeid \<Rightarrow> vmm \<Rightarrow> vmm option" where
  "link_range sp new r s =
     (let x = vm_ranges s new
      in if RANGE_TOP x \<le> vr_start (vm_ranges s r)
         then Some (upd_range new (\<lambda>x. x\<lparr>vr_prev := None\<rparr>) (upd_range r (\<lambda>x. x\<lparr>vr_prev := Some new\<rparr>)
                (upd_range new (\<lambda>x. x\<lparr>vr_next := Some r\<rparr>) (set_ranges sp (Some new) s))))
         else do {
           (q, between) \<leftarrow> insert_after (vr_start x) r s;
           Some (if between
                 then upd_range q (\<lambda>x. x\<lparr>vr_next := Some new\<rparr>) (upd_range new (\<lambda>x. x\<lparr>vr_prev := Some q\<rparr>)
                   (upd_range new (\<lambda>x. x\<lparr>vr_next := vr_next (vm_ranges s q)\<rparr>) s))
                 else upd_range new (\<lambda>x. x\<lparr>vr_next := None\<rparr>) (upd_range new (\<lambda>x. x\<lparr>vr_prev := Some q\<rparr>)
                   (upd_range q (\<lambda>x. x\<lparr>vr_next := Some new\<rparr>) s)))
         })"

definition insertrange :: "spaceid \<Rightarrow> rangeid \<Rightarrow> vmm \<Rightarrow> vmm option" where
  "insertrange sp new s = (case sp_ranges (space_of sp s) of
     None \<Rightarrow> Some (upd_range new (\<lambda>x. x\<lparr>vr_next := None, vr_prev := None\<rparr>) (set_ranges sp (Some new) s))
   | Some r \<Rightarrow> do {
       s \<leftarrow> link_range sp new r s;
       s \<leftarrow> join_next new s;
       join_prev new s
     })"

subsection \<open>Lists of ranges\<close>

text \<open>The fields of a range that matter for the addresses, and the nat value of the end of a range.\<close>

definition content :: "vmmrange \<Rightarrow> vmmrange" where
  "content x = x\<lparr>vr_next := None, vr_prev := None\<rparr>"

definition ntop :: "vmmrange \<Rightarrow> nat" where
  "ntop x = unat (vr_start x) + unat (vr_size x)"

lemma content_fields:
  assumes "content x = content y"
  shows "vr_start x = vr_start y" "vr_size x = vr_size y" "vr_flags x = vr_flags y" "vr_mmuflags x = vr_mmuflags y"
    "vr_vnode x = vr_vnode y" "vr_offset x = vr_offset y" "ntop x = ntop y" "RANGE_TOP x = RANGE_TOP y" "covers x = covers y"
proof -
  show e: "vr_start x = vr_start y" "vr_size x = vr_size y" "vr_flags x = vr_flags y" "vr_mmuflags x = vr_mmuflags y"
    "vr_vnode x = vr_vnode y" "vr_offset x = vr_offset y"
    using assms by (cases x; cases y; simp add: content_def)+
  show "ntop x = ntop y" "RANGE_TOP x = RANGE_TOP y" "covers x = covers y"
    using e by (simp_all add: ntop_def RANGE_TOP_def covers_def fun_eq_iff)
qed

lemma content_links [simp]:
  "content (x\<lparr>vr_next := n\<rparr>) = content x" "content (x\<lparr>vr_prev := n\<rparr>) = content x"
  by (simp_all add: content_def)

text \<open>Ranges in the order of their addresses, none empty, no two overlapping, all between two bounds.\<close>

fun in_order :: "(rangeid \<Rightarrow> vmmrange) \<Rightarrow> nat \<Rightarrow> rangeid list \<Rightarrow> nat \<Rightarrow> bool" where
  "in_order R lo [] hi \<longleftrightarrow> lo \<le> hi"
| "in_order R lo (r # rs) hi \<longleftrightarrow> lo \<le> unat (vr_start (R r)) \<and> 0 < vr_size (R r) \<and> in_order R (ntop (R r)) rs hi"

lemma in_order_lower: "in_order R m rs hi \<Longrightarrow> lo \<le> m \<Longrightarrow> in_order R lo rs hi"
  by (cases rs) auto

lemma in_order_append: "in_order R lo (xs @ ys) hi \<longleftrightarrow> (\<exists>m. in_order R lo xs m \<and> in_order R m ys hi)"
  by (induction xs arbitrary: lo) (auto intro: in_order_lower)

lemma in_order_cong: "(\<And>r. r \<in> set rs \<Longrightarrow> content (R' r) = content (R r)) \<Longrightarrow> in_order R' lo rs hi = in_order R lo rs hi"
proof (induction rs arbitrary: lo)
  case (Cons r rs)
  have "content (R' r) = content (R r)" using Cons.prems by simp
  from content_fields [OF this] Cons show ?case by simp
qed simp

lemma ntop_pos: "0 < vr_size x \<Longrightarrow> unat (vr_start x) < ntop x"
  by (simp add: ntop_def word_neq_0_conv [symmetric] unat_gt_0)

lemma ntop_pos_iff: "unat (vr_start x) < ntop x \<longleftrightarrow> 0 < vr_size x"
  by (simp add: ntop_def word_neq_0_conv [symmetric] unat_gt_0)

lemma in_order_bounds: "in_order R lo rs hi \<Longrightarrow> r \<in> set rs \<Longrightarrow> lo \<le> unat (vr_start (R r)) \<and> ntop (R r) \<le> hi"
proof (induction rs arbitrary: lo)
  case (Cons q rs)
  have le: "m \<le> hi" if "in_order R m rs hi" for m using that
    by (induction rs arbitrary: m) (auto dest: ntop_pos simp: less_imp_le intro: order_trans, meson le_less_trans less_imp_le ntop_pos order_trans)
  from Cons ntop_pos [of "R q"] le show ?case by fastforce
qed simp

lemma ntop_RANGE_TOP: "ntop x < 2 ^ 64 \<Longrightarrow> unat (RANGE_TOP x) = ntop x"
  unfolding ntop_def RANGE_TOP_def by (subst unat_add_lem [THEN iffD1]) simp_all

lemma covers_nat: "ntop x < 2 ^ 64 \<Longrightarrow> covers x a \<longleftrightarrow> unat (vr_start x) \<le> unat a \<and> unat a < ntop x"
  by (simp add: covers_def word_le_nat_alt word_less_nat_alt ntop_RANGE_TOP)

text \<open>What a list of ranges says of an address: the flags, the protection and the place in a file.\<close>

definition seen :: "vmmrange \<Rightarrow> u64 \<Rightarrow> vmm_flag set \<times> u64 \<times> (vnode option \<times> u64) option" where
  "seen x a = (vr_flags x, vr_mmuflags x,
     if VMM_FLAGS_FILE \<in> vr_flags x then Some (vr_vnode x, vr_offset x + (a - vr_start x)) else None)"

definition space_at :: "(rangeid \<Rightarrow> vmmrange) \<Rightarrow> rangeid list \<Rightarrow> u64 \<Rightarrow> (vmm_flag set \<times> u64 \<times> (vnode option \<times> u64) option) option" where
  "space_at R rs a = map_option (\<lambda>r. seen (R r) a) (find (\<lambda>r. covers (R r) a) rs)"

lemma space_at_Nil [simp]: "space_at R [] a = None"
  by (simp add: space_at_def)

lemma space_at_Cons: "space_at R (r # rs) a = (if covers (R r) a then Some (seen (R r) a) else space_at R rs a)"
  by (simp add: space_at_def)

lemma space_at_append: "space_at R (xs @ ys) a = (case space_at R xs a of None \<Rightarrow> space_at R ys a | Some v \<Rightarrow> Some v)"
  by (induction xs) (simp_all add: space_at_Cons)

lemma space_at_cong: "(\<And>r. r \<in> set rs \<Longrightarrow> content (R' r) = content (R r)) \<Longrightarrow> space_at R' rs a = space_at R rs a"
proof (induction rs)
  case (Cons r rs)
  have "content (R' r) = content (R r)" using Cons.prems by simp
  from content_fields [OF this] Cons show ?case by (simp add: space_at_Cons seen_def)
qed simp

text \<open>Every file range has a vnode, with at least as many references as ranges.\<close>

definition uses :: "(rangeid \<Rightarrow> vmmrange) \<Rightarrow> vnode \<Rightarrow> rangeid \<Rightarrow> bool" where
  "uses R v r \<longleftrightarrow> VMM_FLAGS_FILE \<in> vr_flags (R r) \<and> vr_vnode (R r) = Some v"

definition refs_ok :: "vmm \<Rightarrow> rangeid list \<Rightarrow> bool" where
  "refs_ok s rs \<longleftrightarrow> (\<forall>v. int (length (filter (uses (vm_ranges s) v) rs)) \<le> vnode_refs (vm_frames s) v)
     \<and> (\<forall>r\<in>set rs. VMM_FLAGS_FILE \<in> vr_flags (vm_ranges s r) \<longrightarrow> vr_vnode (vm_ranges s r) \<noteq> None)"

lemma refs_ok_cong:
  assumes "\<And>r. r \<in> set rs \<Longrightarrow> content (vm_ranges s' r) = content (vm_ranges s r)" and "vnode_refs (vm_frames s') = vnode_refs (vm_frames s)"
  shows "refs_ok s' rs = refs_ok s rs"
proof -
  have "filter (uses (vm_ranges s') v) rs = filter (uses (vm_ranges s) v) rs" for v
    by (rule filter_cong) (use content_fields [OF assms(1)] in \<open>auto simp: uses_def\<close>)
  then show ?thesis unfolding refs_ok_def assms(2) using content_fields [OF assms(1)] by auto
qed

subsection \<open>What the steps of an insertion change\<close>

lemma upd_range_fields [simp]:
  "vm_ranges (upd_range r f s) = (vm_ranges s)(r := f (vm_ranges s r))" "vm_frames (upd_range r f s) = vm_frames s"
  "space_of sp (upd_range r f s) = space_of sp s" "vm_cachelist (upd_range r f s) = vm_cachelist s"
  by (simp_all add: upd_range_def space_of_def split: spaceid.split)

lemma set_ranges_fields [simp]:
  "vm_ranges (set_ranges sp r s) = vm_ranges s" "vm_frames (set_ranges sp r s) = vm_frames s"
  "sp_ranges (space_of sp (set_ranges sp r s)) = r" "vm_cachelist (set_ranges sp r s) = vm_cachelist s"
  "sp_start (space_of sp (set_ranges sp r s)) = sp_start (space_of sp s)" "sp_end (space_of sp (set_ranges sp r s)) = sp_end (space_of sp s)"
  by (simp_all add: set_ranges_def space_of_def split: spaceid.split)

lemma set_header_fields [simp]:
  "vm_ranges (set_header c h s) = vm_ranges s" "vm_frames (set_header c h s) = vm_frames s" "space_of sp (set_header c h s) = space_of sp s"
  by (simp_all add: set_header_def space_of_def split: spaceid.split)

lemma freerange_fields [simp]:
  "vm_ranges (freerange r s) = (vm_ranges s)(r := (vm_ranges s r)\<lparr>vr_size := 0\<rparr>)" "vm_frames (freerange r s) = vm_frames s"
  "space_of sp (freerange r s) = space_of sp s"
  by (simp_all add: freerange_def Let_def)

lemma set_prev_of_fields [simp]:
  "vm_frames (set_prev_of r p s) = vm_frames s" "space_of sp (set_prev_of r p s) = space_of sp s"
  "content (vm_ranges (set_prev_of r p s) q) = content (vm_ranges s q)" "vr_next (vm_ranges (set_prev_of r p s) q) = vr_next (vm_ranges s q)"
  "r \<noteq> Some q \<Longrightarrow> vm_ranges (set_prev_of r p s) q = vm_ranges s q"
  by (auto simp: set_prev_of_def split: option.split)

lemma frames_upd_fields [simp]:
  "vm_ranges (s\<lparr>vm_frames := f\<rparr>) = vm_ranges s" "space_of sp (s\<lparr>vm_frames := f\<rparr>) = space_of sp s"
  by (simp_all add: space_of_def split: spaceid.split)

subsection \<open>Range structures that are free\<close>

text \<open>No operation of the physical memory manager touches the reference counts of the vnodes.\<close>

named_theorems keeps_refs

lemma refs_upd [simp]:
  "vnode_refs (upd_page p f s) = vnode_refs s" "vnode_refs (set_lnext p v s) = vnode_refs s" "vnode_refs (set_lprev p v s) = vnode_refs s"
  "vnode_refs (set_hnext p v s) = vnode_refs s" "vnode_refs (set_hprev p v s) = vnode_refs s"
  "vnode_refs (set_vnext p v s) = vnode_refs s" "vnode_refs (set_vprev p v s) = vnode_refs s"
  "vnode_refs (set_list b c v s) = vnode_refs s" "vnode_refs (set_tail b c v s) = vnode_refs s"
  "vnode_refs (RELEASE_LOCK s) = vnode_refs s"
  by (simp_all add: upd_page_def set_lnext_def set_lprev_def set_hnext_def set_hprev_def set_vnext_def set_vprev_def
      set_list_def set_tail_def RELEASE_LOCK_def)

lemma refs_HOLD [keeps_refs]: "HOLD_LOCK s = Some s' \<Longrightarrow> vnode_refs s' = vnode_refs s"
  by (auto simp: HOLD_LOCK_def split: if_splits)

lemma refs_removefromfreelist [keeps_refs]: "removefromfreelist p s = Some s' \<Longrightarrow> vnode_refs s' = vnode_refs (s :: vcache)"
  by (auto simp: removefromfreelist_def Let_def split: if_splits option.splits)

lemma refs_insertinfreelist [keeps_refs]: "insertinfreelist p s = Some s' \<Longrightarrow> vnode_refs s' = vnode_refs (s :: vcache)"
  by (auto simp: insertinfreelist_def Let_def split: if_splits option.splits)

lemma refs_internalhold [keeps_refs]: "internalhold p s = Some s' \<Longrightarrow> vnode_refs s' = vnode_refs (s :: vcache)"
  by (auto simp: internalhold_def Let_def split: if_splits dest: refs_removefromfreelist)

lemma refs_release [keeps_refs]: "pmm_release a s = Some s' \<Longrightarrow> vnode_refs s' = vnode_refs (s :: vcache)"
  by (auto simp: pmm_release_def release_drop_def release_insert_def Let_def split: if_splits option.splits prod.splits
      dest!: refs_insertinfreelist)

lemma refs_doalloc [keeps_refs]: "doalloc p s = Some s' \<Longrightarrow> vnode_refs s' = vnode_refs (s :: vcache)"
  by (auto simp: doalloc_def split: if_splits)

lemma refs_takepage [keeps_refs]: "vmmcache_takepage p s = Some (e, s') \<Longrightarrow> vnode_refs s' = vnode_refs s"
  by (auto simp: vmmcache_takepage_def removepage_def remove_hash_def remove_vnode_def Let_def bind_eq_Some_conv
      split: if_splits option.splits dest!: refs_HOLD)

lemma refs_allocpage [keeps_refs]:
  assumes "pmm_allocpage vmmcache_takepage c s = Some (r, s')"
  shows "vnode_refs s' = vnode_refs s"
proof -
  let ?P = "\<lambda>takepage c s rs. takepage = vmmcache_takepage \<longrightarrow> vnode_refs (snd rs) = vnode_refs (s :: vcache)"
  have "?P vmmcache_takepage c s (r, s')"
  proof (rule pmm_allocpage.raw_induct [where P = ?P, OF _ assms], goal_cases)
    case (1 f takepage c s rs)
    from 1(2) show ?case
      by (auto split: option.splits if_splits prod.splits dest!: refs_removefromfreelist refs_internalhold refs_release refs_doalloc refs_takepage 1(1))
  qed
  then show ?thesis by simp
qed

lemma refs_allocframe: "allocframe s = Some (r, s') \<Longrightarrow> vnode_refs (vm_frames s') = vnode_refs (vm_frames s)"
  by (auto simp: allocframe_def pmm_frame_def bind_eq_Some_conv dest!: refs_allocpage)

text \<open>
  The headers agree with the structures: the ones before \<open>firstfree\<close> are in use and \<open>freecount\<close> counts the others. A
  structure is in use when its size is not 0.
\<close>

definition caches_ok :: "vmm \<Rightarrow> bool" where
  "caches_ok s \<longleftrightarrow> (\<forall>c<length (vm_cachelist s). (\<forall>i<rc_firstfree (vm_cachelist s ! c). vr_size (vm_ranges s (RangeId c i)) \<noteq> 0)
     \<and> rc_freecount (vm_cachelist s ! c) = card {i. i < VMM_RANGES_PER_CACHE \<and> vr_size (vm_ranges s (RangeId c i)) = 0})"

definition in_use :: "vmm \<Rightarrow> rangeid set" where
  "in_use s = {r. rg_cache r < length (vm_cachelist s) \<and> rg_index r < VMM_RANGES_PER_CACHE \<and> vr_size (vm_ranges s r) \<noteq> 0}"

text \<open>Nothing has changed but the caches of range structures and the frames, and there not the references of vnodes.\<close>

definition only_ranges :: "vmm \<Rightarrow> vmm \<Rightarrow> bool" where
  "only_ranges s s' \<longleftrightarrow> s' = s\<lparr>vm_cachelist := vm_cachelist s', vm_ranges := vm_ranges s', vm_frames := vm_frames s'\<rparr>
     \<and> vnode_refs (vm_frames s') = vnode_refs (vm_frames s)"

lemma only_ranges_refl [simp]: "only_ranges s s"
  by (simp add: only_ranges_def)

lemma only_ranges_fields:
  assumes "only_ranges s s'"
  shows "space_of sp s' = space_of sp s" "vm_tables s' = vm_tables s" "vm_contexts s' = vm_contexts s" "vm_current s' = vm_current s"
    "vm_contents s' = vm_contents s" "vnode_refs (vm_frames s') = vnode_refs (vm_frames s)" "vm_zeropage s' = vm_zeropage s"
proof -
  have s': "s' = s\<lparr>vm_cachelist := vm_cachelist s', vm_ranges := vm_ranges s', vm_frames := vm_frames s'\<rparr>"
    using assms by (simp add: only_ranges_def)
  show "space_of sp s' = space_of sp s" by (subst s') (simp add: space_of_def split: spaceid.split)
  show "vm_tables s' = vm_tables s" "vm_contexts s' = vm_contexts s" "vm_current s' = vm_current s"
    "vm_contents s' = vm_contents s" "vm_zeropage s' = vm_zeropage s" by (subst s', simp)+
  show "vnode_refs (vm_frames s') = vnode_refs (vm_frames s)" using assms by (simp add: only_ranges_def)
qed

lemma only_ranges_trans: "only_ranges s s' \<Longrightarrow> only_ranges s' s'' \<Longrightarrow> only_ranges s s''"
  by (cases s; cases s'; cases s'') (simp add: only_ranges_def)

text \<open>What \<open>allocrange\<close> does: it gives a structure that was not in use, or none.\<close>

definition range_taken :: "vmm \<Rightarrow> rangeid option \<Rightarrow> vmm \<Rightarrow> bool" where
  "range_taken s r s' \<longleftrightarrow> caches_ok s' \<and> only_ranges s s' \<and> vm_cachelist s' \<noteq> [] \<and> (\<forall>q\<in>in_use s. vm_ranges s' q = vm_ranges s q)
     \<and> (case r of None \<Rightarrow> in_use s' = in_use s | Some r \<Rightarrow> r \<notin> in_use s \<and> in_use s' = insert r (in_use s))"

lemma find_upt_least: "find P [m..<n] = Some i \<Longrightarrow> m \<le> i \<and> i < n \<and> P i \<and> (\<forall>j. m \<le> j \<longrightarrow> j < i \<longrightarrow> \<not> P j)"
proof (induction "n - m" arbitrary: m)
  case (Suc k)
  then have l: "[m..<n] = m # [Suc m..<n]" by (simp add: upt_conv_Cons)
  show ?case
  proof (cases "P m")
    case False
    then have "Suc m \<le> i \<and> i < n \<and> P i \<and> (\<forall>j. Suc m \<le> j \<longrightarrow> j < i \<longrightarrow> \<not> P j)" using Suc.hyps(1) [of "Suc m"] Suc.hyps(2) Suc.prems l by simp
    then show ?thesis using False by (metis Suc_leI le_neq_implies_less Suc_leD)
  qed (use Suc.prems Suc.hyps(2) l in auto)
qed simp

lemma allocrange_here:
  assumes ok: "caches_ok s" and c: "c < length (vm_cachelist s)" and f: "rc_freecount (vm_cachelist s ! c) > 0"
  shows "\<exists>i s'. allocrange_from c s = Some (Some (RangeId c i), s') \<and> range_taken s (Some (RangeId c i)) s'"
proof -
  let ?h = "vm_cachelist s ! c" and ?F = "{i. i < VMM_RANGES_PER_CACHE \<and> vr_size (vm_ranges s (RangeId c i)) = 0}"
  have H: "\<forall>i<rc_firstfree ?h. vr_size (vm_ranges s (RangeId c i)) \<noteq> 0" "rc_freecount ?h = card ?F"
    using ok c by (simp_all add: caches_ok_def)
  have "?F \<noteq> {}" using f H(2) by (metis card.empty less_irrefl)
  then obtain k where k: "k < VMM_RANGES_PER_CACHE" "vr_size (vm_ranges s (RangeId c k)) = 0" by auto
  then have "rc_firstfree ?h \<le> k" using H(1) by (meson not_le)
  with k obtain i where i: "getentrynumber c s = Some i"
    by (cases "getentrynumber c s") (auto simp: getentrynumber_def find_None_iff)
  then have I: "rc_firstfree ?h \<le> i" "i < VMM_RANGES_PER_CACHE" "vr_size (vm_ranges s (RangeId c i)) = 0"
      "\<forall>j. rc_firstfree ?h \<le> j \<longrightarrow> j < i \<longrightarrow> vr_size (vm_ranges s (RangeId c j)) \<noteq> 0"
    unfolding getentrynumber_def by (auto dest: find_upt_least)
  let ?s = "upd_range (RangeId c i) (\<lambda>x. x\<lparr>vr_size := - 1\<rparr>) (set_header c (?h\<lparr>rc_freecount := rc_freecount ?h - 1, rc_firstfree := i + 1\<rparr>) s)"
  have r: "allocrange_from c s = Some (Some (RangeId c i), ?s)"
    using c f i by (subst allocrange_from.simps) (simp add: Let_def)
  have "{j. j < VMM_RANGES_PER_CACHE \<and> vr_size (vm_ranges ?s (RangeId c j)) = 0} = ?F - {i}" by auto
  then have card: "card {j. j < VMM_RANGES_PER_CACHE \<and> vr_size (vm_ranges ?s (RangeId c j)) = 0} = card ?F - 1" using I by (simp add: card_Diff_singleton)
  have low: "vr_size (vm_ranges ?s (RangeId c j)) \<noteq> 0" if "j < i + 1" for j
    using that H(1) I(4) by (cases "j = i") (auto simp: not_less [symmetric])
  have "caches_ok ?s"
    unfolding caches_ok_def
  proof (intro allI impI)
    fix d assume d: "d < length (vm_cachelist ?s)"
    show "(\<forall>j<rc_firstfree (vm_cachelist ?s ! d). vr_size (vm_ranges ?s (RangeId d j)) \<noteq> 0)
      \<and> rc_freecount (vm_cachelist ?s ! d) = card {j. j < VMM_RANGES_PER_CACHE \<and> vr_size (vm_ranges ?s (RangeId d j)) = 0}"
    proof (cases "d = c")
      case True
      then show ?thesis using card low H(2) c by (simp add: set_header_def)
    next
      case False
      then have "vm_ranges ?s (RangeId d j) = vm_ranges s (RangeId d j)" "vm_cachelist ?s ! d = vm_cachelist s ! d" for j
        by (simp_all add: set_header_def)
      then show ?thesis using ok d by (simp add: caches_ok_def set_header_def)
    qed
  qed
  moreover have "in_use ?s = insert (RangeId c i) (in_use s)" "RangeId c i \<notin> in_use s" "vm_cachelist ?s \<noteq> []"
    using c I by (auto simp: in_use_def set_header_def split: if_splits)
  moreover have "only_ranges s ?s" by (simp add: only_ranges_def upd_range_def set_header_def)
  ultimately show ?thesis using r unfolding range_taken_def by (intro exI [of _ i] exI [of _ ?s]) auto
qed

lemma newcache_result:
  assumes "newcache c s = Some (n, s')"
  shows "only_ranges s s'" and "vm_cachelist s' = vm_cachelist s" and "\<And>r. rg_cache r \<noteq> c \<Longrightarrow> vm_ranges s' r = vm_ranges s r"
    and "\<And>h. n = Some h \<Longrightarrow> rc_freecount h = VMM_RANGES_PER_CACHE \<and> rc_firstfree h = 0
      \<and> (\<forall>i<VMM_RANGES_PER_CACHE. vr_size (vm_ranges s' (RangeId c i)) = 0)"
    and "n = None \<Longrightarrow> vm_ranges s' = vm_ranges s"
proof -
  let ?f = "\<lambda>n. fold (\<lambda>i. upd_range (RangeId c i) (\<lambda>x. x\<lparr>vr_size := 0, vr_next := None\<rparr>)) [0..<n]"
  have F: "only_ranges s (?f n s) \<and> vm_cachelist (?f n s) = vm_cachelist s \<and> (\<forall>r. rg_cache r \<noteq> c \<longrightarrow> vm_ranges (?f n s) r = vm_ranges s r)
      \<and> (\<forall>i<n. vr_size (vm_ranges (?f n s) (RangeId c i)) = 0)" for n s
  proof (induction n)
    case (Suc n)
    have "only_ranges (?f n s) (upd_range (RangeId c n) (\<lambda>x. x\<lparr>vr_size := 0, vr_next := None\<rparr>) (?f n s))" by (simp add: only_ranges_def upd_range_def)
    with Suc show ?case by (auto simp: less_Suc_eq intro: only_ranges_trans)
  qed simp
  obtain r s1 where s1: "allocframe s = Some (r, s1)" using assms by (auto simp: newcache_def bind_eq_Some_conv)
  then have o1: "only_ranges s s1" "vm_cachelist s1 = vm_cachelist s" "vm_ranges s1 = vm_ranges s"
    using refs_allocframe [OF s1] by (auto simp: only_ranges_def allocframe_def bind_eq_Some_conv)
  show "only_ranges s s'" "vm_cachelist s' = vm_cachelist s" "\<And>r. rg_cache r \<noteq> c \<Longrightarrow> vm_ranges s' r = vm_ranges s r"
    and "\<And>h. n = Some h \<Longrightarrow> rc_freecount h = VMM_RANGES_PER_CACHE \<and> rc_firstfree h = 0
      \<and> (\<forall>i<VMM_RANGES_PER_CACHE. vr_size (vm_ranges s' (RangeId c i)) = 0)"
    and "n = None \<Longrightarrow> vm_ranges s' = vm_ranges s"
    using assms s1 o1 F [where n = VMM_RANGES_PER_CACHE and s = s1] by (auto simp: newcache_def split: option.splits intro: only_ranges_trans)
qed

lemma VMM_RANGES_PER_CACHE_pos: "0 < VMM_RANGES_PER_CACHE"
  by (simp add: VMM_RANGES_PER_CACHE_def)

lemma caches_ok_append:
  assumes ok: "caches_ok s" and n: "newcache (length (vm_cachelist s)) s = Some (Some h, s1)"
  defines "s2 \<equiv> s1\<lparr>vm_cachelist := vm_cachelist s1 @ [h]\<rparr>"
  shows "caches_ok s2" and "in_use s2 = in_use s" and "only_ranges s s2" and "\<And>q. q \<in> in_use s \<Longrightarrow> vm_ranges s2 q = vm_ranges s q"
    and "vm_cachelist s2 = vm_cachelist s @ [h]" and "rc_freecount h > 0"
proof -
  let ?l = "length (vm_cachelist s)"
  note N = newcache_result [OF n]
  have h: "rc_freecount h = VMM_RANGES_PER_CACHE" "rc_firstfree h = 0" "\<And>i. i < VMM_RANGES_PER_CACHE \<Longrightarrow> vr_size (vm_ranges s1 (RangeId ?l i)) = 0"
    using N(4) by auto
  show l: "vm_cachelist s2 = vm_cachelist s @ [h]" by (simp add: s2_def N(2))
  show "rc_freecount h > 0" using h(1) VMM_RANGES_PER_CACHE_pos by simp
  have R: "vm_ranges s2 = vm_ranges s1" by (simp add: s2_def)
  show "only_ranges s s2" using N(1) by (cases s; cases s1) (simp add: only_ranges_def s2_def)
  show q: "vm_ranges s2 q = vm_ranges s q" if "q \<in> in_use s" for q using that N(3) [of q] R by (auto simp: in_use_def)
  have U: "vr_size (vm_ranges s2 r) \<noteq> 0 \<longleftrightarrow> rg_cache r < ?l \<and> vr_size (vm_ranges s r) \<noteq> 0" if "rg_cache r < length (vm_cachelist s2)" "rg_index r < VMM_RANGES_PER_CACHE" for r
    using that h(3) [of "rg_index r"] N(3) [of r] by (cases r; cases "rg_cache r = ?l") (auto simp: l R)
  show "in_use s2 = in_use s"
  proof (rule set_eqI)
    show "r \<in> in_use s2 \<longleftrightarrow> r \<in> in_use s" for r using U [of r] by (auto simp: in_use_def l)
  qed
  have "card {i. i < VMM_RANGES_PER_CACHE \<and> vr_size (vm_ranges s2 (RangeId ?l i)) = 0} = VMM_RANGES_PER_CACHE"
    using h(3) R by (simp add: Collect_mono_iff conj_absorb cong: conj_cong)
  moreover have "vm_ranges s2 (RangeId c i) = vm_ranges s (RangeId c i)" if "c < ?l" for c i using that N(3) [of "RangeId c i"] R by simp
  ultimately show "caches_ok s2" using ok h(1,2) unfolding caches_ok_def by (auto simp: l less_Suc_eq nth_append)
qed

lemma allocrange_from_ok:
  assumes "caches_ok s" and "c < length (vm_cachelist s)"
  shows "case allocrange_from c s of None \<Rightarrow> newcache (length (vm_cachelist s)) s = None | Some (r, s') \<Rightarrow> range_taken s r s'"
  using assms(2)
proof (induction "length (vm_cachelist s) - Suc c" arbitrary: c)
  case (0 c)
  then have l: "Suc c = length (vm_cachelist s)" by simp
  show ?case
  proof (cases "rc_freecount (vm_cachelist s ! c) > 0")
    case True
    then show ?thesis using allocrange_here [OF assms(1) 0(2)] by auto
  next
    case False
    have "allocrange_from c s = None" if "newcache (Suc c) s = None"
      using 0(2) False l that by (subst allocrange_from.simps) (simp add: Let_def)
    moreover have step: "allocrange_from c s = (case n of None \<Rightarrow> Some (None, s1) | Some h \<Rightarrow> allocrange_from (Suc c) (s1\<lparr>vm_cachelist := vm_cachelist s1 @ [h]\<rparr>))"
      if "newcache (Suc c) s = Some (n, s1)" for n s1
      using 0(2) False l that by (subst allocrange_from.simps) (simp add: Let_def)
    moreover have "range_taken s None s1" if n: "newcache (Suc c) s = Some (None, s1)" for s1
      using newcache_result(1,2,5) [OF n] assms(1) l by (auto simp: range_taken_def caches_ok_def in_use_def)
    moreover have "\<exists>i s'. allocrange_from (Suc c) (s1\<lparr>vm_cachelist := vm_cachelist s1 @ [h]\<rparr>) = Some (Some (RangeId (Suc c) i), s')
        \<and> range_taken s (Some (RangeId (Suc c) i)) s'" if n: "newcache (Suc c) s = Some (Some h, s1)" for h s1
    proof -
      note A = caches_ok_append [OF assms(1) n [unfolded l]]
      let ?s = "s1\<lparr>vm_cachelist := vm_cachelist s1 @ [h]\<rparr>"
      obtain i s' where "allocrange_from (Suc c) ?s = Some (Some (RangeId (Suc c) i), s')" "range_taken ?s (Some (RangeId (Suc c) i)) s'"
        using allocrange_here [OF A(1), of "Suc c"] A(5,6) l by auto
      moreover from this(2) have "range_taken s (Some (RangeId (Suc c) i)) s'"
        using A(2,3,4) by (auto simp: range_taken_def intro: only_ranges_trans)
      ultimately show ?thesis by blast
    qed
    ultimately show ?thesis using l by (cases "newcache (Suc c) s") (force split: option.splits)+
  qed
next
  case (Suc k c)
  show ?case
  proof (cases "rc_freecount (vm_cachelist s ! c) > 0")
    case True
    then show ?thesis using allocrange_here [OF assms(1) Suc(3)] by auto
  next
    case False
    then have "allocrange_from c s = allocrange_from (Suc c) s" using Suc(2,3) by (subst allocrange_from.simps) (auto simp: Let_def)
    then show ?thesis using Suc(1) [of "Suc c"] Suc(2,3) by simp
  qed
qed

lemma allocrange_taken:
  assumes "caches_ok s" and "vm_cachelist s \<noteq> []" and "allocrange s = Some (r, s')"
  shows "range_taken s r s'"
  using allocrange_from_ok [OF assms(1), of 0] assms(2,3) by (simp add: allocrange_def)

lemma allocrange_ok:
  assumes "caches_ok s" and "vm_cachelist s \<noteq> []" and "frames_inv (vm_frames s) F"
  obtains r s' where "allocrange s = Some (r, s')" and "range_taken s r s'"
proof -
  obtain r f where "pmm_frame vmmcache_takepage (vm_frames s) = Some (r, f)" using pmm_tables.alloc_returns [OF assms(3)] by blast
  then have "newcache (length (vm_cachelist s)) s \<noteq> None" by (cases r) (auto simp: newcache_def allocframe_def)
  then show ?thesis using allocrange_from_ok [OF assms(1), of 0] assms(2) that by (auto simp: allocrange_def split: option.splits)
qed

lemma freerange_ok:
  assumes ok: "caches_ok s" and r: "r \<in> in_use s"
  shows "caches_ok (freerange r s)" and "in_use (freerange r s) = in_use s - {r}" and "only_ranges s (freerange r s)"
proof -
  let ?s = "freerange r s" and ?c = "rg_cache r" and ?i = "rg_index r"
  let ?F = "{i. i < VMM_RANGES_PER_CACHE \<and> vr_size (vm_ranges s (RangeId ?c i)) = 0}"
  have R: "RangeId ?c ?i = r" "?c < length (vm_cachelist s)" "?i < VMM_RANGES_PER_CACHE" "vr_size (vm_ranges s r) \<noteq> 0"
    using r by (simp_all add: in_use_def)
  have L: "vm_cachelist ?s = (vm_cachelist s)[?c := (vm_cachelist s ! ?c)\<lparr>rc_freecount := rc_freecount (vm_cachelist s ! ?c) + 1,
      rc_firstfree := min (rc_firstfree (vm_cachelist s ! ?c)) ?i\<rparr>]"
    by (simp add: freerange_def set_header_def Let_def)
  show "in_use ?s = in_use s - {r}" by (auto simp: in_use_def L)
  show "only_ranges s ?s" by (simp add: only_ranges_def) (simp add: freerange_def set_header_def upd_range_def Let_def)
  have "{i. i < VMM_RANGES_PER_CACHE \<and> vr_size (vm_ranges ?s (RangeId ?c i)) = 0} = insert ?i ?F" using R by (cases r) auto
  then have card: "card {i. i < VMM_RANGES_PER_CACHE \<and> vr_size (vm_ranges ?s (RangeId ?c i)) = 0} = card ?F + 1" using R by simp
  show "caches_ok ?s"
    unfolding caches_ok_def
  proof (intro allI impI)
    fix d assume d: "d < length (vm_cachelist ?s)"
    show "(\<forall>j<rc_firstfree (vm_cachelist ?s ! d). vr_size (vm_ranges ?s (RangeId d j)) \<noteq> 0)
      \<and> rc_freecount (vm_cachelist ?s ! d) = card {j. j < VMM_RANGES_PER_CACHE \<and> vr_size (vm_ranges ?s (RangeId d j)) = 0}"
    proof (cases "d = ?c")
      case True
      have "vr_size (vm_ranges ?s (RangeId ?c j)) \<noteq> 0" if "j < min (rc_firstfree (vm_cachelist s ! ?c)) ?i" for j
        using that ok R(1,2) by (cases r) (auto simp: caches_ok_def)
      then show ?thesis using card R(2) ok True by (simp add: L caches_ok_def)
    next
      case False
      then have "vm_ranges ?s (RangeId d j) = vm_ranges s (RangeId d j)" "vm_cachelist ?s ! d = vm_cachelist s ! d" for j
        using R(1) by (auto simp: L)
      then show ?thesis using ok d by (simp add: caches_ok_def L)
    qed
  qed
qed

text \<open>The caches of range structures are an object cache like the slab allocator.\<close>

definition range_inv :: "vmm \<Rightarrow> rangeid set \<Rightarrow> bool" where
  "range_inv s U \<longleftrightarrow> caches_ok s \<and> in_use s = U \<and> vm_cachelist s \<noteq> []"

definition range_take :: "vmm \<Rightarrow> rangeid \<Rightarrow> vmm \<Rightarrow> bool" where
  "range_take s r s' \<longleftrightarrow> allocrange s = Some (Some r, s')"

definition range_give :: "vmm \<Rightarrow> rangeid \<Rightarrow> vmm \<Rightarrow> bool" where
  "range_give s r s' \<longleftrightarrow> s' = freerange r s"

interpretation rangecache: object_cache range_inv range_take range_give
proof
  show "r \<notin> U \<and> range_inv s' (insert r U)" if "range_inv s U" "range_take s r s'" for s U r s'
    using that allocrange_taken [of s "Some r" s'] by (auto simp: range_inv_def range_take_def range_taken_def)
  show "\<exists>s'. range_give s r s'" for s r by (simp add: range_give_def)
  show "range_inv s' (U - {r})" if "range_inv s U" "r \<in> U" "range_give s r s'" for s U r s'
    using that freerange_ok [of s r] by (auto simp: range_inv_def range_give_def in_use_def freerange_def set_header_def Let_def)
qed

lemma caches_ok_cong:
  assumes "vm_cachelist s' = vm_cachelist s" and "\<And>r. vr_size (vm_ranges s' r) = 0 \<longleftrightarrow> vr_size (vm_ranges s r) = 0"
  shows "caches_ok s' = caches_ok s" and "in_use s' = in_use s"
  by (simp_all add: caches_ok_def in_use_def assms)

text \<open>The ranges \<open>rs\<close> are structures in use.\<close>

definition managed :: "vmm \<Rightarrow> rangeid list \<Rightarrow> bool" where
  "managed s rs \<longleftrightarrow> caches_ok s \<and> vm_cachelist s \<noteq> [] \<and> set rs \<subseteq> in_use s"

lemma managed_cong:
  assumes "vm_cachelist s' = vm_cachelist s" and "\<And>r. content (vm_ranges s' r) = content (vm_ranges s r)" and "set rs' = set rs"
  shows "managed s' rs' = managed s rs"
  using caches_ok_cong [of s' s] assms content_fields(2) [OF assms(2)] by (simp add: managed_def)

text \<open>A join when the vnode has more than one reference: the first range grows and takes the place of both.\<close>

lemma join_result:
  assumes refs: "VMM_FLAGS_FILE \<in> vr_flags (vm_ranges s a) \<longrightarrow> (\<exists>v. vr_vnode (vm_ranges s a) = Some v \<and> 1 < vnode_refs (vm_frames s) v)"
    and ne: "a \<noteq> b" "vr_next (vm_ranges s b) \<noteq> Some a"
  obtains s' where "join a b s = Some s'" and "space_of sp s' = space_of sp s"
    and "\<And>r. r \<noteq> a \<Longrightarrow> r \<noteq> b \<Longrightarrow> content (vm_ranges s' r) = content (vm_ranges s r)"
    and "\<And>r. vr_next (vm_ranges s' r) = (if r = a then vr_next (vm_ranges s b) else vr_next (vm_ranges s r))"
    and "content (vm_ranges s' a) = content ((vm_ranges s a)\<lparr>vr_size := vr_size (vm_ranges s a) + vr_size (vm_ranges s b)\<rparr>)"
    and "vr_prev (vm_ranges s' a) = vr_prev (vm_ranges s a)" and "vr_size (vm_ranges s' b) = 0"
    and "\<And>v. vnode_refs (vm_frames s') v = vnode_refs (vm_frames s) v - (if uses (vm_ranges s) v a then 1 else 0)"
    and "\<And>xs ys. managed s (xs @ a # b # ys) \<Longrightarrow> distinct (xs @ a # b # ys) \<Longrightarrow> vr_size (vm_ranges s a) + vr_size (vm_ranges s b) \<noteq> 0
      \<Longrightarrow> managed s' (xs @ a # ys)"
proof -
  let ?x = "(vm_ranges s a)\<lparr>vr_size := vr_size (vm_ranges s a) + vr_size (vm_ranges s b), vr_next := vr_next (vm_ranges s b)\<rparr>"
  let ?s = "freerange b (set_prev_of (vr_next (vm_ranges s b)) (Some a) (upd_range a (\<lambda>_. ?x) s))"
  define s' where "s' = (if VMM_FLAGS_FILE \<in> vr_flags (vm_ranges s a)
    then ?s\<lparr>vm_frames := VOP_RELEASE (the (vr_vnode (vm_ranges s a))) (vm_frames s)\<rparr> else ?s)"
  have a: "vm_ranges ?s a = ?x" using ne by simp
  have j: "join a b s = Some s'"
    using refs a by (auto simp: join_def Let_def s'_def release_vnode_def upd_range_def VOP_RELEASE_def)
  have R: "vm_ranges s' = vm_ranges ?s" by (simp add: s'_def)
  have "content (?x) = content ((vm_ranges s a)\<lparr>vr_size := vr_size (vm_ranges s a) + vr_size (vm_ranges s b)\<rparr>)" by (simp add: content_def)
  moreover have "managed s' (xs @ a # ys)"
    if m: "managed s (xs @ a # b # ys)" "distinct (xs @ a # b # ys)" "vr_size (vm_ranges s a) + vr_size (vm_ranges s b) \<noteq> 0" for xs ys
  proof -
    let ?t = "set_prev_of (vr_next (vm_ranges s b)) (Some a) (upd_range a (\<lambda>_. ?x) s)"
    have L: "vm_cachelist ?t = vm_cachelist s" by (simp add: set_prev_of_def split: option.split)
    have "vr_size (vm_ranges ?t r) = vr_size (vm_ranges (upd_range a (\<lambda>_. ?x) s) r)" for r by (rule content_fields(2)) simp
    then have "vr_size (vm_ranges ?t r) = 0 \<longleftrightarrow> vr_size (vm_ranges s r) = 0" for r using m by (auto simp: managed_def in_use_def)
    note C = caches_ok_cong [OF L this]
    have "caches_ok ?t" "b \<in> in_use ?t" using C m(1) by (auto simp: managed_def)
    note F = freerange_ok [OF this]
    have s: "vm_cachelist s' = vm_cachelist ?s" by (simp add: s'_def)
    have "caches_ok s' = caches_ok ?s" "in_use s' = in_use ?s" using caches_ok_cong [OF s] R by auto
    moreover have "vm_cachelist ?s \<noteq> []" using m(1) L by (simp add: managed_def freerange_def set_header_def Let_def)
    ultimately show ?thesis using F(1,2) C(2) m(1,2) s by (auto simp: managed_def)
  qed
  ultimately show ?thesis using ne a refs
    by (intro that [OF j]) (auto simp: R s'_def VOP_RELEASE_def uses_def)
qed

text \<open>The invariant of a space with the ranges \<open>rs\<close>.\<close>

definition ranges_ok :: "spaceid \<Rightarrow> vmm \<Rightarrow> rangeid list \<Rightarrow> bool" where
  "ranges_ok sp s rs \<longleftrightarrow> nchain (range_next s) (sp_ranges (space_of sp s)) rs None
     \<and> in_order (vm_ranges s) (unat (sp_start (space_of sp s))) rs (unat (sp_end (space_of sp s))) \<and> refs_ok s rs \<and> managed s rs"

lemma ranges_okD:
  assumes "ranges_ok sp s rs"
  shows "nchain (range_next s) (sp_ranges (space_of sp s)) rs None"
    "in_order (vm_ranges s) (unat (sp_start (space_of sp s))) rs (unat (sp_end (space_of sp s)))" "refs_ok s rs" "managed s rs"
  using assms by (simp_all add: ranges_ok_def)

lemma in_order_distinct: "in_order R lo rs hi \<Longrightarrow> distinct rs"
proof (induction rs arbitrary: lo)
  case (Cons r rs)
  have "r \<notin> set rs" using in_order_bounds [of R "ntop (R r)" rs hi r] ntop_pos [of "R r"] Cons.prems by auto
  with Cons show ?case by auto
qed simp

lemma unat_below [simp]: "unat (x :: u64) < 2 ^ 64"
  using unsigned_less [of x, where ?'a = nat] by simp

lemma getrange_find:
  "ranges_ok sp s rs \<Longrightarrow> getrange sp addr s = Some (find (\<lambda>r. covers (vm_ranges s r) addr) rs)"
  unfolding getrange_def by (rule walk_nchain) (rule ranges_okD)

lemma join_content:
  assumes "joinable x y" and le: "ntop x \<le> unat (vr_start y)" and "ntop y < 2 ^ 64" and "content z = content (x\<lparr>vr_size := vr_size x + vr_size y\<rparr>)"
  shows "ntop z = ntop y" and "vr_start z = vr_start x" and "covers z addr \<longleftrightarrow> covers x addr \<or> covers y addr"
    and "seen z addr = seen x addr" and "seen y addr = seen x addr" and "unat (vr_start y) = ntop x"
proof -
  have z: "vr_start z = vr_start x" "vr_size z = vr_size x + vr_size y" "vr_flags z = vr_flags x" "vr_mmuflags z = vr_mmuflags x"
      "vr_vnode z = vr_vnode x" "vr_offset z = vr_offset x"
    using content_fields [OF assms(4)] by simp_all
  have st: "vr_start y = vr_start x + vr_size x" using assms(1) by (simp add: joinable_def RANGE_TOP_def)
  have x: "ntop x < 2 ^ 64" using le unat_below [of "vr_start y"] by linarith
  then have y: "unat (vr_start y) = ntop x" using ntop_RANGE_TOP [of x] by (simp add: st RANGE_TOP_def)
  have "unat (vr_size x) + unat (vr_size y) < 2 ^ 64" using assms(3) y by (simp add: ntop_def)
  then have "unat (vr_size x + vr_size y) = unat (vr_size x) + unat (vr_size y)"
    using unat_add_lem [of "vr_size x" "vr_size y"] by simp
  with y show e: "ntop z = ntop y" "unat (vr_start y) = ntop x" by (simp_all add: ntop_def z)
  have "ntop z < 2 ^ 64" using e assms(3) by simp
  from covers_nat [OF this] covers_nat [OF x] covers_nat [OF assms(3)] show "covers z addr \<longleftrightarrow> covers x addr \<or> covers y addr"
    unfolding e z using y by (auto simp: ntop_def)
  show "seen z addr = seen x addr" "vr_start z = vr_start x" by (simp_all add: seen_def z)
  have "vr_offset y + (addr - vr_start y) = vr_offset x + (addr - vr_start x)" if "VMM_FLAGS_FILE \<in> vr_flags x"
  proof -
    have "vr_offset y = vr_offset x + vr_size x" using that assms(1) by (simp add: joinable_def)
    then show ?thesis by (simp add: st)
  qed
  moreover have "vr_flags x = vr_flags y" "vr_mmuflags x = vr_mmuflags y" "VMM_FLAGS_FILE \<in> vr_flags x \<Longrightarrow> vr_vnode x = vr_vnode y"
    using assms(1) by (auto simp: joinable_def)
  ultimately show "seen y addr = seen x addr" unfolding seen_def by simp
qed

lemma in_order_extend:
  assumes "in_order R lo (xs @ a # b # ys) hi" and "vr_start (R' a) = vr_start (R a)" and "ntop (R' a) = ntop (R b)" and "0 < vr_size (R' a)"
    and "\<And>r. r \<in> set xs \<union> set ys \<Longrightarrow> content (R' r) = content (R r)"
  shows "in_order R' lo (xs @ a # ys) hi"
proof -
  have "in_order R' m xs n = in_order R m xs n" "in_order R' m ys n = in_order R m ys n" for m n
    using assms(5) by (auto intro!: in_order_cong)
  then show ?thesis using assms(1-4) unfolding in_order_append by auto
qed

lemma refs_ok_drop:
  assumes ok: "refs_ok s (xs @ a # b # ys)" and j: "joinable (vm_ranges s a) (vm_ranges s b)"
    and same: "\<And>r. r \<in> set xs \<union> set ys \<Longrightarrow> content (vm_ranges s' r) = content (vm_ranges s r)"
    and a: "vr_flags (vm_ranges s' a) = vr_flags (vm_ranges s a)" "vr_vnode (vm_ranges s' a) = vr_vnode (vm_ranges s a)"
    and refs: "\<And>v. vnode_refs (vm_frames s') v = vnode_refs (vm_frames s) v - (if uses (vm_ranges s) v a then 1 else 0)"
  shows "refs_ok s' (xs @ a # ys)"
proof -
  have u: "uses (vm_ranges s') v r = uses (vm_ranges s) v r" if "r \<in> set (xs @ a # ys)" for v r
    using that a content_fields(3,5) [OF same, of r] by (auto simp: uses_def)
  then have "filter (uses (vm_ranges s') v) (xs @ a # ys) = filter (uses (vm_ranges s) v) (xs @ a # ys)" for v
    by (rule filter_cong [OF refl])
  moreover have "uses (vm_ranges s) v b = uses (vm_ranges s) v a" for v using j by (auto simp: uses_def joinable_def)
  then have "length (filter (uses (vm_ranges s) v) (xs @ a # b # ys)) =
      length (filter (uses (vm_ranges s) v) (xs @ a # ys)) + (if uses (vm_ranges s) v a then 1 else 0)" for v by simp
  then have "int (length (filter (uses (vm_ranges s) v) (xs @ a # ys))) \<le> vnode_refs (vm_frames s') v" for v
    using ok unfolding refs_ok_def refs by (smt (verit) of_nat_add of_nat_1 add_0_right)
  moreover have "vr_vnode (vm_ranges s' r) \<noteq> None" if "r \<in> set (xs @ a # ys)" "VMM_FLAGS_FILE \<in> vr_flags (vm_ranges s' r)" for r
    using that ok a content_fields(3,5) [OF same, of r] by (auto simp: refs_ok_def)
  ultimately show ?thesis unfolding refs_ok_def by simp
qed

lemma join_ok:
  assumes ok: "ranges_ok sp s (xs @ a # b # ys)" and j: "joinable (vm_ranges s a) (vm_ranges s b)"
  obtains s' where "join a b s = Some s'" and "ranges_ok sp s' (xs @ a # ys)"
    and "\<And>addr. space_at (vm_ranges s') (xs @ a # ys) addr = space_at (vm_ranges s) (xs @ a # b # ys) addr"
    and "vr_prev (vm_ranges s' a) = vr_prev (vm_ranges s a)" and "space_of sp s' = space_of sp s"
proof -
  note D = ranges_okD [OF ok]
  have dist: "distinct (xs @ a # b # ys)" using D(2) by (rule in_order_distinct)
  have nb: "vr_next (vm_ranges s b) = (case ys of [] \<Rightarrow> None | y # _ \<Rightarrow> Some y)"
    using D(1) by (auto simp: nchain_append range_next_def split: list.split)
  have refs: "VMM_FLAGS_FILE \<in> vr_flags (vm_ranges s a) \<longrightarrow> (\<exists>v. vr_vnode (vm_ranges s a) = Some v \<and> 1 < vnode_refs (vm_frames s) v)"
  proof
    assume f: "VMM_FLAGS_FILE \<in> vr_flags (vm_ranges s a)"
    obtain v where v: "vr_vnode (vm_ranges s a) = Some v" using D(3) f by (auto simp: refs_ok_def)
    then have "uses (vm_ranges s) v a" "uses (vm_ranges s) v b" using f j by (auto simp: uses_def joinable_def)
    then have "2 \<le> length (filter (uses (vm_ranges s) v) (xs @ a # b # ys))" by simp
    moreover have "int (length (filter (uses (vm_ranges s) v) (xs @ a # b # ys))) \<le> vnode_refs (vm_frames s) v"
      using D(3) unfolding refs_ok_def by blast
    ultimately show "\<exists>v. vr_vnode (vm_ranges s a) = Some v \<and> 1 < vnode_refs (vm_frames s) v" using v by auto
  qed
  have ne: "a \<noteq> b" "vr_next (vm_ranges s b) \<noteq> Some a" using dist nb by (auto split: list.splits)
  obtain s' where s': "join a b s = Some s'" "space_of sp s' = space_of sp s"
      "\<And>r. r \<noteq> a \<Longrightarrow> r \<noteq> b \<Longrightarrow> content (vm_ranges s' r) = content (vm_ranges s r)"
      "\<And>r. vr_next (vm_ranges s' r) = (if r = a then vr_next (vm_ranges s b) else vr_next (vm_ranges s r))"
      "content (vm_ranges s' a) = content ((vm_ranges s a)\<lparr>vr_size := vr_size (vm_ranges s a) + vr_size (vm_ranges s b)\<rparr>)"
      "vr_prev (vm_ranges s' a) = vr_prev (vm_ranges s a)" "vr_size (vm_ranges s' b) = 0"
      "\<And>v. vnode_refs (vm_frames s') v = vnode_refs (vm_frames s) v - (if uses (vm_ranges s) v a then 1 else 0)"
      "\<And>xs ys. managed s (xs @ a # b # ys) \<Longrightarrow> distinct (xs @ a # b # ys) \<Longrightarrow> vr_size (vm_ranges s a) + vr_size (vm_ranges s b) \<noteq> 0
        \<Longrightarrow> managed s' (xs @ a # ys)"
    by (rule join_result [where sp = sp, OF refs ne]) (rule that)
  obtain m where m: "in_order (vm_ranges s) (unat (sp_start (space_of sp s))) xs m"
      "in_order (vm_ranges s) m (a # b # ys) (unat (sp_end (space_of sp s)))" using D(2) unfolding in_order_append by blast
  have le: "ntop (vm_ranges s a) \<le> unat (vr_start (vm_ranges s b))" using m(2) by simp
  have lt: "ntop (vm_ranges s b) < 2 ^ 64"
    by (rule le_less_trans [OF conjunct2 [OF in_order_bounds [OF m(2)]] unat_below]) simp
  note J = join_content [OF j le lt s'(5)]
  have same: "content (vm_ranges s' r) = content (vm_ranges s r)" if "r \<in> set xs \<union> set ys" for r
    using that dist by (intro s'(3)) auto
  have "unat (vr_start (vm_ranges s' a)) < ntop (vm_ranges s' a)"
    using m(2) ntop_pos [of "vm_ranges s a"] ntop_pos [of "vm_ranges s b"] le unfolding J(1,2) by simp
  then have pos: "0 < vr_size (vm_ranges s' a)" unfolding ntop_pos_iff .
  then have "vr_size (vm_ranges s a) + vr_size (vm_ranges s b) \<noteq> 0" using content_fields(2) [OF s'(5)] by auto
  then have man: "managed s' (xs @ a # ys)" by (rule s'(9) [OF D(4) dist])
  from pos have ord: "in_order (vm_ranges s') (unat (sp_start (space_of sp s))) (xs @ a # ys) (unat (sp_end (space_of sp s)))"
    by (rule in_order_extend [where R' = "vm_ranges s'" and R = "vm_ranges s", OF D(2) J(2,1)]) (rule same)
  have xs: "nchain (range_next s) (sp_ranges (space_of sp s)) xs (Some a)" and ys: "nchain (range_next s) (vr_next (vm_ranges s b)) ys None"
    using D(1) by (auto simp: nchain_append range_next_def)
  have "nchain (range_next s') (sp_ranges (space_of sp s)) xs (Some a)" "nchain (range_next s') (vr_next (vm_ranges s b)) ys None"
    by (rule nchain_frame [OF xs], use dist in \<open>auto simp: range_next_def s'(4)\<close>) (rule nchain_frame [OF ys], use dist in \<open>auto simp: range_next_def s'(4)\<close>)
  then have ch: "nchain (range_next s') (sp_ranges (space_of sp s)) (xs @ a # ys) None"
    unfolding nchain_append by (intro exI [of _ "Some a"]) (simp add: range_next_def s'(4))
  have xs: "space_at (vm_ranges s') xs addr = space_at (vm_ranges s) xs addr" for addr by (rule space_at_cong) (simp add: same)
  have ys: "space_at (vm_ranges s') ys addr = space_at (vm_ranges s) ys addr" for addr by (rule space_at_cong) (simp add: same)
  have "space_at (vm_ranges s') (xs @ a # ys) addr = space_at (vm_ranges s) (xs @ a # b # ys) addr" for addr
    unfolding space_at_append space_at_Cons xs ys J(3,4,5) by (simp split: option.split)
  moreover have "refs_ok s' (xs @ a # ys)"
    using refs_ok_drop [OF D(3) j same _ _ s'(8)] content_fields(3,5) [OF s'(5)] by simp
  ultimately show ?thesis using ord ch man s'(2,6) by (intro that [OF s'(1)]) (auto simp: ranges_ok_def)
qed

lemma insert_after_ok:
  assumes "nchain (range_next s) (vr_next (vm_ranges s r)) rs None" and "in_order (vm_ranges s) lo (r # rs) hi" and "hi < 2 ^ 64"
    and "ntop (vm_ranges s r) \<le> unat st" and "unat st < nt" and "nt \<le> hi"
    and "\<And>q. q \<in> set rs \<Longrightarrow> ntop (vm_ranges s q) \<le> unat st \<or> nt \<le> unat (vr_start (vm_ranges s q))"
  shows "\<exists>xs q ys. r # rs = xs @ q # ys \<and> insert_after st r s = Some (q, ys \<noteq> []) \<and> in_order (vm_ranges s) lo (xs @ [q]) (unat st)
    \<and> in_order (vm_ranges s) nt ys hi"
  using assms
proof (induction rs arbitrary: r lo)
  case Nil
  then have "insert_after st r s = Some (r, False)" by (subst insert_after.simps) simp
  with Nil show ?case by (intro exI [of _ "[]"]) simp
next
  case (Cons n rs)
  have n: "vr_next (vm_ranges s r) = Some n" "in_order (vm_ranges s) (ntop (vm_ranges s r)) (n # rs) hi" using Cons.prems by simp_all
  have top: "unat (RANGE_TOP (vm_ranges s r)) = ntop (vm_ranges s r)" by (rule ntop_RANGE_TOP) (rule le_less_trans [OF Cons.prems(4) unat_below])
  show ?case
  proof (cases "st < vr_start (vm_ranges s n)")
    case True
    then have "insert_after st r s = Some (r, True)" using n top Cons.prems(4) by (subst insert_after.simps) (simp add: word_le_nat_alt)
    moreover have "in_order (vm_ranges s) nt (n # rs) hi"
      using Cons.prems(7) [of n] n(2) True ntop_pos [of "vm_ranges s n"] by (auto simp: word_less_nat_alt)
    ultimately show ?thesis using Cons.prems(2,4) by (intro exI [of _ "[]"]) simp
  next
    case False
    then have i: "insert_after st r s = insert_after st n s" using n by (subst insert_after.simps) simp
    have "ntop (vm_ranges s n) \<le> unat st" using Cons.prems(5) Cons.prems(7) [of n] False by (auto simp: word_less_nat_alt)
    with Cons.IH [OF _ n(2) Cons.prems(3) _ Cons.prems(5,6)] Cons.prems(1,7) obtain xs q ys where
      "n # rs = xs @ q # ys" "insert_after st n s = Some (q, ys \<noteq> [])" "in_order (vm_ranges s) (ntop (vm_ranges s r)) (xs @ [q]) (unat st)"
      "in_order (vm_ranges s) nt ys hi" by (auto simp: range_next_def)
    with i Cons.prems(2) show ?thesis by (intro exI [of _ "r # xs"] exI [of _ q] exI [of _ ys]) simp
  qed
qed

text \<open>The new range linked in its place; only the next pointers of the list are claimed.\<close>

lemma link_range_ok:
  fixes e :: u64
  assumes ch: "nchain (range_next s) (sp_ranges (space_of sp s)) (r # rs) None"
    and ord: "in_order (vm_ranges s) lo (r # rs) (unat e)" and new: "new \<notin> set (r # rs)"
    and x: "lo \<le> unat (vr_start (vm_ranges s new))" "0 < vr_size (vm_ranges s new)" "ntop (vm_ranges s new) \<le> unat e"
    and dis: "\<forall>q\<in>set (r # rs). ntop (vm_ranges s q) \<le> unat (vr_start (vm_ranges s new)) \<or> ntop (vm_ranges s new) \<le> unat (vr_start (vm_ranges s q))"
  obtains xs ys s' where "r # rs = xs @ ys" and "link_range sp new r s = Some s'"
    and "nchain (range_next s') (sp_ranges (space_of sp s')) (xs @ new # ys) None" and "in_order (vm_ranges s') lo (xs @ new # ys) (unat e)"
    and "vr_prev (vm_ranges s' new) = (if xs = [] then None else Some (last xs))" and "\<And>q. content (vm_ranges s' q) = content (vm_ranges s q)"
    and "sp_start (space_of sp s') = sp_start (space_of sp s)" and "sp_end (space_of sp s') = sp_end (space_of sp s)"
    and "vm_frames s' = vm_frames s" and "vm_cachelist s' = vm_cachelist s"
proof (cases "RANGE_TOP (vm_ranges s new) \<le> vr_start (vm_ranges s r)")
  case True
  let ?s = "upd_range new (\<lambda>x. x\<lparr>vr_prev := None\<rparr>) (upd_range r (\<lambda>x. x\<lparr>vr_prev := Some new\<rparr>)
                (upd_range new (\<lambda>x. x\<lparr>vr_next := Some r\<rparr>) (set_ranges sp (Some new) s)))"
  have l: "link_range sp new r s = Some ?s" using True by (simp add: link_range_def)
  have c: "content (vm_ranges ?s q) = content (vm_ranges s q)" for q using new by auto
  have t: "unat (RANGE_TOP (vm_ranges s new)) = ntop (vm_ranges s new)"
    by (rule ntop_RANGE_TOP) (rule le_less_trans [OF x(3) unat_below])
  have "in_order (vm_ranges s) lo ([] @ new # r # rs) (unat e)" using x ord True t by (simp add: word_le_nat_alt)
  then have o': "in_order (vm_ranges ?s) lo ([] @ new # r # rs) (unat e)" by (subst in_order_cong [OF c]) simp_all
  have ch': "nchain (range_next ?s) (sp_ranges (space_of sp ?s)) ([] @ new # r # rs) None"
    using ch new by (auto simp: range_next_def elim!: nchain_frame)
  show ?thesis by (rule that [OF _ l ch' o' _ c]) (use new in auto)
next
  case False
  have t: "unat (RANGE_TOP (vm_ranges s new)) = ntop (vm_ranges s new)"
    by (rule ntop_RANGE_TOP) (rule le_less_trans [OF x(3) unat_below])
  have "ntop (vm_ranges s r) \<le> unat (vr_start (vm_ranges s new))" using dis False t by (simp add: word_le_nat_alt)
  moreover have "nchain (range_next s) (vr_next (vm_ranges s r)) rs None" using ch by (simp add: range_next_def)
  ultimately obtain xs q ys where I: "r # rs = xs @ q # ys" "insert_after (vr_start (vm_ranges s new)) r s = Some (q, ys \<noteq> [])"
      "in_order (vm_ranges s) lo (xs @ [q]) (unat (vr_start (vm_ranges s new)))" "in_order (vm_ranges s) (ntop (vm_ranges s new)) ys (unat e)"
    using insert_after_ok [OF _ ord unat_below _ ntop_pos [OF x(2)] x(3)] dis by fastforce
  have q: "q \<in> set (r # rs)" "q \<noteq> new" "new \<notin> set xs" "new \<notin> set ys" "distinct (xs @ q # ys)"
    using I(1) new in_order_distinct [OF ord] by auto
  have nq: "nchain (range_next s) (sp_ranges (space_of sp s)) xs (Some q)" "nchain (range_next s) (vr_next (vm_ranges s q)) ys None"
    using ch unfolding I(1) nchain_append by (auto simp: range_next_def)
  obtain s' where s': "link_range sp new r s = Some s'" "space_of sp s' = space_of sp s" "vm_frames s' = vm_frames s" "vm_cachelist s' = vm_cachelist s"
      "vm_ranges s' = (vm_ranges s)(new := (vm_ranges s new)\<lparr>vr_next := vr_next (vm_ranges s q), vr_prev := Some q\<rparr>,
         q := (vm_ranges s q)\<lparr>vr_next := Some new\<rparr>)"
    using False I(2) q(2) nq(2) by (cases ys) (auto simp: link_range_def fun_eq_iff)
  have c: "content (vm_ranges s' p) = content (vm_ranges s p)" for p using s'(5) by (auto simp: content_def)
  have nx: "range_next s' = (range_next s)(new := vr_next (vm_ranges s q), q := Some new)" using q(2) by (auto simp: fun_eq_iff range_next_def s'(5))
  have "nchain (range_next s') (sp_ranges (space_of sp s)) xs (Some q)"
    by (rule nchain_frame [OF nq(1)]) (use q in \<open>auto simp: nx\<close>)
  moreover have "nchain (range_next s') (vr_next (vm_ranges s q)) ys None"
    by (rule nchain_frame [OF nq(2)]) (use q in \<open>auto simp: nx\<close>)
  ultimately have ch': "nchain (range_next s') (sp_ranges (space_of sp s')) ((xs @ [q]) @ new # ys) None"
    using q(2) by (auto simp: s'(2) nchain_append nx)
  have "in_order (vm_ranges s) lo ((xs @ [q]) @ new # ys) (unat e)"
    unfolding in_order_append [of _ _ "xs @ [q]"] using I(3,4) x(2) by auto
  then have o': "in_order (vm_ranges s') lo ((xs @ [q]) @ new # ys) (unat e)" by (subst in_order_cong [OF c])
  show ?thesis by (rule that [OF _ s'(1) ch' o' _ c]) (use I(1) q(2) s' in simp_all)
qed

lemma refs_ok_move: "refs_ok s (xs @ new # ys) = refs_ok s (new # xs @ ys)"
proof -
  have "length (filter P (xs @ new # ys)) = length (filter P (new # xs @ ys))" for P by simp
  then show ?thesis unfolding refs_ok_def by auto
qed

lemma space_at_new:
  fixes e :: u64
  assumes "in_order R lo (xs @ new # ys) (unat e)"
  shows "space_at R (xs @ new # ys) a = (if covers (R new) a then Some (seen (R new) a) else space_at R (xs @ ys) a)"
proof -
  have "\<not> covers (R q) a" if q: "q \<in> set xs" and c: "covers (R new) a" for q
  proof -
    obtain m where m: "in_order R lo xs m" "in_order R m (new # ys) (unat e)" using assms unfolding in_order_append by blast
    have le: "ntop (R q) \<le> unat (vr_start (R new))" using in_order_bounds [OF m(1) q] m(2) by simp
    have "unat (vr_start (R new)) \<le> unat a" using c by (simp add: covers_def word_le_nat_alt)
    with le covers_nat [OF le_less_trans [OF le unat_below]] show ?thesis by simp
  qed
  then have "covers (R new) a \<Longrightarrow> space_at R xs a = None" by (auto simp: space_at_def find_None_iff)
  then show ?thesis by (auto simp: space_at_append space_at_Cons split: option.split)
qed

lemma join_next_ok:
  assumes ok: "ranges_ok sp s (xs @ new # ys)"
  obtains s' ys' where "join_next new s = Some s'" and "ranges_ok sp s' (xs @ new # ys')"
    and "\<And>a. space_at (vm_ranges s') (xs @ new # ys') a = space_at (vm_ranges s) (xs @ new # ys) a"
    and "vr_prev (vm_ranges s' new) = vr_prev (vm_ranges s new)"
proof (cases ys)
  case Nil
  then have "join_next new s = Some s" using ranges_okD(1) [OF ok] by (simp add: join_next_def nchain_append range_next_def)
  then show ?thesis by (rule that) (use ok in simp_all)
next
  case (Cons b ys')
  then have n: "vr_next (vm_ranges s new) = Some b" using ranges_okD(1) [OF ok] by (auto simp: nchain_append range_next_def)
  show ?thesis
  proof (cases "joinable (vm_ranges s new) (vm_ranges s b)")
    case True
    obtain s' where s': "join new b s = Some s'" "ranges_ok sp s' (xs @ new # ys')"
      "\<And>a. space_at (vm_ranges s') (xs @ new # ys') a = space_at (vm_ranges s) (xs @ new # b # ys') a"
      "vr_prev (vm_ranges s' new) = vr_prev (vm_ranges s new)" "space_of sp s' = space_of sp s"
      by (rule join_ok [OF ok [unfolded Cons] True]) (rule that)
    with n True Cons show ?thesis by (intro that [of s' ys']) (simp_all add: join_next_def)
  next
    case False
    then show ?thesis using n ok by (intro that [of s ys]) (simp_all add: join_next_def)
  qed
qed

lemma join_prev_ok:
  assumes ok: "ranges_ok sp s (xs @ new # ys)" and prev: "vr_prev (vm_ranges s new) = (if xs = [] then None else Some (last xs))"
  obtains s' rs' where "join_prev new s = Some s'" and "ranges_ok sp s' rs'"
    and "\<And>a. space_at (vm_ranges s') rs' a = space_at (vm_ranges s) (xs @ new # ys) a"
proof (cases "xs \<noteq> [] \<and> joinable (vm_ranges s (last xs)) (vm_ranges s new)")
  case True
  then obtain xs' p where xs: "xs = xs' @ [p]" by (metis append_butlast_last_id)
  have ok': "ranges_ok sp s (xs' @ p # new # ys)" and j: "joinable (vm_ranges s p) (vm_ranges s new)" using ok True xs by simp_all
  obtain s' where s': "join p new s = Some s'" "ranges_ok sp s' (xs' @ p # ys)"
      "\<And>a. space_at (vm_ranges s') (xs' @ p # ys) a = space_at (vm_ranges s) (xs' @ p # new # ys) a"
      "vr_prev (vm_ranges s' p) = vr_prev (vm_ranges s p)" "space_of sp s' = space_of sp s"
    by (rule join_ok [OF ok' j]) (rule that)
  have "join_prev new s = Some s'" using prev j s'(1) xs by (simp add: join_prev_def)
  then show ?thesis by (rule that) (use s'(2,3) xs in simp_all)
next
  case False
  then have "join_prev new s = Some s" using prev by (auto simp: join_prev_def)
  then show ?thesis by (rule that) (use ok in simp_all)
qed

text \<open>Insertion as a whole.\<close>

lemma insertrange_space:
  assumes ok: "ranges_ok sp s rs" and new: "new \<notin> set rs" and refs: "refs_ok s (new # rs)" and man: "managed s (new # rs)"
    and x: "unat (sp_start (space_of sp s)) \<le> unat (vr_start (vm_ranges s new))" "0 < vr_size (vm_ranges s new)"
      "ntop (vm_ranges s new) \<le> unat (sp_end (space_of sp s))"
    and gap: "\<forall>q\<in>set rs. ntop (vm_ranges s q) \<le> unat (vr_start (vm_ranges s new)) \<or> ntop (vm_ranges s new) \<le> unat (vr_start (vm_ranges s q))"
  shows "\<exists>s' rs'. insertrange sp new s = Some s' \<and> ranges_ok sp s' rs'
    \<and> (\<forall>a. space_at (vm_ranges s') rs' a = (if covers (vm_ranges s new) a then Some (seen (vm_ranges s new) a) else space_at (vm_ranges s) rs a))"
proof (cases rs)
  case Nil
  let ?s = "upd_range new (\<lambda>x. x\<lparr>vr_next := None, vr_prev := None\<rparr>) (set_ranges sp (Some new) s)"
  have c: "content (vm_ranges ?s q) = content (vm_ranges s q)" for q by (simp add: content_def)
  have "insertrange sp new s = Some ?s" using ranges_okD(1) [OF ok] Nil by (simp add: insertrange_def)
  moreover have "refs_ok ?s [new]" "managed ?s [new]" using refs refs_ok_cong [of "[new]" ?s s] man managed_cong [of ?s s "[new]" "new # rs"] c Nil by simp_all
  then have "ranges_ok sp ?s [new]" using x by (simp add: ranges_ok_def range_next_def) (simp add: ntop_def)
  moreover have "space_at (vm_ranges ?s) [new] a = space_at (vm_ranges s) [new] a" for a by (rule space_at_cong) (rule c)
  ultimately show ?thesis using Nil by (auto simp: space_at_Cons)
next
  case (Cons r rs0)
  note D = ranges_okD [OF ok, unfolded Cons]
  obtain xs ys s1 where s1: "r # rs0 = xs @ ys" "link_range sp new r s = Some s1"
      "nchain (range_next s1) (sp_ranges (space_of sp s1)) (xs @ new # ys) None"
      "in_order (vm_ranges s1) (unat (sp_start (space_of sp s))) (xs @ new # ys) (unat (sp_end (space_of sp s)))"
      "vr_prev (vm_ranges s1 new) = (if xs = [] then None else Some (last xs))" "\<And>q. content (vm_ranges s1 q) = content (vm_ranges s q)"
      "sp_start (space_of sp s1) = sp_start (space_of sp s)" "sp_end (space_of sp s1) = sp_end (space_of sp s)" "vm_frames s1 = vm_frames s"
      "vm_cachelist s1 = vm_cachelist s"
    by (rule link_range_ok [OF D(1,2) new [unfolded Cons] x gap [unfolded Cons]]) (rule that)
  have "refs_ok s (xs @ new # ys)" using refs Cons s1(1) unfolding refs_ok_move by simp
  then have "refs_ok s1 (xs @ new # ys)" using refs_ok_cong [of _ s1 s] s1(6,9) by simp
  moreover have "managed s1 (xs @ new # ys)" using man managed_cong [OF s1(10,6), of "xs @ new # ys" "new # rs"] Cons s1(1) by auto
  ultimately have "ranges_ok sp s1 (xs @ new # ys)" using s1(3,4) by (simp add: ranges_ok_def s1(7,8))
  then obtain s2 ys' where s2: "join_next new s1 = Some s2" "ranges_ok sp s2 (xs @ new # ys')"
      "\<And>a. space_at (vm_ranges s2) (xs @ new # ys') a = space_at (vm_ranges s1) (xs @ new # ys) a"
      "vr_prev (vm_ranges s2 new) = vr_prev (vm_ranges s1 new)"
    by (rule join_next_ok) (rule that)
  obtain s3 rs' where s3: "join_prev new s2 = Some s3" "ranges_ok sp s3 rs'"
      "\<And>a. space_at (vm_ranges s3) rs' a = space_at (vm_ranges s2) (xs @ new # ys') a"
    by (rule join_prev_ok [OF s2(2) s2(4) [unfolded s1(5)]]) (rule that)
  have "sp_ranges (space_of sp s) = Some r" using D(1) by simp
  then have "insertrange sp new s = Some s3" using s1(2) s2(1) s3(1) by (simp add: insertrange_def)
  moreover have "space_at (vm_ranges s3) rs' a = space_at (vm_ranges s) (xs @ new # ys) a" for a
    unfolding s3(3) s2(3) by (rule space_at_cong) (rule s1(6))
  moreover have "in_order (vm_ranges s) (unat (sp_start (space_of sp s))) (xs @ new # ys) (unat (sp_end (space_of sp s)))"
    using s1(4) in_order_cong [OF s1(6)] by simp
  then have "space_at (vm_ranges s) (xs @ new # ys) a = (if covers (vm_ranges s new) a then Some (seen (vm_ranges s new) a) else space_at (vm_ranges s) (xs @ ys) a)" for a
    by (rule space_at_new)
  ultimately show ?thesis using s3(2) s1(1) Cons by auto
qed

text \<open>
  C12: Inserting a range into a space, in the gap \<open>getfreerange\<close> found for it, changes what the space says exactly at the
  addresses of this range, where it becomes what the range says; this holds whichever neighbours the range is joined
  with. The list stays sorted, without overlaps or empty ranges, inside the bounds of the space, and each vnode keeps
  at least one reference for each file range.
\<close>

theorem insertrange_refines:
  assumes ok: "ranges_ok sp s rs" and new: "new \<notin> set rs" and refs: "refs_ok s (new # rs)" and man: "managed s (new # rs)"
    and x: "unat (sp_start (space_of sp s)) \<le> unat (vr_start (vm_ranges s new))" "0 < vr_size (vm_ranges s new)"
      "ntop (vm_ranges s new) \<le> unat (sp_end (space_of sp s))"
    and gap: "\<forall>q\<in>set rs. ntop (vm_ranges s q) \<le> unat (vr_start (vm_ranges s new)) \<or> ntop (vm_ranges s new) \<le> unat (vr_start (vm_ranges s q))"
  shows "\<exists>s' rs'. insertrange sp new s = Some s' \<and> ranges_ok sp s' rs'
    \<and> (\<forall>a. space_at (vm_ranges s') rs' a = (if covers (vm_ranges s new) a then Some (seen (vm_ranges s new) a) else space_at (vm_ranges s) rs a))"
  using assms by (rule insertrange_space)

subsection \<open>Gaps\<close>

definition is_gap :: "(rangeid \<Rightarrow> vmmrange) \<Rightarrow> rangeid list \<Rightarrow> nat \<Rightarrow> nat \<Rightarrow> bool" where
  "is_gap R rs sz b \<longleftrightarrow> (\<forall>q\<in>set rs. ntop (R q) \<le> b \<or> b + sz \<le> unat (vr_start (R q)))"

lemma word_fits: "(a < b \<and> b - a \<ge> sz) \<longleftrightarrow> a < b \<and> unat a + unat sz \<le> unat (b :: u64)"
  by (auto simp: word_le_nat_alt word_less_nat_alt unat_sub)

text \<open>
  What the loop of \<open>getfreerange\<close> establishes from the range \<open>r\<close> on: its result is a gap that ends before \<open>e\<close>, or an address
  after all ranges, and no address from \<open>addr\<close> up to it begins a gap, except before \<open>r\<close>.
\<close>

definition gap_found :: "(rangeid \<Rightarrow> vmmrange) \<Rightarrow> rangeid \<Rightarrow> rangeid list \<Rightarrow> u64 \<Rightarrow> u64 \<Rightarrow> u64 \<Rightarrow> u64 + u64 \<Rightarrow> bool" where
  "gap_found R r rs sz addr e g \<longleftrightarrow>
     (let a = (case g of Inl a \<Rightarrow> a | Inr a \<Rightarrow> a)
      in addr \<le> a \<and> ntop (R r) \<le> unat a
        \<and> (\<forall>b. unat addr \<le> b \<and> b < unat a \<and> \<not> b + unat sz \<le> unat (vr_start (R r)) \<longrightarrow> \<not> is_gap R (r # rs) (unat sz) b)
        \<and> (case g of
             Inl a \<Rightarrow> is_gap R (r # rs) (unat sz) (unat a) \<and> unat a + unat sz \<le> unat e
           | Inr a \<Rightarrow> (a = addr \<or> unat a \<le> unat e) \<and> (\<forall>q\<in>set (r # rs). ntop (R q) \<le> unat a)))"

lemma gap_found_step:
  fixes addr :: u64
  defines "A \<equiv> (\<lambda>x. if addr < RANGE_TOP x then RANGE_TOP x else addr)"
  assumes t: "unat (RANGE_TOP (R r)) = ntop (R r)" "ntop (R r) \<le> unat e" and no: "unat (vr_start (R n)) < unat (A (R r)) + unat sz"
    and g: "gap_found R n rs sz (A (R r)) e g"
  shows "gap_found R r (n # rs) sz addr e g"
proof -
  let ?a = "case g of Inl a \<Rightarrow> a | Inr a \<Rightarrow> a"
  have A: "addr \<le> A (R r)" "ntop (R r) \<le> unat (A (R r))" "A (R r) = addr \<or> unat (A (R r)) \<le> unat e" "A (R r) = addr \<or> unat (A (R r)) = ntop (R r)"
    using t by (auto simp: A_def word_less_nat_alt word_le_nat_alt)
  have a: "A (R r) \<le> ?a" and least: "\<And>b. unat (A (R r)) \<le> b \<Longrightarrow> b < unat ?a \<Longrightarrow> \<not> b + unat sz \<le> unat (vr_start (R n)) \<Longrightarrow> \<not> is_gap R (n # rs) (unat sz) b"
    and tail: "case g of Inl a \<Rightarrow> is_gap R (n # rs) (unat sz) (unat a) \<and> unat a + unat sz \<le> unat e
      | Inr a \<Rightarrow> (a = A (R r) \<or> unat a \<le> unat e) \<and> (\<forall>q\<in>set (n # rs). ntop (R q) \<le> unat a)"
    using g unfolding gap_found_def Let_def by blast+
  have "\<not> is_gap R (r # n # rs) (unat sz) b" if b: "unat addr \<le> b" "b < unat ?a" "\<not> b + unat sz \<le> unat (vr_start (R r))" for b
  proof (cases "b < unat (A (R r))")
    case True
    then show ?thesis using A(4) b by (auto simp: is_gap_def)
  next
    case False
    then have "\<not> is_gap R (n # rs) (unat sz) b" using no b(2) by (intro least) auto
    then show ?thesis by (auto simp: is_gap_def)
  qed
  moreover have "ntop (R r) \<le> unat ?a" "addr \<le> ?a" using A(1,2) a by (auto simp: word_le_nat_alt)
  ultimately show ?thesis using tail A(3)
    by (cases g) (auto simp: gap_found_def is_gap_def)
qed

lemma unat_pos: "0 < unat sz \<longleftrightarrow> 0 < (sz :: u64)"
  unfolding word_less_nat_alt by simp

lemma word_fits_iff: "0 < sz \<Longrightarrow> (a < b \<and> b - a \<ge> sz) \<longleftrightarrow> unat a + unat sz \<le> unat (b :: u64)"
  unfolding word_fits unfolding unat_pos [symmetric] word_less_nat_alt [of a b] by auto

lemma gap_loop_next:
  assumes "vr_next (vm_ranges s r) = Some n" and "0 < sz"
  shows "gap_loop sz addr r s = (let A = (if addr < RANGE_TOP (vm_ranges s r) then RANGE_TOP (vm_ranges s r) else addr)
    in if unat A + unat sz \<le> unat (vr_start (vm_ranges s n)) then Some (Inl A) else gap_loop sz A n s)"
  unfolding gap_loop.simps [of sz addr r] assms(1) Let_def option.case word_fits_iff [OF assms(2)] by (rule refl)

lemma gap_loop_ok:
  assumes "nchain (range_next s) (vr_next (vm_ranges s r)) rs None" and "in_order (vm_ranges s) lo (r # rs) (unat (e :: u64))" and "0 < sz"
  shows "\<exists>g. gap_loop sz addr r s = Some g \<and> gap_found (vm_ranges s) r rs sz addr e g"
  using assms
proof (induction rs arbitrary: r lo addr)
  case Nil
  let ?A = "if addr < RANGE_TOP (vm_ranges s r) then RANGE_TOP (vm_ranges s r) else addr"
  have t: "unat (RANGE_TOP (vm_ranges s r)) = ntop (vm_ranges s r)" "ntop (vm_ranges s r) \<le> unat e"
    using in_order_bounds [OF Nil(2), of r] ntop_RANGE_TOP le_less_trans [OF _ unat_below [of e]] by auto
  have "gap_loop sz addr r s = Some (Inr ?A)" using Nil by (subst gap_loop.simps) simp
  moreover have "addr \<le> ?A" "ntop (vm_ranges s r) \<le> unat ?A" "?A = addr \<or> unat ?A \<le> unat e" using t by (auto simp: word_less_nat_alt word_le_nat_alt)
  moreover have "\<not> is_gap (vm_ranges s) [r] (unat sz) b" if "unat addr \<le> b" "b < unat ?A" "\<not> b + unat sz \<le> unat (vr_start (vm_ranges s r))" for b
    using that t by (auto simp: is_gap_def split: if_splits)
  ultimately show ?case by (simp add: gap_found_def)
next
  case (Cons n rs)
  let ?A = "if addr < RANGE_TOP (vm_ranges s r) then RANGE_TOP (vm_ranges s r) else addr"
  have t: "unat (RANGE_TOP (vm_ranges s r)) = ntop (vm_ranges s r)" "ntop (vm_ranges s r) \<le> unat e"
    using in_order_bounds [OF Cons.prems(2), of r] ntop_RANGE_TOP le_less_trans [OF _ unat_below [of e]] by auto
  have n: "vr_next (vm_ranges s r) = Some n" "nchain (range_next s) (vr_next (vm_ranges s n)) rs None"
      "in_order (vm_ranges s) (ntop (vm_ranges s r)) (n # rs) (unat e)"
    using Cons.prems range_next_def [of s n] by simp_all
  show ?case
  proof (cases "unat ?A + unat sz \<le> unat (vr_start (vm_ranges s n))")
    case True
    then have "gap_loop sz addr r s = Some (Inl ?A)" unfolding gap_loop_next [OF n(1) Cons.prems(3)] Let_def by (rule if_P)
    moreover have A: "addr \<le> ?A" "ntop (vm_ranges s r) \<le> unat ?A" "unat ?A = unat addr \<or> unat ?A = ntop (vm_ranges s r)"
      using t by (auto simp: word_less_nat_alt word_le_nat_alt)
    moreover have gap: "unat ?A + unat sz \<le> unat (vr_start (vm_ranges s q)) \<and> unat ?A + unat sz \<le> unat e" if "q \<in> set (n # rs)" for q
      using in_order_bounds [of "vm_ranges s" "unat (vr_start (vm_ranges s n))" "n # rs" "unat e" q] n(3) that True ntop_pos [of "vm_ranges s q"]
        ntop_def [of "vm_ranges s q"] by auto
    have "is_gap (vm_ranges s) (r # n # rs) (unat sz) (unat ?A)" "unat ?A + unat sz \<le> unat e" using A(2) gap gap [of n] by (auto simp: is_gap_def)
    moreover have "\<not> is_gap (vm_ranges s) (r # n # rs) (unat sz) b" if "unat addr \<le> b" "b < unat ?A" "\<not> b + unat sz \<le> unat (vr_start (vm_ranges s r))" for b
      using that A(3) by (auto simp: is_gap_def)
    ultimately show ?thesis by (simp add: gap_found_def)
  next
    case False
    then have "gap_loop sz addr r s = gap_loop sz ?A n s" unfolding gap_loop_next [OF n(1) Cons.prems(3)] Let_def by (rule if_not_P)
    moreover obtain g where "gap_loop sz ?A n s = Some g" "gap_found (vm_ranges s) n rs sz ?A e g"
      using Cons.IH [OF n(2,3) Cons.prems(3)] by blast
    ultimately show ?thesis using gap_found_step [of "vm_ranges s", OF t] False by (auto simp: not_le)
  qed
qed

text \<open>
  In a space that has ranges, \<open>getfreerange\<close> returns the lowest address at or above the one asked for, or in the
  whole space when none was, from which on as many bytes as needed are free and inside the space; it returns the null
  pointer only if there is no such address.
\<close>

lemma getfreerange_lowest_gap:
  assumes ok: "ranges_ok sp s rs" and ne: "rs \<noteq> []" and sz: "0 < sz" and st: "0 < sp_start (space_of sp s)"
    and addr: "addr = 0 \<or> sp_start (space_of sp s) \<le> addr \<and> addr \<le> sp_end (space_of sp s)"
  shows "\<exists>a. getfreerange sp addr sz s = Some a
    \<and> (let lo = unat (if addr = 0 then sp_start (space_of sp s) else addr);
           fits = (\<lambda>b. lo \<le> b \<and> b + unat sz \<le> unat (sp_end (space_of sp s)) \<and> is_gap (vm_ranges s) rs (unat sz) b)
       in if a = 0 then \<forall>b. \<not> fits b else fits (unat a) \<and> (\<forall>b<unat a. \<not> fits b))"
proof -
  obtain r rs0 where rs: "rs = r # rs0" using ne by (cases rs) auto
  define A where "A = (if addr = 0 then sp_start (space_of sp s) else addr)"
  let ?e = "sp_end (space_of sp s)" and ?f = "vr_start (vm_ranges s r)"
  note D = ranges_okD [OF ok, unfolded rs]
  have r: "sp_ranges (space_of sp s) = Some r" "nchain (range_next s) (vr_next (vm_ranges s r)) rs0 None"
    using D(1) by (simp_all add: range_next_def [of s r])
  have bounds: "unat ?f \<le> unat (vr_start (vm_ranges s q)) \<and> ntop (vm_ranges s q) \<le> unat ?e" if "q \<in> set rs" for q
    using in_order_bounds [of "vm_ranges s" "unat ?f" rs "unat ?e" q] D(2) that rs by simp
  have "unat ?f \<le> unat ?e" using bounds [of r] rs by (simp add: ntop_def)
  moreover have A: "0 < A" "sp_start (space_of sp s) \<le> A" "unat A \<le> unat ?e"
    using addr st D(2) in_order_bounds [OF D(2), of r] \<open>unat ?f \<le> unat ?e\<close> by (auto simp: A_def word_le_nat_alt intro: word_gt_0 [THEN iffD2])
  ultimately have first: "?f \<noteq> sp_start (space_of sp s) \<and> A < ?f \<and> ?f - A \<ge> sz \<longleftrightarrow> unat A + unat sz \<le> unat ?f"
    using word_fits_iff [OF sz, of A ?f] unat_pos [of sz] sz by (auto simp: word_le_nat_alt)
  have G: "getfreerange sp addr sz s = (if unat A + unat sz \<le> unat ?f then Some A
    else do { g \<leftarrow> gap_loop sz A r s;
      (case g of Inl gap \<Rightarrow> Some gap | Inr a \<Rightarrow> Some (if a \<noteq> ?e \<and> ?e - a \<ge> sz then a else 0)) })"
    unfolding getfreerange_def Let_def r(1) A_def [symmetric] option.case first ..
  show ?thesis
  proof (cases "unat A + unat sz \<le> unat ?f")
    case True
    moreover have "is_gap (vm_ranges s) rs (unat sz) (unat A)" using True bounds by (fastforce simp: is_gap_def)
    ultimately show ?thesis using G A(1) \<open>unat ?f \<le> unat ?e\<close> unfolding A_def [symmetric] by (auto simp: Let_def)
  next
    case False
    obtain g where g: "gap_loop sz A r s = Some g" "gap_found (vm_ranges s) r rs0 sz A ?e g"
      using gap_loop_ok [OF r(2) D(2) sz] by blast
    define a where "a = (case g of Inl a \<Rightarrow> a | Inr a \<Rightarrow> a)"
    have a: "A \<le> a" "0 < a" and least: "\<And>b. unat A \<le> b \<Longrightarrow> b < unat a \<Longrightarrow> \<not> is_gap (vm_ranges s) rs (unat sz) b"
      using g(2) A(1) False unfolding gap_found_def Let_def rs a_def [symmetric] by (auto dest: order_less_le_trans)
    show ?thesis
    proof (cases g)
      case (Inl x)
      then have "getfreerange sp addr sz s = Some a" "is_gap (vm_ranges s) rs (unat sz) (unat a)" "unat a + unat sz \<le> unat ?e"
        using G False g unfolding gap_found_def rs by (simp_all add: a_def)
      then show ?thesis using a least unfolding A_def [symmetric] by (auto simp: Let_def word_le_nat_alt)
    next
      case (Inr x)
      then have x: "a = x" "a = A \<or> unat a \<le> unat ?e" "is_gap (vm_ranges s) rs (unat sz) (unat a)"
        using g unfolding gap_found_def rs is_gap_def by (auto simp: a_def)
      then have le: "unat a \<le> unat ?e" using A(3) by auto
      then have "a \<noteq> ?e \<longleftrightarrow> a < ?e" unfolding word_le_nat_alt [symmetric] by auto
      then have "a \<noteq> ?e \<and> ?e - a \<ge> sz \<longleftrightarrow> unat a + unat sz \<le> unat ?e" using word_fits_iff [OF sz, of a ?e] by metis
      then have "getfreerange sp addr sz s = Some (if unat a + unat sz \<le> unat ?e then a else 0)"
        using G False g(1) Inr x(1) by simp
      with x(3) a least show ?thesis unfolding A_def [symmetric] by (auto simp: Let_def word_le_nat_alt)
    qed
  qed
qed

subsection \<open>Concrete states\<close>

text \<open>A kernel with the range 2 of two pages at 0x3000 in the user space, and the range 3 beside it.\<close>

definition ex_range :: "u64 \<Rightarrow> u64 \<Rightarrow> vmmrange" where
  "ex_range st sz = \<lparr>vr_next = None, vr_prev = None, vr_start = st, vr_size = sz, vr_flags = {}, vr_mmuflags = 7, vr_vnode = None, vr_offset = 0\<rparr>"

definition ex_ranges :: "rangeid \<Rightarrow> vmmrange" where
  "ex_ranges = (\<lambda>_. ex_range 0 0)(RangeId 0 2 := ex_range 0x3000 0x2000, RangeId 0 3 := ex_range 0x5000 0x1000)"

definition ex_vmm :: vmm where
  "ex_vmm = \<lparr>vm_cachelist = [\<lparr>rc_frame = 0, rc_freecount = 61, rc_firstfree = 0\<rparr>], vm_ranges = ex_ranges,
     vm_kernelspace = \<lparr>sp_ranges = None, sp_start = KERNELSPACE_START, sp_end = KERNELSPACE_END\<rparr>,
     vm_contexts = \<lambda>_. \<lparr>cx_space = \<lparr>sp_ranges = Some (RangeId 0 2), sp_start = USERSPACE_START, sp_end = USERSPACE_END\<rparr>, cx_pagetable = 0x1000\<rparr>,
     vm_current = 0, vm_thread = Some 0, vm_cr3 = 0x1000, vm_template = 0, vm_tables = \<lambda>_ _. 0, vm_frames = Vmmcache.ex_cache {},
     vm_contents = \<lambda>_ _. 0, vm_cpus = \<lparr>cp_thread = True, cp_awake = 1, cp_running = None, cp_order = [], cp_me = 0\<rparr>,
     vm_shootdown = \<lparr>shootdown_page = 0, shootdown_size = 0, shootdown_remaining = 0, tlbs = \<lambda>_. {}\<rparr>,
     vm_zeropage = 0, vm_sigbus = 0\<rparr>"

lemma ex_vmm_space: "space_of (USER_SPACE 0) ex_vmm = \<lparr>sp_ranges = Some (RangeId 0 2), sp_start = 0x1000, sp_end = 0x800000000000\<rparr>"
  by (simp add: space_of_def ex_vmm_def USERSPACE_START_def USERSPACE_END_def)

lemma ex_vmm_ranges: "vm_ranges ex_vmm = ex_ranges" "ex_ranges (RangeId 0 2) = ex_range 0x3000 0x2000" "ex_ranges (RangeId 0 3) = ex_range 0x5000 0x1000"
  by (simp_all add: ex_vmm_def ex_ranges_def)

lemma ex_vmm_refs: "refs_ok ex_vmm [RangeId 0 2]" "refs_ok ex_vmm [RangeId 0 3, RangeId 0 2]"
  by (simp_all add: refs_ok_def uses_def ex_vmm_ranges ex_range_def) (simp_all add: ex_vmm_def Vmmcache.ex_cache_def vmmcache_init_def pmm.extend_def)

lemma ex_vmm_managed: "managed ex_vmm [RangeId 0 3, RangeId 0 2]"
proof -
  have "{i. i < VMM_RANGES_PER_CACHE \<and> vr_size (vm_ranges ex_vmm (RangeId 0 i)) = 0} = {..<63} - {2, 3}"
    by (auto simp: VMM_RANGES_PER_CACHE_def ex_vmm_ranges(1) ex_ranges_def ex_range_def)
  then have "caches_ok ex_vmm" by (simp add: caches_ok_def) (simp add: ex_vmm_def)
  then show ?thesis by (simp add: managed_def in_use_def VMM_RANGES_PER_CACHE_def ex_vmm_ranges ex_range_def) (simp add: ex_vmm_def)
qed

lemma ex_vmm_ok: "ranges_ok (USER_SPACE 0) ex_vmm [RangeId 0 2]"
  using ex_vmm_refs(1) ex_vmm_managed by (simp add: managed_def) (simp add: ranges_ok_def managed_def ex_vmm_space range_next_def ex_vmm_ranges ex_range_def ntop_def)

theorem insertrange_refines_witness:
  "\<exists>s' rs'. insertrange (USER_SPACE 0) (RangeId 0 3) ex_vmm = Some s' \<and> ranges_ok (USER_SPACE 0) s' rs'
     \<and> space_at (vm_ranges s') rs' 0x5123 = Some ({}, 7, None) \<and> space_at (vm_ranges s') rs' 0x6000 = None"
proof -
  have "RangeId 0 3 \<notin> set [RangeId 0 2]" "unat (sp_start (space_of (USER_SPACE 0) ex_vmm)) \<le> unat (vr_start (vm_ranges ex_vmm (RangeId 0 3)))"
      "0 < vr_size (vm_ranges ex_vmm (RangeId 0 3))" "ntop (vm_ranges ex_vmm (RangeId 0 3)) \<le> unat (sp_end (space_of (USER_SPACE 0) ex_vmm))"
      "\<forall>q\<in>set [RangeId 0 2]. ntop (vm_ranges ex_vmm q) \<le> unat (vr_start (vm_ranges ex_vmm (RangeId 0 3)))
        \<or> ntop (vm_ranges ex_vmm (RangeId 0 3)) \<le> unat (vr_start (vm_ranges ex_vmm q))"
    by (simp_all add: ex_vmm_space ex_vmm_ranges ex_range_def ntop_def)
  from insertrange_refines [OF ex_vmm_ok this(1) ex_vmm_refs(2) ex_vmm_managed this(2-5)] obtain s' rs' where
    "insertrange (USER_SPACE 0) (RangeId 0 3) ex_vmm = Some s'" "ranges_ok (USER_SPACE 0) s' rs'"
    "\<And>a. space_at (vm_ranges s') rs' a = (if covers (vm_ranges ex_vmm (RangeId 0 3)) a then Some (seen (vm_ranges ex_vmm (RangeId 0 3)) a)
       else space_at (vm_ranges ex_vmm) [RangeId 0 2] a)" by blast
  then show ?thesis by (intro exI [of _ s'] exI [of _ rs']) (simp add: ex_vmm_ranges ex_range_def covers_def RANGE_TOP_def seen_def space_at_Cons)
qed

end
