(* ===== verification/Vmm.thy ===== *)
theory Vmm
  imports Vmranges
begin

text \<open>
  The operations of the virtual memory manager: \<^verbatim>\<open>src/kernel-src/mm/vmm.c\<close>, from \<open>destroyrange\<close> on.

  What the file systems and drivers do is a parameter, the record \<open>vnode_ops\<close>. The lock of a space makes an operation one
  step. A failed assertion, a null pointer that is followed and a loop that does not end are \<open>None\<close>.
\<close>

subsection \<open>Calls to other components\<close>

datatype v_fflag = V_FFLAGS_READ | V_FFLAGS_WRITE | V_FFLAGS_SHARED | V_FFLAGS_EXEC

record vnode_ops =
  vn_is_file :: "vnode \<Rightarrow> bool"
  vn_iscacheable :: "vnode \<Rightarrow> bool"
  vn_getpage :: "vnode \<Rightarrow> u64 \<Rightarrow> errno"
  vn_access_write :: "vnode \<Rightarrow> errno"
  vn_mmap :: "vnode \<Rightarrow> u64 \<Rightarrow> u64 \<Rightarrow> v_fflag set \<Rightarrow> vmm \<Rightarrow> (errno \<times> vmm) option"
  vn_munmap :: "vnode \<Rightarrow> u64 \<Rightarrow> u64 \<Rightarrow> v_fflag set \<Rightarrow> vmm \<Rightarrow> (errno \<times> vmm) option"

definition mmuflagstovnodeflags :: "u64 \<Rightarrow> v_fflag set" where
  "mmuflagstovnodeflags mmuflags =
     (if mmuflags AND ARCH_MMU_FLAGS_READ \<noteq> 0 then {V_FFLAGS_READ} else {})
     \<union> (if mmuflags AND ARCH_MMU_FLAGS_WRITE \<noteq> 0 then {V_FFLAGS_WRITE} else {})
     \<union> (if mmuflags AND ARCH_MMU_FLAGS_NOEXEC = 0 then {V_FFLAGS_EXEC} else {})"

definition vnodeflagstommuflags :: "v_fflag set \<Rightarrow> u64" where
  "vnodeflagstommuflags flags =
     ARCH_MMU_FLAGS_USER
     OR (if V_FFLAGS_READ \<in> flags then ARCH_MMU_FLAGS_READ else 0)
     OR (if V_FFLAGS_WRITE \<in> flags then ARCH_MMU_FLAGS_WRITE else 0)
     OR (if V_FFLAGS_EXEC \<notin> flags then ARCH_MMU_FLAGS_NOEXEC else 0)"

text \<open>The flags \<open>VOP_MMAP\<close> and \<open>VOP_MUNMAP\<close> get for a range.\<close>

definition map_fflags :: "vmmrange \<Rightarrow> v_fflag set" where
  "map_fflags x = mmuflagstovnodeflags (vr_mmuflags x) \<union> (if VMM_FLAGS_SHARED \<in> vr_flags x then {V_FFLAGS_SHARED} else {})"

text \<open>The page table of the current context, and the operations on it and on the frames.\<close>

definition pagetable :: "vmm \<Rightarrow> u64" where
  "pagetable s = cx_pagetable (vm_contexts s (vm_current s))"

definition map_in :: "u64 \<Rightarrow> u64 \<Rightarrow> u64 \<Rightarrow> u64 \<Rightarrow> vmm \<Rightarrow> (bool \<times> vmm) option" where
  "map_in pt paddr vaddr flags s = do {
     (b, mem, f) \<leftarrow> arch_mmu_map (pmm_frame vmmcache_takepage) pt paddr vaddr flags (vm_tables s, vm_frames s);
     Some (b, s\<lparr>vm_tables := mem, vm_frames := f\<rparr>)
   }"

definition unmap_page :: "u64 \<Rightarrow> vmm \<Rightarrow> vmm" where
  "unmap_page vaddr s = s\<lparr>vm_tables := arch_mmu_unmap (pagetable s) vaddr (vm_tables s)\<rparr>"

definition remap_in :: "u64 \<Rightarrow> u64 \<Rightarrow> u64 \<Rightarrow> u64 \<Rightarrow> vmm \<Rightarrow> vmm" where
  "remap_in pt paddr vaddr flags s = s\<lparr>vm_tables := arch_mmu_remap pt paddr vaddr flags (vm_tables s)\<rparr>"

definition physical_of :: "vmm \<Rightarrow> u64 \<Rightarrow> u64" where
  "physical_of s vaddr = arch_mmu_getphysical (vm_tables s) (pagetable s) vaddr"

definition invalidate :: "u64 \<Rightarrow> u64 \<Rightarrow> vmm \<Rightarrow> vmm option" where
  "invalidate addr sz s = do {
     let c = vm_cpus s;
     d \<leftarrow> arch_mmu_invalidate_range (cp_thread c) (cp_awake c) (cp_running c) (cp_order c) (cp_me c) addr sz (vm_shootdown s);
     Some (s\<lparr>vm_shootdown := d\<rparr>)
   }"

definition holdframe :: "u64 \<Rightarrow> vmm \<Rightarrow> vmm option" where
  "holdframe addr s = do { f \<leftarrow> pmm_hold (unat addr) (vm_frames s); Some (s\<lparr>vm_frames := f\<rparr>) }"

definition releaseframe :: "u64 \<Rightarrow> vmm \<Rightarrow> vmm option" where
  "releaseframe addr s = do { f \<leftarrow> pmm_release (unat addr) (vm_frames s); Some (s\<lparr>vm_frames := f\<rparr>) }"

definition makedirty :: "u64 \<Rightarrow> vmm \<Rightarrow> vmm option" where
  "makedirty addr s = do { (_, f) \<leftarrow> vmmcache_makedirty (pmm_getpage (unat addr)) (vm_frames s); Some (s\<lparr>vm_frames := f\<rparr>) }"

text \<open>
  The loop \<open>for (i = off; i < lim; i += PAGE_SIZE)\<close>. The body says whether the loop goes on; the result says whether it
  reached its end.
\<close>

partial_function (option) for_pages :: "u64 \<Rightarrow> u64 \<Rightarrow> (u64 \<Rightarrow> vmm \<Rightarrow> (bool \<times> vmm) option) \<Rightarrow> vmm \<Rightarrow> (bool \<times> vmm) option" where
  "for_pages off lim act s =
     (if off < lim then do {
        (go, s) \<leftarrow> act off s;
        (if go then for_pages (off + PAGE_SIZE) lim act s else Some (False, s))
      }
      else Some (True, s))"

declare for_pages.simps [code]

subsection \<open>Taking a range apart\<close>

text \<open>One turn of the loop of \<open>destroyrange\<close>.\<close>

definition destroy_page :: "vnode_ops \<Rightarrow> vmmrange \<Rightarrow> u64 \<Rightarrow> vmm \<Rightarrow> (bool \<times> vmm) option" where
  "destroy_page ops x offset s =
     (let vaddr = vr_start x + offset; physical = physical_of s vaddr
      in if physical = 0 then Some (True, s)
         else if VMM_FLAGS_FILE \<in> vr_flags x then do {
           v \<leftarrow> vr_vnode x;
           if VMM_FLAGS_SHARED \<in> vr_flags x \<or> \<not> vn_iscacheable ops v
           then
             if \<not> vn_iscacheable ops v then do {
               (e, s) \<leftarrow> vn_munmap ops v vaddr (vr_offset x + offset) (map_fflags x) s;
               if e = E_OK then Some (True, s) else None
             }
             else if arch_mmu_iswritable (vm_tables s) (pagetable s) vaddr then do {
               s \<leftarrow> makedirty physical (unmap_page vaddr s);
               s \<leftarrow> releaseframe physical s;
               Some (True, s)
             }
             else do { s \<leftarrow> releaseframe physical (unmap_page vaddr s); Some (True, s) }
           else if VMM_FLAGS_PHYSICAL \<in> vr_flags x then Some (True, unmap_page vaddr s)
           else do { s \<leftarrow> releaseframe physical (unmap_page vaddr s); Some (True, s) }
         }
         else if VMM_FLAGS_PHYSICAL \<in> vr_flags x then Some (True, unmap_page vaddr s)
         else do { s \<leftarrow> releaseframe physical (unmap_page vaddr s); Some (True, s) })"

definition destroyrange :: "vnode_ops \<Rightarrow> rangeid \<Rightarrow> u64 \<Rightarrow> u64 \<Rightarrow> vmm \<Rightarrow> vmm option" where
  "destroyrange ops r offset sz s = do {
     (_, s) \<leftarrow> for_pages offset (offset + sz) (destroy_page ops (vm_ranges s r)) s;
     if VMM_FLAGS_FILE \<in> vr_flags (vm_ranges s r) \<and> vr_size (vm_ranges s r) = sz then release_vnode r s else Some s
   }"

text \<open>The flags that are set now and will not be: \<open>CHANGE_MASK_CHECK\<close> for the four protection flags.\<close>

definition CHANGE_MASK_CHECK :: "u64 \<Rightarrow> u64 \<Rightarrow> u64 \<Rightarrow> u64" where
  "CHANGE_MASK_CHECK f c n = (if n AND f = 0 \<and> c AND f \<noteq> 0 then f else 0)"

definition lost_flags :: "u64 \<Rightarrow> u64 \<Rightarrow> u64" where
  "lost_flags c n = CHANGE_MASK_CHECK ARCH_MMU_FLAGS_READ c n OR CHANGE_MASK_CHECK ARCH_MMU_FLAGS_WRITE c n
     OR CHANGE_MASK_CHECK ARCH_MMU_FLAGS_USER c n OR CHANGE_MASK_CHECK ARCH_MMU_FLAGS_NOEXEC c n"

definition changemmu_page :: "vnode_ops \<Rightarrow> vmmrange \<Rightarrow> u64 \<Rightarrow> u64 \<Rightarrow> u64 \<Rightarrow> vmm \<Rightarrow> (bool \<times> vmm) option" where
  "changemmu_page ops x base newflags offset s =
     (let address = base + offset
      in case arch_mmu_getflags (vm_tables s) (pagetable s) address of
           None \<Rightarrow> Some (True, s)
         | Some currentflags \<Rightarrow>
             let physical = physical_of s address; lost = lost_flags currentflags newflags
             in do {
               s \<leftarrow> (if VMM_FLAGS_FILE \<in> vr_flags x \<and> VMM_FLAGS_SHARED \<in> vr_flags x \<and> lost AND ARCH_MMU_FLAGS_WRITE \<noteq> 0
                     then do { v \<leftarrow> vr_vnode x; (if vn_iscacheable ops v then makedirty physical s else Some s) }
                     else Some s);
               Some (True, if lost \<noteq> 0 then remap_in (pagetable s) physical address (currentflags AND NOT lost) s else s)
             })"

definition changemmurange :: "vnode_ops \<Rightarrow> rangeid \<Rightarrow> u64 \<Rightarrow> u64 \<Rightarrow> u64 \<Rightarrow> vmm \<Rightarrow> vmm option" where
  "changemmurange ops r base sz newflags s = do {
     (_, s) \<leftarrow> for_pages 0 sz (changemmu_page ops (vm_ranges s r) base newflags) s;
     Some s
   }"

definition canwritevnode :: "vnode_ops \<Rightarrow> vmmrange \<Rightarrow> bool option" where
  "canwritevnode ops x = do { v \<leftarrow> vr_vnode x; Some (vn_access_write ops v = E_OK) }"

subsection \<open>Changing a part of a space\<close>

text \<open>Whether the credential check of \<open>changemap\<close> refuses the new protection.\<close>

definition denied :: "vnode_ops \<Rightarrow> vmm_flag set \<Rightarrow> vmmrange \<Rightarrow> bool option" where
  "denied ops flags x =
     (if VMM_FLAGS_CREDCHECK \<in> flags \<and> VMM_FLAGS_SHARED \<in> vr_flags x \<and> VMM_FLAGS_FILE \<in> vr_flags x
      then do { w \<leftarrow> canwritevnode ops x; Some (\<not> w) } else Some False)"

text \<open>
  The four cases of the loop of \<open>changemap\<close>. Each returns the error with which the loop is left, or \<open>E_OK\<close>, and the spare range structure. The
  last steps of the three cases that split a range are common to them.
\<close>

definition insert_new :: "spaceid \<Rightarrow> rangeid option \<Rightarrow> vmm \<Rightarrow> (errno \<times> rangeid option \<times> vmm) option" where
  "insert_new sp newrange s = do {
     new \<leftarrow> newrange;
     s \<leftarrow> insertrange sp new s;
     (n, s) \<leftarrow> allocrange s;
     Some (if n = None then ENOMEM else E_OK, n, s)
   }"

definition set_new :: "vnode_ops \<Rightarrow> rangeid \<Rightarrow> rangeid \<Rightarrow> u64 \<Rightarrow> u64 \<Rightarrow> u64 \<Rightarrow> u64 \<Rightarrow> vmm \<Rightarrow> vmm option" where
  "set_new ops r new st sz newmmuflags offset s = do {
     let x = vm_ranges s r;
     let s = upd_range new (\<lambda>y. y\<lparr>vr_start := st, vr_size := sz, vr_flags := vr_flags x, vr_mmuflags := newmmuflags\<rparr>) s;
     s \<leftarrow> changemmurange ops r st sz newmmuflags s;
     if VMM_FLAGS_FILE \<in> vr_flags x
     then hold_vnode r (upd_range new (\<lambda>y. y\<lparr>vr_vnode := vr_vnode x, vr_offset := offset\<rparr>) s)
     else Some s
   }"

definition change_whole :: "vnode_ops \<Rightarrow> spaceid \<Rightarrow> bool \<Rightarrow> vmm_flag set \<Rightarrow> u64 \<Rightarrow> rangeid \<Rightarrow> rangeid option \<Rightarrow> vmm
    \<Rightarrow> (errno \<times> rangeid option \<times> vmm) option" where
  "change_whole ops sp free flags newmmuflags r newrange s =
     (let x = vm_ranges s r
      in if free then do {
           let s = (case vr_prev x of
                      Some p \<Rightarrow> upd_range p (\<lambda>y. y\<lparr>vr_next := vr_next x\<rparr>) s
                    | None \<Rightarrow> set_ranges sp (vr_next x) s);
           let s = set_prev_of (vr_next x) (vr_prev x) s;
           s \<leftarrow> destroyrange ops r 0 (vr_size x) s;
           Some (E_OK, newrange, freerange r s)
         }
         else do {
           d \<leftarrow> denied ops flags x;
           if d then Some (EACCES, newrange, s)
           else do {
             s \<leftarrow> changemmurange ops r (vr_start x) (vr_size x) newmmuflags s;
             Some (E_OK, newrange, upd_range r (\<lambda>y. y\<lparr>vr_mmuflags := newmmuflags\<rparr>) s)
           }
         })"

definition change_inside :: "vnode_ops \<Rightarrow> spaceid \<Rightarrow> u64 \<Rightarrow> u64 \<Rightarrow> bool \<Rightarrow> vmm_flag set \<Rightarrow> u64 \<Rightarrow> rangeid \<Rightarrow> rangeid option \<Rightarrow> vmm
    \<Rightarrow> (errno \<times> rangeid option \<times> vmm) option" where
  "change_inside ops sp address sz free flags newmmuflags r newrange s = do {
     let x = vm_ranges s r;
     let rangetop = RANGE_TOP x;
     d \<leftarrow> (if free then Some False else denied ops flags x);
     if d then Some (EACCES, newrange, s)
     else do {
       (n, s) \<leftarrow> allocrange s;
       new \<leftarrow> n;
       let s = upd_range new (\<lambda>_. x) s;
       s \<leftarrow> (if free then destroyrange ops r (address - vr_start x) sz s else Some s);
       let s = upd_range new (\<lambda>y. y\<lparr>vr_start := address + sz, vr_size := rangetop - (address + sz)\<rparr>) s;
       let s = upd_range r (\<lambda>y. y\<lparr>vr_size := address - vr_start y\<rparr>) s;
       let s = set_prev_of (vr_next (vm_ranges s r)) (Some new) s;
       let s = upd_range r (\<lambda>y. y\<lparr>vr_next := Some new\<rparr>) (upd_range new (\<lambda>y. y\<lparr>vr_prev := Some r\<rparr>) s);
       s \<leftarrow> (if VMM_FLAGS_FILE \<in> vr_flags (vm_ranges s r)
             then hold_vnode r (upd_range new (\<lambda>y. y\<lparr>vr_offset := vr_offset y + (vr_size (vm_ranges s r) + sz)\<rparr>) s) else Some s);
       if free then Some (E_OK, newrange, s)
       else do {
         nr \<leftarrow> newrange;
         s \<leftarrow> set_new ops r nr address sz newmmuflags (vr_offset (vm_ranges s r)) s;
         insert_new sp newrange s
       }
     }
   }"

definition change_start :: "vnode_ops \<Rightarrow> spaceid \<Rightarrow> u64 \<Rightarrow> u64 \<Rightarrow> bool \<Rightarrow> vmm_flag set \<Rightarrow> u64 \<Rightarrow> rangeid \<Rightarrow> rangeid option \<Rightarrow> vmm
    \<Rightarrow> (errno \<times> rangeid option \<times> vmm) option" where
  "change_start ops sp address sz free flags newmmuflags r newrange s = do {
     let x = vm_ranges s r;
     d \<leftarrow> (if free then Some False else denied ops flags x);
     if d then Some (EACCES, newrange, s)
     else do {
       let difference = address + sz - vr_start x;
       s \<leftarrow> (if free then destroyrange ops r 0 difference s else Some s);
       let s = upd_range r (\<lambda>y. y\<lparr>vr_start := vr_start y + difference, vr_size := vr_size y - difference,
             vr_offset := (if VMM_FLAGS_FILE \<in> vr_flags y then vr_offset y + difference else vr_offset y)\<rparr>) s;
       if free then Some (E_OK, newrange, s)
       else do {
         nr \<leftarrow> newrange;
         s \<leftarrow> set_new ops r nr (vr_start (vm_ranges s r) - difference) difference newmmuflags (vr_offset (vm_ranges s r) - difference) s;
         insert_new sp newrange s
       }
     }
   }"

definition change_end :: "vnode_ops \<Rightarrow> spaceid \<Rightarrow> u64 \<Rightarrow> bool \<Rightarrow> vmm_flag set \<Rightarrow> u64 \<Rightarrow> rangeid \<Rightarrow> rangeid option \<Rightarrow> vmm
    \<Rightarrow> (errno \<times> rangeid option \<times> vmm) option" where
  "change_end ops sp address free flags newmmuflags r newrange s = do {
     let x = vm_ranges s r;
     d \<leftarrow> (if free then Some False else denied ops flags x);
     if d then Some (EACCES, newrange, s)
     else do {
       let difference = RANGE_TOP x - address;
       let s = upd_range r (\<lambda>y. y\<lparr>vr_size := vr_size y - difference\<rparr>) s;
       let x = vm_ranges s r;
       if free then do {
         s \<leftarrow> destroyrange ops r (vr_size x) difference s;
         Some (E_OK, newrange, s)
       }
       else do {
         nr \<leftarrow> newrange;
         s \<leftarrow> set_new ops r nr (vr_start x + vr_size x) difference newmmuflags (vr_offset x + vr_size x) s;
         insert_new sp newrange s
       }
     }
   }"

text \<open>One turn of the loop.\<close>

definition change_range :: "vnode_ops \<Rightarrow> spaceid \<Rightarrow> u64 \<Rightarrow> u64 \<Rightarrow> bool \<Rightarrow> vmm_flag set \<Rightarrow> u64 \<Rightarrow> rangeid \<Rightarrow> rangeid option \<Rightarrow> vmm
    \<Rightarrow> (errno \<times> rangeid option \<times> vmm) option" where
  "change_range ops sp address sz free flags newmmuflags r newrange s =
     (let x = vm_ranges s r; rangetop = RANGE_TOP x; ctop = address + sz
      in if vr_start x \<ge> address \<and> rangetop \<le> ctop then change_whole ops sp free flags newmmuflags r newrange s
         else if address > vr_start x \<and> ctop < rangetop then change_inside ops sp address sz free flags newmmuflags r newrange s
         else if ctop > vr_start x \<and> vr_start x \<ge> address then change_start ops sp address sz free flags newmmuflags r newrange s
         else if address < rangetop \<and> rangetop \<le> ctop then change_end ops sp address free flags newmmuflags r newrange s
         else Some (E_OK, newrange, s))"

partial_function (option) changemap_loop :: "vnode_ops \<Rightarrow> spaceid \<Rightarrow> u64 \<Rightarrow> u64 \<Rightarrow> bool \<Rightarrow> vmm_flag set \<Rightarrow> u64 \<Rightarrow> rangeid option
    \<Rightarrow> rangeid option \<Rightarrow> vmm \<Rightarrow> (errno \<times> rangeid option \<times> vmm) option" where
  "changemap_loop ops sp address sz free flags newmmuflags cur newrange s = (case cur of
     None \<Rightarrow> Some (E_OK, newrange, s)
   | Some r \<Rightarrow>
       if \<not> vr_start (vm_ranges s r) < address + sz then Some (E_OK, newrange, s)
       else if sp_ranges (space_of sp s) = Some r \<and> vr_prev (vm_ranges s r) \<noteq> None then None
       else do {
         let nextsave = vr_next (vm_ranges s r);
         (e, newrange, s) \<leftarrow> change_range ops sp address sz free flags newmmuflags r newrange s;
         if e \<noteq> E_OK then Some (e, newrange, s)
         else changemap_loop ops sp address sz free flags newmmuflags nextsave newrange s
       })"

declare changemap_loop.simps [code]

definition changemap :: "vnode_ops \<Rightarrow> spaceid \<Rightarrow> u64 \<Rightarrow> u64 \<Rightarrow> bool \<Rightarrow> vmm_flag set \<Rightarrow> u64 \<Rightarrow> vmm \<Rightarrow> (errno \<times> vmm) option" where
  "changemap ops sp address sz free flags newmmuflags s = do {
     (newrange, s) \<leftarrow> (if free then Some (None, s) else allocrange s);
     if \<not> free \<and> newrange = None then Some (ENOMEM, s)
     else do {
       (e, newrange, s) \<leftarrow> changemap_loop ops sp address sz free flags newmmuflags (sp_ranges (space_of sp s)) newrange s;
       if free then Some (e, s)
       else do { n \<leftarrow> newrange; Some (e, freerange n s) }
     }
   }"

text \<open>The size of a request, in bytes and rounded up to whole pages.\<close>

definition byte_size :: "vmm_flag set \<Rightarrow> u64 \<Rightarrow> u64" where
  "byte_size flags sz = (if VMM_FLAGS_PAGESIZE \<in> flags then sz * PAGE_SIZE else ROUND_UP sz PAGE_SIZE)"

definition vmm_changemmuflags :: "vnode_ops \<Rightarrow> u64 \<Rightarrow> u64 \<Rightarrow> u64 \<Rightarrow> vmm_flag set \<Rightarrow> vmm \<Rightarrow> (errno \<times> vmm) option" where
  "vmm_changemmuflags ops base sz mmuflags flags s =
     (let base = ROUND_DOWN base PAGE_SIZE; sz = byte_size flags sz
      in if sz = 0 then Some (E_OK, s)
         else case getspace base s of
                None \<Rightarrow> Some (ENOMEM, s)
              | Some sp \<Rightarrow> do {
                  (e, s) \<leftarrow> changemap ops sp base sz False flags mmuflags s;
                  s \<leftarrow> invalidate base sz s;
                  Some (e, s)
                })"

subsection \<open>Page faults\<close>

definition send_sigbus :: "vmm \<Rightarrow> vmm" where
  "send_sigbus s = s\<lparr>vm_sigbus := vm_sigbus s + 1\<rparr>"

definition invalid_actions :: "u64 \<Rightarrow> vmm_action set" where
  "invalid_actions mmuflags =
     (if mmuflags AND ARCH_MMU_FLAGS_READ = 0 then {VMM_ACTION_READ} else {})
     \<union> (if mmuflags AND ARCH_MMU_FLAGS_WRITE = 0 then {VMM_ACTION_WRITE} else {})
     \<union> (if mmuflags AND ARCH_MMU_FLAGS_NOEXEC \<noteq> 0 then {VMM_ACTION_EXEC} else {})"

text \<open>A fault on a page that is not in the page table.\<close>

definition fault_absent :: "vnode_ops \<Rightarrow> u64 \<Rightarrow> vmmrange \<Rightarrow> vmm \<Rightarrow> (bool \<times> vmm) option" where
  "fault_absent ops addr x s =
     (if VMM_FLAGS_FILE \<in> vr_flags x then do {
        v \<leftarrow> vr_vnode x;
        let off = vr_offset x + (addr - vr_start x);
        if \<not> vn_iscacheable ops v then do {
          (e, s) \<leftarrow> vn_mmap ops v addr off (map_fflags x) s;
          if e = E_OK then Some (True, s) else None
        }
        else do {
          (e, res, f) \<leftarrow> vmmcache_getpage (vn_is_file ops) (vn_getpage ops) v off (vm_frames s);
          let s = s\<lparr>vm_frames := f\<rparr>;
          if e = ENXIO \<or> e = ENOMEM then Some (True, send_sigbus s)
          else if e \<noteq> E_OK then Some (False, s)
          else do {
            p \<leftarrow> res;
            let phys = of_nat (pmm_getpageaddress p);
            (status, s) \<leftarrow> map_in (pagetable s) phys addr (vr_mmuflags x AND NOT ARCH_MMU_FLAGS_WRITE) s;
            if status then Some (True, s)
            else do { s \<leftarrow> releaseframe phys s; Some (True, send_sigbus s) }
          }
        }
      }
      else do {
        (status, s) \<leftarrow> map_in (pagetable s) (vm_zeropage s) addr (vr_mmuflags x AND NOT ARCH_MMU_FLAGS_WRITE) s;
        if \<not> status then Some (True, send_sigbus s)
        else do { s \<leftarrow> holdframe (vm_zeropage s) s; Some (True, s) }
      })"

definition copy_frame :: "u64 \<Rightarrow> u64 \<Rightarrow> vmm \<Rightarrow> vmm" where
  "copy_frame dst src s =
     s\<lparr>vm_contents := (vm_contents s)(pmm_getpage (unat dst) := vm_contents s (pmm_getpage (unat src)))\<rparr>"

definition clear_frame :: "u64 \<Rightarrow> vmm \<Rightarrow> vmm" where
  "clear_frame dst s = s\<lparr>vm_contents := (vm_contents s)(pmm_getpage (unat dst) := (\<lambda>_. 0))\<rparr>"

text \<open>A fault on a page that is there but not writable: remapped as writable, or copied.\<close>

definition fault_readonly :: "vnode_ops \<Rightarrow> u64 \<Rightarrow> vmmrange \<Rightarrow> vmm \<Rightarrow> (bool \<times> vmm) option" where
  "fault_readonly ops addr x s =
     (let oldphys = physical_of s addr;
          is_file = VMM_FLAGS_FILE \<in> vr_flags x
      in if is_file \<and> VMM_FLAGS_SHARED \<in> vr_flags x
            \<or> \<not> is_file \<and> refcount (pages (vm_frames s) (pmm_getpage (unat oldphys))) = 1
         then do {
           let s = remap_in (pagetable s) oldphys addr (vr_mmuflags x) s;
           if is_file then do {
             v \<leftarrow> vr_vnode x;
             if vn_iscacheable ops v then do { s \<leftarrow> makedirty oldphys s; Some (True, s) } else Some (True, s)
           }
           else Some (True, s)
         }
         else do {
           (r, s) \<leftarrow> allocframe s;
           (case r of
              None \<Rightarrow> Some (True, send_sigbus s)
            | Some newphys \<Rightarrow> do {
                let s = remap_in (pagetable s) newphys addr (vr_mmuflags x) (copy_frame newphys oldphys s);
                s \<leftarrow> invalidate addr PAGE_SIZE s;
                if \<not> is_file then do { s \<leftarrow> releaseframe oldphys s; Some (True, s) }
                else do {
                  v \<leftarrow> vr_vnode x;
                  if vn_iscacheable ops v then do { s \<leftarrow> releaseframe oldphys s; Some (True, s) } else Some (True, s)
                }
              })
         })"

definition vmm_pagefault :: "vnode_ops \<Rightarrow> u64 \<Rightarrow> bool \<Rightarrow> vmm_action set \<Rightarrow> vmm \<Rightarrow> (bool \<times> vmm) option" where
  "vmm_pagefault ops addr user actions s =
     (if \<not> user \<and> addr > USERSPACE_END then Some (False, s)
      else
        let addr = ROUND_DOWN addr PAGE_SIZE
        in case getspace addr s of
             None \<Rightarrow> Some (False, s)
           | Some sp \<Rightarrow>
               if sp = KERNEL_SPACE \<and> user then Some (False, s)
               else do {
                 found \<leftarrow> getrange sp addr s;
                 (case found of
                    None \<Rightarrow> Some (False, s)
                  | Some r \<Rightarrow>
                      let x = vm_ranges s r
                      in if invalid_actions (vr_mmuflags x) \<inter> actions \<noteq> {} then Some (False, s)
                         else if \<not> arch_mmu_ispresent (vm_tables s) (pagetable s) addr then fault_absent ops addr x s
                         else if \<not> arch_mmu_iswritable (vm_tables s) (pagetable s) addr then fault_readonly ops addr x s
                         else Some (True, s))
               })"

definition vmm_getphysical :: "u64 \<Rightarrow> bool \<Rightarrow> vmm \<Rightarrow> (u64 \<times> vmm) option" where
  "vmm_getphysical addr hold s =
     (let addr = ROUND_DOWN addr PAGE_SIZE
      in case getspace addr s of
           None \<Rightarrow> Some (0, s)
         | Some sp \<Rightarrow>
             let physical = physical_of s addr
             in do {
               s \<leftarrow> (if hold then holdframe physical s else Some s);
               Some (physical + (addr - ROUND_DOWN addr PAGE_SIZE), s)
             })"

subsection \<open>Mapping and unmapping\<close>

text \<open>The last argument of \<open>vmm_map\<close>: a file and an offset, or a physical address.\<close>

datatype map_private = PrivateNone | PrivateFile vnode u64 | PrivatePhysical u64

text \<open>The loops that fill a new range; an error in the middle ends them.\<close>

definition map_physical :: "u64 \<Rightarrow> u64 \<Rightarrow> u64 \<Rightarrow> u64 \<Rightarrow> vmm \<Rightarrow> (bool \<times> vmm) option" where
  "map_physical phys start sz mmuflags = for_pages 0 sz (\<lambda>i s. do {
     (ok, s) \<leftarrow> map_in (pagetable s) (phys + i) (start + i) mmuflags s;
     if ok then Some (True, s)
     else do {
       (_, s) \<leftarrow> for_pages 0 sz (\<lambda>j s. Some (True, unmap_page (start + j) s)) s;
       s \<leftarrow> invalidate start sz s;
       Some (False, s)
     }
   })"

definition map_allocate :: "u64 \<Rightarrow> u64 \<Rightarrow> u64 \<Rightarrow> vmm \<Rightarrow> (bool \<times> vmm) option" where
  "map_allocate start sz mmuflags = for_pages 0 sz (\<lambda>i s. do {
     (a, s) \<leftarrow> allocframe s;
     (case a of
        None \<Rightarrow> Some (False, s)
      | Some allocated \<Rightarrow> do {
          (ok, s) \<leftarrow> map_in (pagetable s) allocated (start + i) mmuflags s;
          if ok then Some (True, clear_frame allocated s)
          else do {
            (_, s) \<leftarrow> for_pages 0 sz (\<lambda>j s.
              let virt = start + i; physical = physical_of s virt
              in if physical \<noteq> 0 then do { s \<leftarrow> releaseframe physical s; Some (True, unmap_page virt s) } else Some (True, s)) s;
            s \<leftarrow> invalidate start sz s;
            Some (False, s)
          }
        })
   })"

definition vmm_map :: "vnode_ops \<Rightarrow> u64 \<Rightarrow> u64 \<Rightarrow> vmm_flag set \<Rightarrow> u64 \<Rightarrow> map_private \<Rightarrow> vmm \<Rightarrow> (u64 \<times> vmm) option" where
  "vmm_map ops addr sz flags mmuflags private s =
     (let addr = ROUND_DOWN (if addr = 0 then KERNELSPACE_START else addr) PAGE_SIZE;
          sz = byte_size flags sz
      in if sz = 0 then Some (0, s)
         else case getspace addr s of
           None \<Rightarrow> Some (0, s)
         | Some sp \<Rightarrow> do {
             start \<leftarrow> getfreerange sp addr sz s;
             if VMM_FLAGS_EXACT \<in> flags \<and> start \<noteq> addr \<or> start = 0 then Some (0, s)
             else do {
               (n, s) \<leftarrow> allocrange s;
               (case n of
                  None \<Rightarrow> Some (0, s)
                | Some r \<Rightarrow> do {
                    let replace = (VMM_FLAGS_REPLACE \<in> flags);
                    let retaddr = (if replace then addr else start);
                    let s = upd_range r (\<lambda>x. x\<lparr>vr_start := retaddr, vr_size := sz,
                          vr_flags := VMM_PERMANENT_FLAGS_MASK \<inter> flags, vr_mmuflags := mmuflags\<rparr>) s;
                    s \<leftarrow> (if \<not> replace then Some s
                          else if addr = 0 \<or> VMM_FLAGS_ALLOCATE \<in> flags \<or> VMM_FLAGS_PHYSICAL \<in> flags then None
                          else do {
                            (_, s) \<leftarrow> changemap ops sp addr sz False flags 0 s;
                            s \<leftarrow> invalidate addr sz s;
                            (_, s) \<leftarrow> changemap ops sp addr sz True flags 0 s;
                            Some s
                          });
                    s \<leftarrow> (if VMM_FLAGS_FILE \<notin> flags then Some s
                          else case private of
                            PrivateFile v offset \<Rightarrow>
                              if offset mod PAGE_SIZE \<noteq> 0 then None
                              else hold_vnode r (upd_range r (\<lambda>x. x\<lparr>vr_vnode := Some v, vr_offset := offset\<rparr>) s)
                          | _ \<Rightarrow> None);
                    (ok, s) \<leftarrow> (if VMM_FLAGS_PHYSICAL \<in> flags
                          then (case private of PrivatePhysical phys \<Rightarrow> map_physical phys start sz mmuflags s | _ \<Rightarrow> None)
                          else if VMM_FLAGS_ALLOCATE \<in> flags then map_allocate start sz mmuflags s
                          else Some (True, s));
                    if ok then do { s \<leftarrow> insertrange sp r s; Some (retaddr, s) } else Some (0, s)
                  })
             }
           })"

definition vmm_unmap :: "vnode_ops \<Rightarrow> u64 \<Rightarrow> u64 \<Rightarrow> vmm_flag set \<Rightarrow> vmm \<Rightarrow> vmm option" where
  "vmm_unmap ops addr sz flags s =
     (let addr = ROUND_DOWN addr PAGE_SIZE; sz = byte_size flags sz
      in if sz = 0 then Some s
         else case getspace addr s of
           None \<Rightarrow> Some s
         | Some sp \<Rightarrow> do {
             (_, s) \<leftarrow> changemap ops sp addr sz False flags 0 s;
             s \<leftarrow> invalidate addr sz s;
             (_, s) \<leftarrow> changemap ops sp addr sz True flags 0 s;
             Some s
           })"

subsection \<open>Contexts\<close>

text \<open>The constructor of the slab cache of contexts, which is its destructor too.\<close>

definition ctxctor :: "ctxid \<Rightarrow> vmm \<Rightarrow> vmm" where
  "ctxctor c s = s\<lparr>vm_contexts := (vm_contexts s)(c := (vm_contexts s c)\<lparr>cx_space :=
     \<lparr>sp_ranges = None, sp_start = USERSPACE_START, sp_end = USERSPACE_END\<rparr>\<rparr>)\<rparr>"

text \<open>\<open>obj\<close> is what \<open>slab_allocate\<close> returned, an object in its constructed state.\<close>

definition vmm_newcontext :: "ctxid option \<Rightarrow> vmm \<Rightarrow> (ctxid option \<times> vmm) option" where
  "vmm_newcontext obj s = (case obj of
     None \<Rightarrow> Some (None, s)
   | Some c \<Rightarrow> do {
       let s = ctxctor c s;
       (t, mem, f) \<leftarrow> arch_mmu_newtable (pmm_frame vmmcache_takepage) (vm_template s) (vm_tables s, vm_frames s);
       let s = s\<lparr>vm_tables := mem, vm_frames := f\<rparr>;
       (case t of
          None \<Rightarrow> Some (None, ctxctor c s)
        | Some pt \<Rightarrow> Some (Some c, s\<lparr>vm_contexts := (vm_contexts s)(c := (vm_contexts s c)\<lparr>cx_pagetable := pt\<rparr>)\<rparr>))
     })"

definition vmm_switchcontext :: "ctxid \<Rightarrow> vmm \<Rightarrow> vmm" where
  "vmm_switchcontext c s =
     (let s = (if vm_thread s \<noteq> None then s\<lparr>vm_thread := Some c\<rparr> else s)
      in s\<lparr>vm_current := c, vm_cr3 := cx_pagetable (vm_contexts s c)\<rparr>)"

definition vmm_destroycontext :: "vnode_ops \<Rightarrow> ctxid \<Rightarrow> vmm \<Rightarrow> vmm option" where
  "vmm_destroycontext ops c s = do {
     oldctx \<leftarrow> vm_thread s;
     let s = vmm_switchcontext c s;
     let space = cx_space (vm_contexts s c);
     s \<leftarrow> vmm_unmap ops (sp_start space) (sp_end space - sp_start space) {} s;
     let s = vmm_switchcontext oldctx s;
     f \<leftarrow> arch_mmu_destroytable (vm_tables s) (cx_pagetable (vm_contexts s c)) (vm_frames s);
     Some (ctxctor c (s\<lparr>vm_frames := f\<rparr>))
   }"

text \<open>The copy of one page and of one range by \<open>vmm_fork\<close>; the result is false for the jump to \<open>error\<close>.\<close>

definition fork_page :: "u64 \<Rightarrow> u64 \<Rightarrow> vmmrange \<Rightarrow> u64 \<Rightarrow> vmm \<Rightarrow> (bool \<times> vmm) option" where
  "fork_page oldtable newtable x offset s =
     (let vaddr = vr_start x + offset;
          phys = arch_mmu_getphysical (vm_tables s) oldtable vaddr;
          flags = vr_mmuflags x AND NOT ARCH_MMU_FLAGS_WRITE
      in if phys = 0 then Some (True, s)
         else do {
           (ok, s) \<leftarrow> map_in newtable phys vaddr flags s;
           if \<not> ok then Some (False, s)
           else do {
             s \<leftarrow> holdframe phys s;
             Some (True, remap_in oldtable phys vaddr flags s)
           }
         })"

definition fork_range :: "ctxid \<Rightarrow> ctxid \<Rightarrow> rangeid \<Rightarrow> vmm \<Rightarrow> (bool \<times> vmm) option" where
  "fork_range old new r s = do {
     (n, s) \<leftarrow> allocrange s;
     (case n of
        None \<Rightarrow> Some (False, s)
      | Some newrange \<Rightarrow> do {
          s \<leftarrow> insertrange (USER_SPACE new) newrange (upd_range newrange (\<lambda>_. vm_ranges s r) s);
          s \<leftarrow> (if VMM_FLAGS_FILE \<in> vr_flags (vm_ranges s r) then hold_vnode r s else Some s);
          let x = vm_ranges s newrange;
          for_pages 0 (vr_size x) (fork_page (cx_pagetable (vm_contexts s old)) (cx_pagetable (vm_contexts s new)) x) s
        })
   }"

partial_function (option) fork_loop :: "ctxid \<Rightarrow> ctxid \<Rightarrow> rangeid option \<Rightarrow> vmm \<Rightarrow> (bool \<times> vmm) option" where
  "fork_loop old new cur s = (case cur of
     None \<Rightarrow> Some (True, s)
   | Some r \<Rightarrow> do {
       (ok, s) \<leftarrow> fork_range old new r s;
       if ok then fork_loop old new (vr_next (vm_ranges s r)) s else Some (False, s)
     })"

declare fork_loop.simps [code]

definition vmm_fork :: "vnode_ops \<Rightarrow> ctxid option \<Rightarrow> ctxid \<Rightarrow> vmm \<Rightarrow> (ctxid option \<times> vmm) option" where
  "vmm_fork ops obj old s = do {
     (n, s) \<leftarrow> vmm_newcontext obj s;
     (case n of
        None \<Rightarrow> Some (None, s)
      | Some new \<Rightarrow> do {
          (ok, s) \<leftarrow> fork_loop old new (sp_ranges (cx_space (vm_contexts s old))) s;
          if ok then do { s \<leftarrow> invalidate 0 0 s; Some (Some new, s) }
          else do { s \<leftarrow> vmm_destroycontext ops new s; Some (None, s) }
        })
   }"

subsection \<open>Initialisation\<close>

text \<open>The identity of \<open>vmm_kernelctx\<close>, the types of the memory map that \<open>vmm_init\<close> maps, and what it gets from the boot loader and the linker.\<close>

definition vmm_kernelctx :: ctxid where
  "vmm_kernelctx = 0"

record boot_info =
  bi_hhdm :: u64
  bi_entries :: "(bool \<times> u64 \<times> u64) list"
  bi_text :: "u64 \<times> u64"
  bi_rodata :: "u64 \<times> u64"
  bi_data :: "u64 \<times> u64"

definition map_exact :: "vnode_ops \<Rightarrow> u64 \<Rightarrow> u64 \<Rightarrow> u64 \<Rightarrow> vmm \<Rightarrow> vmm option" where
  "map_exact ops addr sz mmuflags s = do {
     (a, s) \<leftarrow> vmm_map ops addr sz {VMM_FLAGS_EXACT} mmuflags PrivateNone s;
     if a = 0 then None else Some s
   }"

primrec map_entries :: "vnode_ops \<Rightarrow> u64 \<Rightarrow> (bool \<times> u64 \<times> u64) list \<Rightarrow> vmm \<Rightarrow> vmm option" where
  "map_entries ops hhdm [] s = Some s"
| "map_entries ops hhdm (e # es) s = (case e of (wanted, base, len) \<Rightarrow> do {
     s \<leftarrow> (if wanted then map_exact ops (base + hhdm) len (ARCH_MMU_FLAGS_READ OR ARCH_MMU_FLAGS_WRITE OR ARCH_MMU_FLAGS_NOEXEC) s
           else Some s);
     map_entries ops hhdm es s
   })"

definition set_zeropage :: "vmm \<Rightarrow> vmm option" where
  "set_zeropage s = do {
     (z, s) \<leftarrow> allocframe s;
     let zp = (case z of None \<Rightarrow> 0 | Some a \<Rightarrow> a);
     Some (clear_frame zp (s\<lparr>vm_zeropage := zp\<rparr>))
   }"

definition init_context :: "u64 \<Rightarrow> vmm \<Rightarrow> vmm" where
  "init_context pt s =
     (let space = (cx_space (vm_contexts s vmm_kernelctx))\<lparr>sp_start := USERSPACE_START, sp_end := USERSPACE_END\<rparr>
      in vmm_switchcontext vmm_kernelctx
           (s\<lparr>vm_contexts := (vm_contexts s)(vmm_kernelctx := \<lparr>cx_space = space, cx_pagetable = pt\<rparr>)\<rparr>))"

definition vmm_init :: "vnode_ops \<Rightarrow> boot_info \<Rightarrow> vmm \<Rightarrow> vmm option" where
  "vmm_init ops b s = do {
     (n, s) \<leftarrow> newcache 0 s;
     (t, mem, f) \<leftarrow> arch_mmu_newtable (pmm_frame vmmcache_takepage) (vm_template s) (vm_tables s, vm_frames s);
     h \<leftarrow> n;
     pt \<leftarrow> t;
     let s = s\<lparr>vm_cachelist := [h], vm_tables := mem, vm_frames := f\<rparr>;
     let s = init_context pt s;
     s \<leftarrow> map_entries ops (bi_hhdm b) (bi_entries b) s;
     s \<leftarrow> map_exact ops (fst (bi_text b)) (snd (bi_text b) - fst (bi_text b)) ARCH_MMU_FLAGS_READ s;
     s \<leftarrow> map_exact ops (fst (bi_rodata b)) (snd (bi_rodata b) - fst (bi_rodata b)) (ARCH_MMU_FLAGS_READ OR ARCH_MMU_FLAGS_NOEXEC) s;
     s \<leftarrow> map_exact ops (fst (bi_data b)) (snd (bi_data b) - fst (bi_data b))
       (ARCH_MMU_FLAGS_READ OR ARCH_MMU_FLAGS_WRITE OR ARCH_MMU_FLAGS_NOEXEC) s;
     (_, s) \<leftarrow> vmm_map ops (bi_hhdm b) PAGE_SIZE {VMM_FLAGS_EXACT} ARCH_MMU_FLAGS_NOEXEC PrivateNone s;
     set_zeropage s
   }"

definition vmm_apinit :: "vmm \<Rightarrow> vmm" where
  "vmm_apinit s = vmm_switchcontext vmm_kernelctx s"

end
