(* ===== verification/Vmm_Laws.thy ===== *)
theory Vmm_Laws
  imports Vmm
begin

text \<open>
  What the operations of \<open>Vmm\<close> do. \<open>vmm_map\<close> puts a region into the lowest fitting gap and changes nothing else of the space; which page
  faults are refused; a write to a shared page copies it; \<open>vmm_fork\<close> copies no page of a range that is merged on insertion; a change of
  protection takes flags away from pages and never gives one.
\<close>

subsection \<open>New ranges\<close>

lemma ranges_ok_more:
  assumes ok: "ranges_ok sp s rs" and R: "\<And>q. q \<in> set rs \<Longrightarrow> vm_ranges s' q = vm_ranges s q" and sp: "space_of sp s' = space_of sp s"
    and refs: "\<And>v. vnode_refs (vm_frames s) v \<le> vnode_refs (vm_frames s') v" and man: "managed s' rs"
  shows "ranges_ok sp s' rs" and "space_at (vm_ranges s') rs a = space_at (vm_ranges s) rs a"
proof -
  note D = ranges_okD [OF ok]
  have "nchain (range_next s') (sp_ranges (space_of sp s)) rs None" by (rule nchain_frame [OF D(1)]) (simp add: R range_next_def)
  moreover have "in_order (vm_ranges s') lo rs hi = in_order (vm_ranges s) lo rs hi" for lo hi by (rule in_order_cong) (simp add: R)
  moreover have "filter (uses (vm_ranges s') v) rs = filter (uses (vm_ranges s) v) rs" for v by (rule filter_cong) (simp_all add: R uses_def)
  then have "refs_ok s' rs" using D(3) refs R unfolding refs_ok_def by (metis order_trans)
  ultimately show "ranges_ok sp s' rs" using D(2) man by (simp add: ranges_ok_def sp)
  show "space_at (vm_ranges s') rs a = space_at (vm_ranges s) rs a" by (rule space_at_cong) (simp add: R)
qed

lemma gap_unmapped:
  assumes ok: "ranges_ok sp s rs" and gap: "is_gap (vm_ranges s) rs (unat sz) (unat b)" and x: "b \<le> x" "x < b + sz" "unat b + unat sz < 2 ^ 64"
  shows "space_at (vm_ranges s) rs x = None"
proof -
  have "\<not> covers (vm_ranges s q) x" if q: "q \<in> set rs" for q
  proof -
    have "ntop (vm_ranges s q) < 2 ^ 64"
      by (rule le_less_trans [OF conjunct2 [OF in_order_bounds [OF ranges_okD(2) [OF ok] q]] unat_below])
    moreover have "unat (b + sz) = unat b + unat sz" using x(3) unat_add_lem [of b sz] by simp
    ultimately show ?thesis using gap q x(1,2) by (auto simp: is_gap_def covers_nat word_le_nat_alt word_less_nat_alt)
  qed
  then show ?thesis by (simp add: space_at_def find_None_iff)
qed

text \<open>A range structure just taken and filled in, beside the ranges of a space.\<close>

lemma fill_range:
  assumes ok: "ranges_ok sp s rs" and t: "range_taken s (Some r) s1" and sz: "vr_size y \<noteq> 0"
  defines "s2 \<equiv> upd_range r (\<lambda>_. y) s1"
  shows "r \<notin> set rs" and "managed s2 (r # rs)" and "ranges_ok sp s2 rs" and "\<And>a. space_at (vm_ranges s2) rs a = space_at (vm_ranges s) rs a"
    and "space_of sp s2 = space_of sp s" and "vm_ranges s2 r = y" and "\<And>q. q \<in> set rs \<Longrightarrow> vm_ranges s2 q = vm_ranges s q"
    and "vnode_refs (vm_frames s2) = vnode_refs (vm_frames s)"
proof -
  note D = ranges_okD [OF ok]
  have T: "caches_ok s1" "only_ranges s s1" "vm_cachelist s1 \<noteq> []" "\<And>q. q \<in> in_use s \<Longrightarrow> vm_ranges s1 q = vm_ranges s q" "r \<notin> in_use s" "in_use s1 = insert r (in_use s)"
    using t by (auto simp: range_taken_def)
  have rs: "set rs \<subseteq> in_use s" using D(4) by (simp add: managed_def)
  then show r: "r \<notin> set rs" using T(5) by blast
  have "vr_size (vm_ranges s1 r) \<noteq> 0" using T(6) by (auto simp: in_use_def)
  then have "caches_ok s2 = caches_ok s1" "in_use s2 = in_use s1"
    using sz by (intro caches_ok_cong; simp add: s2_def)+
  then show m: "managed s2 (r # rs)" using T(1,3,6) rs by (auto simp: managed_def s2_def)
  note O = only_ranges_fields [OF T(2)]
  show sp: "space_of sp s2 = space_of sp s" by (simp add: s2_def O)
  show R: "vm_ranges s2 q = vm_ranges s q" if "q \<in> set rs" for q using that r rs T(4) by (auto simp: s2_def)
  show f: "vnode_refs (vm_frames s2) = vnode_refs (vm_frames s)" by (simp add: s2_def O)
  have "managed s2 rs" using m by (simp add: managed_def)
  note M = ranges_ok_more [OF ok R sp _ this]
  show "ranges_ok sp s2 rs" by (rule M(1)) (simp_all add: f)
  show "space_at (vm_ranges s2) rs a = space_at (vm_ranges s) rs a" for a by (rule M(2)) (simp_all add: f)
  show "vm_ranges s2 r = y" by (simp add: s2_def)
qed

lemma refs_ok_Cons:
  assumes "refs_ok s rs" and "vm_ranges s' = vm_ranges s" and "VMM_FLAGS_FILE \<in> vr_flags (vm_ranges s r) \<longrightarrow> vr_vnode (vm_ranges s r) = Some v"
    and "\<And>u. vnode_refs (vm_frames s') u = vnode_refs (vm_frames s) u + (if u = v \<and> VMM_FLAGS_FILE \<in> vr_flags (vm_ranges s r) then 1 else 0)"
  shows "refs_ok s' (r # rs)"
proof -
  have "int (length (filter (uses (vm_ranges s) u) (r # rs))) \<le> vnode_refs (vm_frames s') u" for u
    using assms(1,3,4) unfolding refs_ok_def by (auto simp: uses_def)
  then show ?thesis using assms(1,3) unfolding refs_ok_def assms(2) by auto
qed

lemma none_taken:
  assumes ok: "ranges_ok sp s rs" and t: "range_taken s None s1"
  shows "ranges_ok sp s1 rs" and "space_at (vm_ranges s1) rs x = space_at (vm_ranges s) rs x"
proof -
  have T: "caches_ok s1" "only_ranges s s1" "vm_cachelist s1 \<noteq> []" "\<And>q. q \<in> in_use s \<Longrightarrow> vm_ranges s1 q = vm_ranges s q" "in_use s1 = in_use s"
    using t by (auto simp: range_taken_def)
  have "set rs \<subseteq> in_use s" using ranges_okD(4) [OF ok] by (simp add: managed_def)
  then have R: "\<And>q. q \<in> set rs \<Longrightarrow> vm_ranges s1 q = vm_ranges s q" and m: "managed s1 rs" using T(4) by (auto simp: managed_def T)
  note O = only_ranges_fields [OF T(2)]
  show "ranges_ok sp s1 rs" by (rule ranges_ok_more(1) [OF ok R O(1) _ m]) (simp_all add: O)
  show "space_at (vm_ranges s1) rs x = space_at (vm_ranges s) rs x" by (rule ranges_ok_more(2) [OF ok R O(1) _ m]) (simp_all add: O)
qed

text \<open>The steps of \<open>vmm_map\<close> from the taken structure on, for a mapping whose pages are left to the page faults.\<close>

lemma map_insert:
  assumes ok: "ranges_ok sp s rs" and t: "range_taken s (Some r) s1" and sz: "0 < sz"
    and b: "sp_start (space_of sp s) \<le> b" "unat b + unat sz \<le> unat (sp_end (space_of sp s))" "is_gap (vm_ranges s) rs (unat sz) (unat b)"
    and y: "vr_start y = b" "vr_size y = sz" "VMM_FLAGS_FILE \<in> vr_flags y \<longrightarrow> vr_vnode y = Some v"
  shows "\<exists>s3 s' rs'. (if VMM_FLAGS_FILE \<in> vr_flags y then hold_vnode r (upd_range r (\<lambda>_. y) s1) else Some (upd_range r (\<lambda>_. y) s1)) = Some s3
    \<and> insertrange sp r s3 = Some s' \<and> ranges_ok sp s' rs'
    \<and> (\<forall>x. space_at (vm_ranges s') rs' x = (if covers y x then Some (seen y x) else space_at (vm_ranges s) rs x))"
proof -
  let ?s = "upd_range r (\<lambda>_. y) s1"
  have "vr_size y \<noteq> 0" using sz y(2) by auto
  note F = fill_range [OF ok t this]
  define s3 where "s3 = (if VMM_FLAGS_FILE \<in> vr_flags y then ?s\<lparr>vm_frames := VOP_HOLD v (vm_frames ?s)\<rparr> else ?s)"
  have s3: "(if VMM_FLAGS_FILE \<in> vr_flags y then hold_vnode r ?s else Some ?s) = Some s3" "vm_ranges s3 = vm_ranges ?s"
      "space_of sp s3 = space_of sp ?s" "vm_cachelist s3 = vm_cachelist ?s"
      "\<And>u. vnode_refs (vm_frames s3) u = vnode_refs (vm_frames ?s) u + (if u = v \<and> VMM_FLAGS_FILE \<in> vr_flags y then 1 else 0)"
    using y(3) F(6) by (auto simp: s3_def hold_vnode_def VOP_HOLD_def)
  have "managed s3 (r # rs)" using F(2) managed_cong [where s' = s3 and s = ?s and rs = "r # rs" and rs' = "r # rs"] s3(2,4) by simp
  moreover have "refs_ok s3 (r # rs)"
    by (rule refs_ok_Cons [OF ranges_okD(3) [OF F(3)] s3(2)]) (use s3(5) y(3) F(6) in auto)
  moreover have m: "managed s3 rs" using \<open>managed s3 (r # rs)\<close> by (simp add: managed_def)
  have "ranges_ok sp s3 rs" by (rule ranges_ok_more(1) [OF F(3) _ _ _ m]) (simp_all add: s3)
  moreover have "space_of sp s3 = space_of sp s" "vm_ranges s3 r = y" using s3(2,3) F(5,6) by simp_all
  moreover have "\<forall>q\<in>set rs. ntop (vm_ranges s3 q) \<le> unat (vr_start (vm_ranges s3 r)) \<or> ntop (vm_ranges s3 r) \<le> unat (vr_start (vm_ranges s3 q))"
    using b(3) F(6,7) y(1,2) by (auto simp: s3(2) is_gap_def ntop_def)
  ultimately obtain s' rs' where "insertrange sp r s3 = Some s'" "ranges_ok sp s' rs'"
      "\<And>x. space_at (vm_ranges s') rs' x = (if covers y x then Some (seen y x) else space_at (vm_ranges s3) rs x)"
    using insertrange_space [of sp s3 rs r] F(1) b(1,2) y(1,2) sz by (auto simp: word_le_nat_alt ntop_def)
  then show ?thesis using s3(1) F(4) by (auto simp: s3(2))
qed

lemma map_taken:
  assumes ok: "ranges_ok sp s rs" and t: "range_taken s (Some r) s1" and sz: "0 < sz"
    and b: "sp_start (space_of sp s) \<le> b" "unat b + unat sz \<le> unat (sp_end (space_of sp s))" "is_gap (vm_ranges s) rs (unat sz) (unat b)"
  shows "\<exists>s' rs'. do {
      let s = upd_range r (\<lambda>x. x\<lparr>vr_start := b, vr_size := sz, vr_flags := VMM_PERMANENT_FLAGS_MASK \<inter> flags, vr_mmuflags := mmuflags\<rparr>) s1;
      s \<leftarrow> (if VMM_FLAGS_FILE \<notin> flags then Some s
            else hold_vnode r (upd_range r (\<lambda>x. x\<lparr>vr_vnode := Some v, vr_offset := off\<rparr>) s));
      s \<leftarrow> insertrange sp r s;
      Some (b, s)
    } = Some (b, s') \<and> ranges_ok sp s' rs'
    \<and> (\<forall>x. space_at (vm_ranges s') rs' x =
          (if b \<le> x \<and> x < b + sz
           then Some (VMM_PERMANENT_FLAGS_MASK \<inter> flags, mmuflags, if VMM_FLAGS_FILE \<in> flags then Some (Some v, off + (x - b)) else None)
           else space_at (vm_ranges s) rs x)
        \<and> (b \<le> x \<and> x < b + sz \<longrightarrow> space_at (vm_ranges s) rs x = None))"
proof -
  define y where "y = (let x = (vm_ranges s1 r)\<lparr>vr_start := b, vr_size := sz, vr_flags := VMM_PERMANENT_FLAGS_MASK \<inter> flags, vr_mmuflags := mmuflags\<rparr>
    in if VMM_FLAGS_FILE \<in> flags then x\<lparr>vr_vnode := Some v, vr_offset := off\<rparr> else x)"
  have y: "vr_start y = b" "vr_size y = sz" "VMM_FLAGS_FILE \<in> vr_flags y \<longrightarrow> vr_vnode y = Some v" "VMM_FLAGS_FILE \<in> vr_flags y \<longleftrightarrow> VMM_FLAGS_FILE \<in> flags"
      "seen y x = (VMM_PERMANENT_FLAGS_MASK \<inter> flags, mmuflags, if VMM_FLAGS_FILE \<in> flags then Some (Some v, off + (x - b)) else None)" for x
    by (auto simp: y_def Let_def seen_def VMM_PERMANENT_FLAGS_MASK_def)
  have U: "upd_range r (\<lambda>_. y) s1 = (let s = upd_range r (\<lambda>x. x\<lparr>vr_start := b, vr_size := sz, vr_flags := VMM_PERMANENT_FLAGS_MASK \<inter> flags, vr_mmuflags := mmuflags\<rparr>) s1
    in if VMM_FLAGS_FILE \<in> flags then upd_range r (\<lambda>x. x\<lparr>vr_vnode := Some v, vr_offset := off\<rparr>) s else s)"
    by (simp add: upd_range_def y_def Let_def)
  obtain s3 s' rs' where s3: "(if VMM_FLAGS_FILE \<in> vr_flags y then hold_vnode r (upd_range r (\<lambda>_. y) s1) else Some (upd_range r (\<lambda>_. y) s1)) = Some s3"
      "insertrange sp r s3 = Some s'" "ranges_ok sp s' rs'"
      "\<And>x. space_at (vm_ranges s') rs' x = (if covers y x then Some (seen y x) else space_at (vm_ranges s) rs x)"
    using map_insert [OF ok t sz b y(1-3)] by blast
  have "covers y x \<longleftrightarrow> b \<le> x \<and> x < b + sz" for x by (simp add: covers_def RANGE_TOP_def y)
  moreover have "space_at (vm_ranges s) rs x = None" if "b \<le> x" "x < b + sz" for x
    by (rule gap_unmapped [OF ok b(3) that]) (rule le_less_trans [OF b(2) unat_below])
  moreover note s3(1,2) [unfolded y(4) U]
  ultimately show ?thesis using s3(3,4) y(5) by (intro exI [of _ s'] exI [of _ rs']) (cases "VMM_FLAGS_FILE \<in> flags"; simp add: Let_def)
qed

lemma vmm_map_lazy:
  assumes a: "a = ROUND_DOWN (if addr = 0 then KERNELSPACE_START else addr) PAGE_SIZE" "getspace a s = Some sp"
    and sz: "sz = byte_size flags sz0" "sz \<noteq> 0"
    and fl: "VMM_FLAGS_PHYSICAL \<notin> flags" "VMM_FLAGS_ALLOCATE \<notin> flags" "VMM_FLAGS_REPLACE \<notin> flags"
    and priv: "VMM_FLAGS_FILE \<in> flags \<longrightarrow> private = PrivateFile v off \<and> off mod PAGE_SIZE = 0"
    and b: "getfreerange sp a sz s = Some b"
  shows "vmm_map ops addr sz0 flags mmuflags private s =
    (if VMM_FLAGS_EXACT \<in> flags \<and> b \<noteq> a \<or> b = 0 then Some (0, s)
     else do {
       (n, s) \<leftarrow> allocrange s;
       (case n of
          None \<Rightarrow> Some (0, s)
        | Some r \<Rightarrow> do {
            let s = upd_range r (\<lambda>x. x\<lparr>vr_start := b, vr_size := sz, vr_flags := VMM_PERMANENT_FLAGS_MASK \<inter> flags, vr_mmuflags := mmuflags\<rparr>) s;
            s \<leftarrow> (if VMM_FLAGS_FILE \<notin> flags then Some s
                  else hold_vnode r (upd_range r (\<lambda>x. x\<lparr>vr_vnode := Some v, vr_offset := off\<rparr>) s));
            s \<leftarrow> insertrange sp r s;
            Some (b, s)
          })
     })"
  unfolding vmm_map_def a(1) [symmetric] sz(1) [symmetric] Let_def a(2) option.case b using sz(2) fl priv
  by (cases "VMM_FLAGS_FILE \<in> flags") (simp_all add: Let_def cong: option.case_cong)


subsection \<open>Page faults\<close>

text \<open>
  A page fault is refused, without any change, when a user program touches kernel space, when no range covers
  the address, or when the protection of the range that covers it forbids one of the actions.
\<close>

lemma pagefault_refuses:
  assumes ok: "ranges_ok sp s rs" and a: "a = ROUND_DOWN addr PAGE_SIZE" "getspace a s = Some sp"
    and bad: "sp = KERNEL_SPACE \<and> user \<or>
      (case space_at (vm_ranges s) rs a of None \<Rightarrow> True | Some (fl, mmuflags, f) \<Rightarrow> invalid_actions mmuflags \<inter> actions \<noteq> {})"
  shows "vmm_pagefault ops addr user actions s = Some (False, s)"
proof -
  have "getrange sp a s = Some (find (\<lambda>r. covers (vm_ranges s r) a) rs)" by (rule getrange_find [OF ok])
  then show ?thesis using bad a(2) unfolding vmm_pagefault_def a(1) [symmetric] Let_def space_at_def seen_def
    by (auto split: option.splits)
qed

lemma pmm_frame_cases:
  assumes "frames_inv s F"
  shows "pmm_frame takepage s = Some (None, s) \<or> (\<exists>f s'. pmm_frame takepage s = Some (Some f, s') \<and> f \<noteq> 0 \<and> f AND ADDRMASK = f
    \<and> refcount (pages s (unat f div 4096)) = 0 \<and> frames_inv s' F
    \<and> (\<forall>q. q \<noteq> unat f div 4096 \<longrightarrow> unlinked (pages s' q) = unlinked (pages s q)))"
proof -
  obtain L where L: "pmm_ok s L" "\<And>c. c < 3 \<Longrightarrow> L True c = []" "\<And>c p. c < 3 \<Longrightarrow> p \<in> set (L False c) \<Longrightarrow> p \<noteq> 0 \<and> p < 2 ^ 51"
    using assms unfolding frames_inv_def by auto
  have c: "PMM_SECTION_DEFAULT < 3" and st: "\<And>c'. c' \<le> PMM_SECTION_DEFAULT \<Longrightarrow> L True c' = []"
    using L(2) by (simp_all add: PMM_SECTION_DEFAULT_def)
  consider "pmm_allocpage takepage PMM_SECTION_DEFAULT s = Some (None, s)"
    | p s' where "pmm_allocpage takepage PMM_SECTION_DEFAULT s = Some (Some (p * 4096), s')" "p \<in> set (L False (section_of p))"
        "\<forall>q. q \<noteq> p \<longrightarrow> unlinked (pages s' q) = unlinked (pages s q)"
    using allocpage_free [OF L(1) c st, of takepage] by blast
  then show ?thesis
  proof cases
    case 2
    let ?f = "of_nat (p * 4096) :: u64"
    note P = page_address [of p] L(3) [OF section_of_less 2(2)]
    have u: "unat ?f div 4096 = p" using P by simp
    have f: "pmm_frame takepage s = Some (Some ?f, s')" using 2(1) by (simp add: pmm_frame_def)
    have "frames_inv s' (insert ?f F)" using pmm_tables.alloc_fresh [OF assms f] by simp
    then have "frames_inv s' F" by (simp add: frames_inv_def)
    moreover have "refcount (pages s p) = 0" using pmm_okD(3) [OF L(1) 2(2)] by (simp add: frame_ok_def)
    ultimately show ?thesis using f P u 2(3) by (intro disjI2 exI [of _ ?f] exI [of _ s']) simp
  qed (simp add: pmm_frame_def)
qed

lemma remap_lookup:
  assumes tr: "tree_ok mem t" and p: "lookup mem t va \<noteq> 0" and f: "f \<noteq> 0"
  shows "lookup (arch_mmu_remap t f va flags mem) t va' =
    (if va' AND PAGEMASK = va AND PAGEMASK then (f AND ADDRMASK) OR flags else lookup mem t va')"
proof -
  obtain n where n: "table_at mem t (butlast (page_path va)) = Some n"
    using p by (auto simp: lookup_def entry_at_def split: option.splits)
  have "arch_mmu_remap t f va flags mem = set_entry n (last (page_path va)) ((f AND ADDRMASK) OR flags) mem"
    using n f by (simp add: arch_mmu_remap_def get_page_path)
  moreover have "length (page_path va) = 4" for va by (simp add: page_path_def)
  ultimately show ?thesis using entry_at_leaf [OF tr n] by (simp add: lookup_def page_path_eq_iff)
qed

text \<open>The other CPUs that are awake are the ones that answer a shootdown.\<close>

definition cpus_ok :: "cpus \<Rightarrow> bool" where
  "cpus_ok c \<longleftrightarrow> distinct (cp_order c) \<and> set (cp_order c) = {..<cp_awake c} - {cp_me c} \<and> cp_me c < cp_awake c"

lemma invalidate_returns:
  assumes "cpus_ok (vm_cpus s)" and "addr mod PAGE_SIZE = 0"
  obtains d where "invalidate addr sz s = Some (s\<lparr>vm_shootdown := d\<rparr>)"
proof -
  let ?c = "vm_cpus s"
  have "length (cp_order ?c) = cp_awake ?c - 1"
    using assms(1) distinct_card [of "cp_order ?c"] by (auto simp: cpus_ok_def)
  then have "\<exists>d. arch_mmu_invalidate_range (cp_thread ?c) (cp_awake ?c) (cp_running ?c) (cp_order ?c) (cp_me ?c) addr sz (vm_shootdown s) = Some d"
    using assms(2) by (simp add: arch_mmu_invalidate_range_def Let_def tlbipi_remaining)
  then show ?thesis using that by (auto simp: invalidate_def)
qed

text \<open>A write fault on an anonymous page that is there but not writable, and what it does when the frame is shared.\<close>

lemma pagefault_readonly:
  assumes ok: "ranges_ok sp s rs" and a: "a = ROUND_DOWN addr PAGE_SIZE" "getspace a s = Some sp" "sp \<noteq> KERNEL_SPACE"
    and rng: "space_at (vm_ranges s) rs a = Some (fl, mmuflags, f)" "mmuflags AND ARCH_MMU_FLAGS_WRITE \<noteq> 0"
    and pg: "lookup (vm_tables s) (pagetable s) a \<noteq> 0" "lookup (vm_tables s) (pagetable s) a AND ARCH_MMU_FLAGS_WRITE = 0"
  obtains r where "vr_flags (vm_ranges s r) = fl" and "vr_mmuflags (vm_ranges s r) = mmuflags"
    and "vmm_pagefault ops addr True {VMM_ACTION_WRITE} s = fault_readonly ops a (vm_ranges s r) s"
proof -
  obtain r where r: "find (\<lambda>r. covers (vm_ranges s r) a) rs = Some r" "vr_flags (vm_ranges s r) = fl" "vr_mmuflags (vm_ranges s r) = mmuflags"
    using rng(1) by (auto simp: space_at_def seen_def)
  have "vmm_pagefault ops addr True {VMM_ACTION_WRITE} s = fault_readonly ops a (vm_ranges s r) s"
    using a(2,3) rng(2) r pg getrange_find [OF ok, of a] unfolding vmm_pagefault_def a(1) [symmetric] Let_def
    by (simp add: queries invalid_actions_def)
  with r(2,3) show ?thesis by (rule that)
qed

lemma fault_readonly_shared:
  assumes "VMM_FLAGS_FILE \<notin> vr_flags x" and "refcount (pages (vm_frames s) (unat (physical_of s a) div 4096)) \<noteq> 1"
  shows "fault_readonly ops a x s = do {
      (n, s') \<leftarrow> allocframe s;
      (case n of
         None \<Rightarrow> Some (True, send_sigbus s')
       | Some newphys \<Rightarrow> do {
           let s' = remap_in (pagetable s') newphys a (vr_mmuflags x) (copy_frame newphys (physical_of s a) s');
           s' \<leftarrow> invalidate a PAGE_SIZE s';
           s' \<leftarrow> releaseframe (physical_of s a) s';
           Some (True, s')
         }) }"
  using assms by (simp add: fault_readonly_def pmm_getpage_def Let_def cong: option.case_cong)


subsection \<open>Forks\<close>

text \<open>Insertions leave the page tables alone.\<close>

lemma tables_upd [simp]:
  "vm_tables (upd_range r f s) = vm_tables s" "vm_tables (set_ranges sp h s) = vm_tables s" "vm_tables (freerange r s) = vm_tables s"
  "vm_tables (set_prev_of h p s) = vm_tables s"
  by (simp_all add: upd_range_def set_ranges_def freerange_def set_header_def set_prev_of_def Let_def split: spaceid.split option.split)

lemma link_tables: "link_range sp new r s = Some s' \<Longrightarrow> vm_tables s' = vm_tables s"
  by (auto simp: link_range_def Let_def bind_eq_Some_conv split: if_splits)

lemma join_tables: "join a b s = Some s' \<Longrightarrow> vm_tables s' = vm_tables s"
  by (auto simp: join_def release_vnode_def Let_def bind_eq_Some_conv split: if_splits)

lemma join_next_tables: "join_next new s = Some s' \<Longrightarrow> vm_tables s' = vm_tables s"
  by (auto simp: join_next_def split: option.splits if_splits dest: join_tables)

lemma join_prev_tables: "join_prev new s = Some s' \<Longrightarrow> vm_tables s' = vm_tables s"
  by (auto simp: join_prev_def split: option.splits if_splits dest: join_tables)

lemma insertrange_tables: "insertrange sp new s = Some s' \<Longrightarrow> vm_tables s' = vm_tables s"
  by (auto simp: insertrange_def bind_eq_Some_conv split: option.splits dest!: link_tables join_next_tables join_prev_tables)

lemma in_order_pos: "in_order R lo rs hi \<Longrightarrow> r \<in> set rs \<Longrightarrow> 0 < vr_size (R r)"
  by (induction rs arbitrary: lo) auto

lemma insertrange_joined:
  assumes ok: "ranges_ok sp s (xs @ [p])" and new: "new \<notin> set (xs @ [p])" and an: "VMM_FLAGS_FILE \<notin> vr_flags (vm_ranges s p)"
    and x: "unat (sp_start (space_of sp s)) \<le> unat (vr_start (vm_ranges s new))" "0 < vr_size (vm_ranges s new)"
      "ntop (vm_ranges s new) \<le> unat (sp_end (space_of sp s))" "ntop (vm_ranges s p) \<le> unat (vr_start (vm_ranges s new))"
    and j: "joinable (vm_ranges s p) (vm_ranges s new)" and ins: "insertrange sp new s = Some s'"
  shows "vr_size (vm_ranges s' new) = 0" and "\<And>q. q \<noteq> p \<Longrightarrow> q \<noteq> new \<Longrightarrow> content (vm_ranges s' q) = content (vm_ranges s q)"
proof -
  note D = ranges_okD [OF ok]
  obtain r rs where rs: "xs @ [p] = r # rs" by (cases "xs @ [p]") auto
  obtain m where m: "in_order (vm_ranges s) (unat (sp_start (space_of sp s))) xs m" "in_order (vm_ranges s) m [p] (unat (sp_end (space_of sp s)))"
    using D(2) unfolding in_order_append by blast
  have before: "ntop (vm_ranges s q) \<le> unat (vr_start (vm_ranges s new))" if "q \<in> set (r # rs)" for q
    using that in_order_bounds [OF m(1), of q] m(2) x(4) ntop_pos [of "vm_ranges s p"] unfolding rs [symmetric] by force
  then have dis: "\<forall>q\<in>set (r # rs). ntop (vm_ranges s q) \<le> unat (vr_start (vm_ranges s new)) \<or> ntop (vm_ranges s new) \<le> unat (vr_start (vm_ranges s q))"
    by blast
  obtain us ys s1 where s1: "r # rs = us @ ys" "link_range sp new r s = Some s1"
      "nchain (range_next s1) (sp_ranges (space_of sp s1)) (us @ new # ys) None"
      "in_order (vm_ranges s1) (unat (sp_start (space_of sp s))) (us @ new # ys) (unat (sp_end (space_of sp s)))"
      "vr_prev (vm_ranges s1 new) = (if us = [] then None else Some (last us))" "\<And>q. content (vm_ranges s1 q) = content (vm_ranges s q)"
    by (rule link_range_ok [OF D(1,2) [unfolded rs] new [unfolded rs] x(1-3) dis]) (rule that)
  have "ys = []"
  proof (rule ccontr)
    assume "ys \<noteq> []"
    then obtain q zs where q: "ys = q # zs" by (cases ys) auto
    have "ntop (vm_ranges s1 new) \<le> unat (vr_start (vm_ranges s1 q))" using s1(4) q unfolding in_order_append by auto
    then have "ntop (vm_ranges s new) \<le> unat (vr_start (vm_ranges s q))" using content_fields(1,7) [OF s1(6)] by simp
    moreover have "q \<in> set (r # rs)" "q \<in> set (xs @ [p])" unfolding s1(1) rs using q by simp_all
    then have "unat (vr_start (vm_ranges s q)) < ntop (vm_ranges s q)" "ntop (vm_ranges s q) \<le> unat (vr_start (vm_ranges s new))"
      using before in_order_pos [OF D(2)] ntop_pos by blast+
    ultimately show False using ntop_pos [OF x(2)] by linarith
  qed
  then have us: "us = xs @ [p]" using s1(1) rs by simp
  then have nx: "vr_next (vm_ranges s1 new) = None" "vr_prev (vm_ranges s1 new) = Some p"
    using s1(3,5) \<open>ys = []\<close> by (auto simp: nchain_append range_next_def)
  have j1: "joinable (vm_ranges s1 p) (vm_ranges s1 new)" using j content_fields [OF s1(6)] by (simp add: joinable_def)
  have h: "sp_ranges (space_of sp s) = Some r" using D(1) rs by simp
  then have J: "join p new s1 = Some s'" using ins s1(2) nx j1 by (simp add: insertrange_def join_next_def join_prev_def)
  have "VMM_FLAGS_FILE \<in> vr_flags (vm_ranges s1 p) \<longrightarrow> (\<exists>v. vr_vnode (vm_ranges s1 p) = Some v \<and> 1 < vnode_refs (vm_frames s1) v)"
      "p \<noteq> new" "vr_next (vm_ranges s1 new) \<noteq> Some p"
    using an content_fields(3) [OF s1(6)] new nx by auto
  from join_result [where sp = sp, OF this] J s1(6) show "vr_size (vm_ranges s' new) = 0"
    and "\<And>q. q \<noteq> p \<Longrightarrow> q \<noteq> new \<Longrightarrow> content (vm_ranges s' q) = content (vm_ranges s q)" by (metis option.inject)+
qed

text \<open>
  C39: \<open>vmm_fork\<close> copies no page of an anonymous range that begins where the previous one of the child ends, when both have the same flags and
  protection, as two halves of a range do after \<open>vmm_changemmuflags\<close> made them equal again. \<open>insertrange\<close> joins the copy to
  the previous range and frees it, so that its size is 0 when the loop over its pages starts: the step succeeds, the
  address space of the child contains the region, and its page table is what it was.
\<close>

theorem fork_skips_joined_range:
  assumes ok: "ranges_ok (USER_SPACE new) s (xs @ [p])" and al: "allocrange s = Some (Some n, s1)"
    and r: "r \<in> in_use s" "r \<notin> set (xs @ [p])" "VMM_FLAGS_FILE \<notin> vr_flags (vm_ranges s r)"
    and x: "ntop (vm_ranges s p) \<le> unat (vr_start (vm_ranges s r))" "ntop (vm_ranges s r) \<le> unat (sp_end (space_of (USER_SPACE new) s))"
    and j: "joinable (vm_ranges s p) (vm_ranges s r)"
  shows "\<exists>s' rs. fork_range old new r s = Some (True, s') \<and> vm_tables s' = vm_tables s \<and> ranges_ok (USER_SPACE new) s' rs
    \<and> (\<forall>a. covers (vm_ranges s r) a \<longrightarrow> space_at (vm_ranges s') rs a = Some (vr_flags (vm_ranges s r), vr_mmuflags (vm_ranges s r), None))"
proof -
  let ?sp = "USER_SPACE new" and ?s = "upd_range n (\<lambda>_. vm_ranges s r) s1"
  note D = ranges_okD [OF ok]
  have t: "range_taken s (Some n) s1" using allocrange_taken [OF _ _ al] D(4) by (simp add: managed_def)
  have r1: "vm_ranges s1 r = vm_ranges s r" "n \<noteq> r" using t r(1) by (auto simp: range_taken_def)
  have sz: "0 < vr_size (vm_ranges s r)" using r(1) by (simp add: in_use_def word_neq_0_conv)
  then have "vr_size (vm_ranges s r) \<noteq> 0" by auto
  note F = fill_range [OF ok t this]
  have p: "vm_ranges ?s p = vm_ranges s p" using F(7) by simp
  have fp: "VMM_FLAGS_FILE \<notin> vr_flags (vm_ranges ?s p)" using j r(3) p by (simp add: joinable_def)
  obtain m where m: "in_order (vm_ranges s) (unat (sp_start (space_of ?sp s))) xs m" "in_order (vm_ranges s) m [p] (unat (sp_end (space_of ?sp s)))"
    using D(2) unfolding in_order_append by blast
  have lo: "unat (sp_start (space_of ?sp s)) \<le> unat (vr_start (vm_ranges s r))"
    using in_order_bounds [OF D(2), of p] ntop_pos [of "vm_ranges s p"] m(2) x(1) by simp
  have before: "ntop (vm_ranges s q) \<le> unat (vr_start (vm_ranges s r))" if "q \<in> set (xs @ [p])" for q
    using that in_order_bounds [OF m(1), of q] m(2) x(1) ntop_pos [of "vm_ranges s p"] by force
  have X: "unat (sp_start (space_of ?sp ?s)) \<le> unat (vr_start (vm_ranges ?s n))" "0 < vr_size (vm_ranges ?s n)"
      "ntop (vm_ranges ?s n) \<le> unat (sp_end (space_of ?sp ?s))" "ntop (vm_ranges ?s p) \<le> unat (vr_start (vm_ranges ?s n))"
      "joinable (vm_ranges ?s p) (vm_ranges ?s n)"
    unfolding F(5,6) p by (rule lo sz x j)+
  have gap: "\<forall>q\<in>set (xs @ [p]). ntop (vm_ranges ?s q) \<le> unat (vr_start (vm_ranges ?s n)) \<or> ntop (vm_ranges ?s n) \<le> unat (vr_start (vm_ranges ?s q))"
    unfolding F(6) using before F(7) by (metis (no_types))
  have refs: "refs_ok ?s (n # xs @ [p])"
    by (rule refs_ok_Cons [OF ranges_okD(3) [OF F(3)] refl]) (unfold F(6), use r(3) in simp_all)
  obtain s' rs where s': "insertrange ?sp n ?s = Some s'" "ranges_ok ?sp s' rs"
      "\<And>a. space_at (vm_ranges s') rs a = (if covers (vm_ranges ?s n) a then Some (seen (vm_ranges ?s n) a) else space_at (vm_ranges ?s) (xs @ [p]) a)"
    using insertrange_space [OF F(3,1) refs F(2) X(1-3) gap] by (elim exE conjE) (rule that, auto)
  note I = insertrange_joined [OF F(3,1) fp X s'(1)]
  have "r \<noteq> p" "r \<noteq> n" using r(2) r1(2) by auto
  then have "content (vm_ranges s' r) = content (vm_ranges ?s r)" by (rule I(2))
  then have "vr_flags (vm_ranges s' r) = vr_flags (vm_ranges ?s r)" by (rule content_fields(3))
  then have "VMM_FLAGS_FILE \<notin> vr_flags (vm_ranges s' r)" using r(3) r1 \<open>r \<noteq> n\<close> by simp
  then have "fork_range old new r s = Some (True, s')"
    using al s'(1) I(1) r1(1) by (simp add: fork_range_def for_pages.simps [of 0 0] Let_def)
  moreover have "vm_tables s' = vm_tables s" using insertrange_tables [OF s'(1)] only_ranges_fields(2) [of s s1] t by (simp add: range_taken_def)
  ultimately show ?thesis using s'(2,3) F(6) r(3) by (intro exI [of _ s'] exI [of _ rs]) (simp add: seen_def)
qed

subsection \<open>Protection\<close>

text \<open>What \<open>changemmurange\<close> makes of the entry of a page.\<close>

definition restricted :: "u64 \<Rightarrow> u64 \<Rightarrow> u64" where
  "restricted n e = (let c = e AND FLAGS_MASK; m = lost_flags c n in if m = 0 then e else (e AND ADDRMASK) OR (c AND NOT m))"

lemma mmu_and_flag:
  "x AND ARCH_MMU_FLAGS_READ = 0 \<longleftrightarrow> \<not> bit x 0" "x AND ARCH_MMU_FLAGS_WRITE = 0 \<longleftrightarrow> \<not> bit x 1"
  "x AND ARCH_MMU_FLAGS_USER = 0 \<longleftrightarrow> \<not> bit x 2" "x AND ARCH_MMU_FLAGS_NOEXEC = 0 \<longleftrightarrow> \<not> bit x 63"
  using and_exp_eq_0_iff_not_bit [of x 0] and_exp_eq_0_iff_not_bit [of x 1] and_exp_eq_0_iff_not_bit [of x 2] and_exp_eq_0_iff_not_bit [of x 63]
  by (simp_all add: ARCH_MMU_FLAGS_READ_def ARCH_MMU_FLAGS_WRITE_def ARCH_MMU_FLAGS_USER_def ARCH_MMU_FLAGS_NOEXEC_def)

lemma mmu_flag_bits:
  "bit ARCH_MMU_FLAGS_READ i \<longleftrightarrow> i = 0" "bit ARCH_MMU_FLAGS_WRITE i \<longleftrightarrow> i = 1"
  "bit ARCH_MMU_FLAGS_USER i \<longleftrightarrow> i = 2" "bit ARCH_MMU_FLAGS_NOEXEC i \<longleftrightarrow> i = 63"
  using bit_exp_iff [of 0 i, where 'a = "64 word"] bit_exp_iff [of 1 i, where 'a = "64 word"] bit_exp_iff [of 2 i, where 'a = "64 word"]
    bit_exp_iff [of 63 i, where 'a = "64 word"]
  by (auto simp: ARCH_MMU_FLAGS_READ_def ARCH_MMU_FLAGS_WRITE_def ARCH_MMU_FLAGS_USER_def ARCH_MMU_FLAGS_NOEXEC_def)

lemma bit_lost_flags: "bit (lost_flags c n) i \<longleftrightarrow> i \<in> {0, 1, 2, 63} \<and> bit c i \<and> \<not> bit n i"
  by (cases "i = 0"; cases "i = 1"; cases "i = 2"; cases "i = 63") (simp_all add: lost_flags_def CHANGE_MASK_CHECK_def mmu_and_flag bit_or_iff mmu_flag_bits)

lemma bit_FLAGS_MASK: "bit FLAGS_MASK i \<longleftrightarrow> i \<in> {0, 1, 2, 63}"
  by (auto simp: FLAGS_MASK_def bit_or_iff mmu_flag_bits)

lemma bit_ADDRMASK: "bit ADDRMASK i \<longleftrightarrow> 12 \<le> i \<and> i < 63"
proof -
  have "ADDRMASK = push_bit 12 (mask 51)" by (simp add: ADDRMASK_def push_bit_eq_mult mask_eq_exp_minus_1)
  then show ?thesis unfolding \<open>ADDRMASK = _\<close> by (auto simp: bit_push_bit_iff bit_mask_iff)
qed

lemma restricted_flags:
  assumes "f \<in> {ARCH_MMU_FLAGS_READ, ARCH_MMU_FLAGS_WRITE, ARCH_MMU_FLAGS_USER, ARCH_MMU_FLAGS_NOEXEC}"
  shows "restricted n e AND f \<noteq> 0 \<longleftrightarrow> e AND f \<noteq> 0 \<and> n AND f \<noteq> 0"
proof -
  let ?c = "e AND FLAGS_MASK"
  have "bit (restricted n e) i \<longleftrightarrow> bit e i \<and> bit n i" if i: "i \<in> {0, 1, 2, 63}" for i
  proof (cases "lost_flags ?c n = 0")
    case True
    then have "\<not> bit (lost_flags ?c n) i" by simp
    then have "bit e i \<longrightarrow> bit n i" using i unfolding bit_lost_flags by (auto simp: bit_and_iff bit_FLAGS_MASK)
    then show ?thesis using True by (auto simp: restricted_def)
  next
    case False
    then show ?thesis using i
      unfolding insert_iff empty_iff by (elim disjE; simp add: restricted_def Let_def bit_and_iff bit_or_iff bit_not_iff_eq bit_lost_flags bit_FLAGS_MASK bit_ADDRMASK; blast)
  qed
  from this [of 0] this [of 1] this [of 2] this [of 63] show ?thesis using assms by (elim insertE emptyE) (simp_all add: mmu_and_flag)
qed

lemma restricted_addr: "restricted n e AND ADDRMASK = e AND ADDRMASK"
  by (rule bit_word_eqI) (auto simp: restricted_def Let_def bit_and_iff bit_or_iff bit_FLAGS_MASK bit_ADDRMASK bit_not_iff_eq)

lemma restricted_0 [simp]: "restricted n 0 = 0"
proof -
  have "lost_flags 0 n = 0" by (rule bit_word_eqI) (simp add: bit_lost_flags)
  then show ?thesis by (simp add: restricted_def)
qed

text \<open>One page, and then all pages of a region.\<close>

lemma remap_tree:
  assumes tr: "tree_ok mem t"
  shows "tree_ok (arch_mmu_remap t f va flags mem) t"
proof (cases "table_at mem t (butlast (page_path va))")
  case (Some n)
  have "length (butlast (page_path va)) = 3" by simp
  from tree_ok_cong(1) [OF tr table_at_leaf [OF tr Some this]] show ?thesis
    using Some by (simp add: arch_mmu_remap_def get_page_path Let_def)
qed (use tr in \<open>simp add: arch_mmu_remap_def get_page_path\<close>)

lemma remap_same_lookup:
  assumes tr: "tree_ok mem t" and g: "arch_mmu_getflags mem t va \<noteq> None"
  shows "lookup (arch_mmu_remap t (arch_mmu_getphysical mem t va) va flags mem) t va' =
    (if va' AND PAGEMASK = va AND PAGEMASK then (lookup mem t va AND ADDRMASK) OR flags else lookup mem t va')"
proof -
  obtain n where n: "table_at mem t (butlast (page_path va)) = Some n"
    using g by (auto simp: arch_mmu_getflags_def get_page_path split: option.splits)
  have "arch_mmu_remap t (arch_mmu_getphysical mem t va) va flags mem = set_entry n (last (page_path va)) ((lookup mem t va AND ADDRMASK) OR flags) mem"
    using n by (simp add: arch_mmu_remap_def get_page_path arch_mmu_getphysical_def lookup_get_page Let_def)
  moreover have "length (page_path va) = 4" for va by (simp add: page_path_def)
  ultimately show ?thesis using entry_at_leaf [OF tr n] by (simp add: lookup_def page_path_eq_iff)
qed

lemma changemmu_page_lookup:
  assumes tr: "tree_ok (vm_tables s) (pagetable s)" and x: "\<not> (VMM_FLAGS_FILE \<in> vr_flags x \<and> VMM_FLAGS_SHARED \<in> vr_flags x)"
  shows "\<exists>mem. changemmu_page ops x base n off s = Some (True, s\<lparr>vm_tables := mem\<rparr>) \<and> tree_ok mem (pagetable s)
    \<and> (\<forall>va. lookup mem (pagetable s) va = (let e = lookup (vm_tables s) (pagetable s) va
         in if va AND PAGEMASK = (base + off) AND PAGEMASK then restricted n e else e))"
proof -
  let ?a = "base + off" and ?t = "pagetable s" and ?m = "vm_tables s"
  have same: "lookup ?m ?t va = lookup ?m ?t ?a" if "va AND PAGEMASK = ?a AND PAGEMASK" for va
    using that by (simp add: lookup_def flip: page_path_eq_iff)
  show ?thesis
  proof (cases "arch_mmu_getflags ?m ?t ?a")
    case None
    then have "lookup ?m ?t ?a = 0" by (auto simp: arch_mmu_getflags_def lookup_get_page split: option.splits prod.splits)
    then have "lookup ?m ?t va = (let e = lookup ?m ?t va in if va AND PAGEMASK = ?a AND PAGEMASK then restricted n e else e)" for va
      using same [of va] by (simp add: Let_def)
    moreover have "changemmu_page ops x base n off s = Some (True, s\<lparr>vm_tables := ?m\<rparr>)" using None by (simp add: changemmu_page_def Let_def)
    ultimately show ?thesis using tr by blast
  next
    case (Some c)
    then have c: "c = lookup ?m ?t ?a AND FLAGS_MASK" by (auto simp: arch_mmu_getflags_def lookup_get_page split: option.splits)
    show ?thesis
    proof (cases "lost_flags c n = 0")
      case True
      then have "lookup ?m ?t va = (let e = lookup ?m ?t va in if va AND PAGEMASK = ?a AND PAGEMASK then restricted n e else e)" for va
        using same [of va] c by (simp add: restricted_def Let_def)
      moreover have "lost_flags c n AND ARCH_MMU_FLAGS_WRITE = 0" using True by simp
      then have "changemmu_page ops x base n off s = Some (True, s\<lparr>vm_tables := ?m\<rparr>)" using Some True by (simp add: changemmu_page_def Let_def)
      ultimately show ?thesis using tr by blast
    next
      case False
      let ?mem = "arch_mmu_remap ?t (arch_mmu_getphysical ?m ?t ?a) ?a (c AND NOT (lost_flags c n)) ?m"
      have "changemmu_page ops x base n off s = Some (True, s\<lparr>vm_tables := ?mem\<rparr>)"
        using Some False x by (auto simp: changemmu_page_def Let_def physical_of_def remap_in_def)
      moreover have "lookup ?mem ?t va = (let e = lookup ?m ?t va in if va AND PAGEMASK = ?a AND PAGEMASK then restricted n e else e)" for va
        using remap_same_lookup [OF tr, of ?a _ va] Some False same [of va] c by (simp add: restricted_def Let_def)
      ultimately show ?thesis using remap_tree [OF tr] by blast
    qed
  qed
qed

lemma same_page_iff:
  assumes "unat a < 2 ^ 48" and "unat b < 2 ^ 48"
  shows "a AND PAGEMASK = b AND PAGEMASK \<longleftrightarrow> unat a div 4096 = unat b div 4096"
proof -
  have p: "PAGEMASK = push_bit 12 (mask 36)" by (simp add: PAGEMASK_def push_bit_eq_mult mask_eq_exp_minus_1)
  have *: "unat (x AND PAGEMASK) = unat x div 4096 * 4096" if "unat x < 2 ^ 48" for x
  proof -
    have "take_bit 48 x = x" using that by (simp add: word_unat_eq_iff unsigned_take_bit_eq take_bit_nat_eq_self)
    then have "bit x i \<Longrightarrow> i < 48" for i by (metis bit_take_bit_iff)
    then have "x AND PAGEMASK = push_bit 12 (drop_bit 12 x)"
      unfolding p by (intro bit_word_eqI) (auto simp: bit_and_iff bit_push_bit_iff bit_mask_iff bit_drop_bit_eq less_diff_conv2)
    moreover have "unat (drop_bit 12 x) = unat x div 4096" by (simp add: drop_bit_eq_div unat_div_distrib)
    ultimately show ?thesis using that by (simp add: push_bit_eq_mult unat_word_ariths)
  qed
  show ?thesis using * [OF assms(1)] * [OF assms(2)] by (metis mult_cancel2 word_unat_eq_iff zero_neq_numeral)
qed

lemma same_page_nat:
  assumes "a mod 4096 = (0 :: nat)"
  shows "v div 4096 = a div 4096 \<longleftrightarrow> a \<le> v \<and> v < a + 4096"
proof -
  obtain q where "a = 4096 * q" using assms by (auto elim: dvdE simp: mod_eq_0_iff_dvd)
  then show ?thesis by simp arith
qed

lemma changemmu_pages:
  assumes x: "\<not> (VMM_FLAGS_FILE \<in> vr_flags x \<and> VMM_FLAGS_SHARED \<in> vr_flags x)" and base: "unat base mod 4096 = 0"
  shows "tree_ok (vm_tables s) (pagetable s) \<Longrightarrow> unat lim = unat off + k * 4096 \<Longrightarrow> unat off mod 4096 = 0 \<Longrightarrow> unat base + unat lim \<le> 2 ^ 47 \<Longrightarrow>
    \<exists>mem. for_pages off lim (changemmu_page ops x base n) s = Some (True, s\<lparr>vm_tables := mem\<rparr>)
    \<and> (\<forall>va. unat va < 2 ^ 47 \<longrightarrow> lookup mem (pagetable s) va = (let e = lookup (vm_tables s) (pagetable s) va
         in if unat base + unat off \<le> unat va \<and> unat va < unat base + unat lim then restricted n e else e))"
proof (induction k arbitrary: off s)
  case 0
  then have "\<not> off < lim" by (simp add: word_less_nat_alt)
  then show ?case using 0 by (intro exI [of _ "vm_tables s"]) (auto simp: for_pages.simps Let_def)
next
  case (Suc k)
  have less: "off < lim" using Suc.prems(2) by (simp add: word_less_nat_alt)
  have next_off: "unat (off + PAGE_SIZE) = unat off + 4096" "unat (base + off) = unat base + unat off"
    using Suc.prems(2,4) by (simp_all add: PAGE_SIZE_def unat_word_ariths)
  obtain m1 where m1: "changemmu_page ops x base n off s = Some (True, s\<lparr>vm_tables := m1\<rparr>)" "tree_ok m1 (pagetable s)"
      "\<And>va. lookup m1 (pagetable s) va = (let e = lookup (vm_tables s) (pagetable s) va
         in if va AND PAGEMASK = (base + off) AND PAGEMASK then restricted n e else e)"
    using changemmu_page_lookup [OF Suc.prems(1) x] by blast
  let ?s = "s\<lparr>vm_tables := m1\<rparr>"
  have pt: "pagetable ?s = pagetable s" by (simp add: pagetable_def)
  obtain m2 where m2: "for_pages (off + PAGE_SIZE) lim (changemmu_page ops x base n) ?s = Some (True, ?s\<lparr>vm_tables := m2\<rparr>)"
      "\<And>va. unat va < 2 ^ 47 \<Longrightarrow> lookup m2 (pagetable s) va = (let e = lookup m1 (pagetable s) va
         in if unat base + unat (off + PAGE_SIZE) \<le> unat va \<and> unat va < unat base + unat lim then restricted n e else e)"
    using Suc.IH [of ?s "off + PAGE_SIZE"] Suc.prems m1(2) pt next_off(1) by auto
  have "for_pages off lim (changemmu_page ops x base n) s = Some (True, s\<lparr>vm_tables := m2\<rparr>)"
    using less m1(1) m2(1) by (simp add: for_pages.simps [of off])
  moreover have "lookup m2 (pagetable s) va = (let e = lookup (vm_tables s) (pagetable s) va
         in if unat base + unat off \<le> unat va \<and> unat va < unat base + unat lim then restricted n e else e)" if va: "unat va < 2 ^ 47" for va
  proof -
    have "va AND PAGEMASK = (base + off) AND PAGEMASK \<longleftrightarrow> unat va div 4096 = (unat base + unat off) div 4096"
      using same_page_iff [of va "base + off"] va Suc.prems(2,4) next_off(2) by simp
    also have "\<dots> \<longleftrightarrow> unat base + unat off \<le> unat va \<and> unat va < unat base + unat off + 4096"
      by (rule same_page_nat) (use base Suc.prems(3) in \<open>metis add.right_neutral mod_0 mod_add_eq\<close>)
    finally show ?thesis using m2(2) [OF va] m1(3) [of va] next_off(1) Suc.prems(2) by (auto simp: Let_def)
  qed
  ultimately show ?case by blast
qed


subsection \<open>Concrete states\<close>

definition ex_ops :: vnode_ops where
  "ex_ops = \<lparr>vn_is_file = \<lambda>_. True, vn_iscacheable = \<lambda>_. True, vn_getpage = \<lambda>_ _. E_OK, vn_access_write = \<lambda>_. E_OK,
     vn_mmap = \<lambda>_ _ _ _ s. Some (E_OK, s), vn_munmap = \<lambda>_ _ _ _ s. Some (E_OK, s)\<rparr>"

lemma ex_vmm_fields: "vm_frames ex_vmm = Vmmcache.ex_cache {}" "getspace 0x2000 ex_vmm = Some (USER_SPACE 0)" "getspace 0x3000 ex_vmm = Some (USER_SPACE 0)"
  "pagetable ex_vmm = 0x1000" "cpus_ok (vm_cpus ex_vmm)"
  by (auto simp: ex_vmm_def getspace_def USERSPACE_START_def USERSPACE_END_def pagetable_def cpus_ok_def)

lemma ex_cache_pmm_ok: "pmm_ok (Vmmcache.ex_cache {}) (\<lambda>_ _. [])"
  by (simp add: Vmmcache.ex_cache_def vmmcache_init_def pmm.extend_def ex_blank_def pmm_ok_def lists_ok_def free_listed_def ALLOCATED_def
      blank_page_def list_of_def tail_of_def)

lemma ex_vmm_frames: "frames_inv (vm_frames ex_vmm) {}"
  unfolding frames_inv_def ex_vmm_fields using ex_cache_pmm_ok by (intro conjI exI [of _ "\<lambda>_ _. []"]) auto

lemma ex_vmm_alloc: obtains n s1 where "allocrange ex_vmm = Some (Some n, s1)"
proof -
  have "0 < length (vm_cachelist ex_vmm)" "0 < rc_freecount (vm_cachelist ex_vmm ! 0)" "caches_ok ex_vmm"
    using ex_vmm_managed by (simp_all add: ex_vmm_def managed_def)
  then show ?thesis using allocrange_here [of ex_vmm 0] that by (auto simp: allocrange_def)
qed


text \<open>The page at 0x3000 mapped read-only to the frame 9, which has two references.\<close>

definition ex_shared :: vmm where
  "ex_shared = ex_vmm\<lparr>vm_tables := set_entry 0x4000 3 0x9005 ex_tables,
     vm_frames := upd_page 9 (\<lambda>x. x\<lparr>refcount := refcount x + 1\<rparr>) (Vmmcache.ex_cache {})\<rparr>"

lemma ex_shared_fields: "vm_ranges ex_shared = vm_ranges ex_vmm" "space_of sp ex_shared = space_of sp ex_vmm" "pagetable ex_shared = 0x1000"
  "getspace 0x3000 ex_shared = Some (USER_SPACE 0)" "cpus_ok (vm_cpus ex_shared)" "refcount (pages (vm_frames ex_shared) 9) = 2"
proof -
  show "space_of sp ex_shared = space_of sp ex_vmm" by (simp add: ex_shared_def space_of_def split: spaceid.split)
  show "refcount (pages (vm_frames ex_shared) 9) = 2" by (simp add: ex_shared_def upd_page_def ex_cache_fields ALLOCATED_def)
  show "cpus_ok (vm_cpus ex_shared)" using ex_vmm_fields(5) by (simp add: ex_shared_def)
qed (simp_all add: ex_shared_def ex_vmm_def getspace_def pagetable_def USERSPACE_START_def USERSPACE_END_def)

lemma ex_shared_ok: "ranges_ok (USER_SPACE 0) ex_shared [RangeId 0 2]"
proof (rule ranges_ok_more(1) [OF ex_vmm_ok])
  have "vm_cachelist ex_shared = vm_cachelist ex_vmm" by (simp add: ex_shared_def)
  then show "managed ex_shared [RangeId 0 2]" using managed_cong [of ex_shared ex_vmm "[RangeId 0 2]" "[RangeId 0 2]"] ranges_okD(4) [OF ex_vmm_ok]
    by (simp add: ex_shared_fields)
qed (simp_all add: ex_shared_fields, simp add: ex_shared_def ex_vmm_fields)

lemma ex_shared_frames: "frames_inv (vm_frames ex_shared) {}"
proof -
  have "refcount (pages (Vmmcache.ex_cache {}) 9) \<noteq> 0" by (simp add: ex_cache_fields ALLOCATED_def)
  from hold_held(2) [OF ex_cache_pmm_ok this] show ?thesis
    unfolding frames_inv_def by (intro conjI exI [of _ "\<lambda>_ _. []"]) (auto simp: ex_shared_def)
qed

lemma ex_shared_tables: "tree_ok (vm_tables ex_shared) 0x1000" "lookup (vm_tables ex_shared) 0x1000 0x3000 = 0x9005"
proof -
  have t: "table_at ex_tables 0x1000 (butlast (page_path 0x3000)) = Some 0x4000"
    by (simp add: page_path_def pml4offset_def pdptoffset_def pdoffset_def PML4MASK_def PDPTMASK_def PDMASK_def next_table_def ex_tables_def ADDRMASK_def)
  have p: "last (page_path 0x3000) = 3" "length (page_path 0x3000) = 4" by (simp_all add: ptoffset_def PTMASK_def)
  have l: "length (butlast (page_path 0x3000)) = 3" by (simp add: page_path_def)
  have "tree_ok (set_entry 0x4000 3 0x9005 ex_tables) 0x1000" by (rule tree_ok_cong(1) [OF ex_tables_ok table_at_leaf [OF ex_tables_ok t l]])
  then show "tree_ok (vm_tables ex_shared) 0x1000" by (simp add: ex_shared_def)
  show "lookup (vm_tables ex_shared) 0x1000 0x3000 = 0x9005"
    using entry_at_leaf [OF ex_tables_ok t p(2) p(2), of "0x9005"] p(1) by (simp add: lookup_def ex_shared_def)
qed


theorem fork_skips_joined_range_witness:
  "\<exists>s'. fork_range 0 5 (RangeId 0 3) ex_vmm = Some (True, s') \<and> vm_tables s' = vm_tables ex_vmm"
proof -
  have sp: "space_of (USER_SPACE 5) ex_vmm = space_of (USER_SPACE 0) ex_vmm" by (simp add: space_of_def ex_vmm_def)
  have ok: "ranges_ok (USER_SPACE 5) ex_vmm ([] @ [RangeId 0 2])" using ex_vmm_ok by (simp add: ranges_ok_def sp)
  obtain n s1 where al: "allocrange ex_vmm = Some (Some n, s1)" by (rule ex_vmm_alloc)
  have "RangeId 0 3 \<in> in_use ex_vmm" using ex_vmm_managed by (simp add: managed_def)
  moreover have "RangeId 0 3 \<notin> set ([] @ [RangeId 0 2])" "VMM_FLAGS_FILE \<notin> vr_flags (vm_ranges ex_vmm (RangeId 0 3))"
      "ntop (vm_ranges ex_vmm (RangeId 0 2)) \<le> unat (vr_start (vm_ranges ex_vmm (RangeId 0 3)))"
      "ntop (vm_ranges ex_vmm (RangeId 0 3)) \<le> unat (sp_end (space_of (USER_SPACE 5) ex_vmm))"
      "joinable (vm_ranges ex_vmm (RangeId 0 2)) (vm_ranges ex_vmm (RangeId 0 3))"
    by (simp_all add: ex_vmm_ranges ex_range_def ntop_def sp ex_vmm_space joinable_def RANGE_TOP_def)
  ultimately show ?thesis using fork_skips_joined_range [OF ok al, of "RangeId 0 3" 0] by blast
qed


end
