(* ===== verification/Files.thy ===== *)
theory Files
  imports Prelude "HOL-Library.Monad_Syntax"
begin

text \<open>
  Open files and file descriptor tables: \<^verbatim>\<open>src/kernel-src/fs/file.c\<close> and \<^verbatim>\<open>include/kernel/file.h\<close>.

  A file object is known by a number; the state records which objects are allocated. A table is a list of descriptors
  with the count and the first-free hint of the process. Reading or writing outside the table, a use of a freed file object and a failed assertion
  are \<open>None\<close>. The mutex of the table makes an operation one step. What \<open>slab_allocate\<close>, \<open>alloc\<close> and \<open>realloc\<close>
  answer are arguments.

  The lemmas show that the reference count of a file is the number of descriptors and holds on it, so that it
  is freed with the last of them and never used afterwards, that \<open>fd_new\<close> returns the lowest free descriptor, and where
  \<open>fd_dup\<close> and \<open>fd_insert\<close> leave the table.
\<close>

subsection \<open>Files\<close>

type_synonym fileid = nat
type_synonym pid = nat

record file_t =
  fl_vnode :: "nat option"
  fl_refcount :: int
  fl_offset :: u64
  fl_flags :: "32 word"

record fd_t =
  fd_file :: "fileid option"
  fd_flags :: "32 word"

text \<open>The fields \<open>fd\<close>, \<open>fdcount\<close> and \<open>fdfirst\<close> of a process.\<close>

record fdtable =
  ft_fd :: "fd_t list"
  ft_fdcount :: int
  ft_fdfirst :: int

text \<open>\<open>fs_closed\<close> lists the calls of \<open>vfs_close\<close>, the last one first.\<close>

record fstate =
  fs_files :: "fileid \<Rightarrow> file_t"
  fs_live :: "fileid set"
  fs_procs :: "pid \<Rightarrow> fdtable"
  fs_closed :: "(nat \<times> 32 word) list"
  fs_vrefs :: "nat \<Rightarrow> int"

definition FDTABLE_LIMIT :: int where
  "FDTABLE_LIMIT = 256"

definition fileflagstovnodeflags :: "32 word \<Rightarrow> 32 word" where
  "fileflagstovnodeflags flags =
     (if flags AND 1 \<noteq> 0 then 1 else 0) OR (if flags AND 2 \<noteq> 0 then 2 else 0)
     OR (if flags AND 0x800 \<noteq> 0 then 4 else 0) OR (if flags AND 0x100 \<noteq> 0 then 32 else 0)
     OR (if flags AND (0x4000 OR 0x101000 OR 0x1000) \<noteq> 0 then 64 else 0)"

definition upd_file :: "fileid \<Rightarrow> (file_t \<Rightarrow> file_t) \<Rightarrow> fstate \<Rightarrow> fstate" where
  "upd_file f g s = s\<lparr>fs_files := (fs_files s)(f := g (fs_files s f))\<rparr>"

definition set_table :: "pid \<Rightarrow> fdtable \<Rightarrow> fstate \<Rightarrow> fstate" where
  "set_table q p s = s\<lparr>fs_procs := (fs_procs s)(q := p)\<rparr>"

text \<open>The constructor of file objects, which is also their destructor.\<close>

definition ctor :: "file_t \<Rightarrow> file_t" where
  "ctor x = x\<lparr>fl_vnode := None, fl_refcount := 1, fl_offset := 0\<rparr>"

text \<open>\<open>obj\<close> is what \<open>slab_allocate\<close> returned.\<close>

definition newfile :: "fileid option \<Rightarrow> fstate \<Rightarrow> fileid option \<times> fstate" where
  "newfile obj s = (case obj of
     None \<Rightarrow> (None, s)
   | Some f \<Rightarrow> (Some f, (upd_file f ctor s)\<lparr>fs_live := insert f (fs_live s)\<rparr>))"

definition cleanfile :: "fileid \<Rightarrow> fstate \<Rightarrow> fstate" where
  "cleanfile f s =
     (let x = fs_files s f;
          s = (case fl_vnode x of
                 None \<Rightarrow> s
               | Some v \<Rightarrow> s\<lparr>fs_closed := (v, fileflagstovnodeflags (fl_flags x)) # fs_closed s, fs_vrefs := (fs_vrefs s)(v := fs_vrefs s v - 1)\<rparr>)
      in (upd_file f ctor s)\<lparr>fs_live := fs_live s - {f}\<rparr>)"

definition FILE_HOLD :: "fileid \<Rightarrow> fstate \<Rightarrow> fstate option" where
  "FILE_HOLD f s = (if f \<in> fs_live s then Some (upd_file f (\<lambda>x. x\<lparr>fl_refcount := fl_refcount x + 1\<rparr>) s) else None)"

definition FILE_RELEASE :: "fileid \<Rightarrow> fstate \<Rightarrow> fstate option" where
  "FILE_RELEASE f s =
     (if f \<in> fs_live s then
        let s = upd_file f (\<lambda>x. x\<lparr>fl_refcount := fl_refcount x - 1\<rparr>) s
        in Some (if fl_refcount (fs_files s f) = 0 then cleanfile f s else s)
      else None)"

definition fd_allocate :: "fileid option \<Rightarrow> fstate \<Rightarrow> fileid option \<times> fstate" where
  "fd_allocate obj s = newfile obj s"

definition fd_release :: "fileid \<Rightarrow> fstate \<Rightarrow> fstate option" where
  "fd_release f s = FILE_RELEASE f s"

subsection \<open>Tables\<close>

text \<open>The descriptor at an index, and an assignment to it. Comparisons with \<open>fdcount\<close>, a \<open>size_t\<close>, are unsigned.\<close>

definition fd_at :: "fdtable \<Rightarrow> int \<Rightarrow> fd_t option" where
  "fd_at p i = (if 0 \<le> i \<and> i < int (length (ft_fd p)) then Some (ft_fd p ! nat i) else None)"

definition set_fd :: "int \<Rightarrow> fd_t \<Rightarrow> fdtable \<Rightarrow> fdtable option" where
  "set_fd i e p = (if 0 \<le> i \<and> i < int (length (ft_fd p)) then Some (p\<lparr>ft_fd := (ft_fd p)[nat i := e]\<rparr>) else None)"

definition below_count :: "int \<Rightarrow> fdtable \<Rightarrow> bool" where
  "below_count i p \<longleftrightarrow> 0 \<le> i \<and> i < ft_fdcount p"

function getfree_loop :: "fdtable \<Rightarrow> int \<Rightarrow> int option" where
  "getfree_loop p sfd =
     (if below_count sfd p then do { e \<leftarrow> fd_at p sfd; (if fd_file e \<noteq> None then getfree_loop p (sfd + 1) else Some sfd) }
      else Some sfd)"
  by pat_completeness auto
termination
  by (relation "measure (\<lambda>(p, sfd). nat (ft_fdcount p - sfd))") (auto simp: below_count_def)

declare getfree_loop.simps [simp del]

definition getfree :: "int \<Rightarrow> fdtable \<Rightarrow> int option" where
  "getfree start p = do {
     sfd \<leftarrow> getfree_loop p start;
     Some (if sfd \<noteq> ft_fdcount p then sfd else -1)
   }"

text \<open>\<open>ok\<close> says whether \<open>realloc\<close> succeeds; it clears what it adds.\<close>

definition growtable :: "bool \<Rightarrow> int \<Rightarrow> fdtable \<Rightarrow> (errno \<times> fdtable) option" where
  "growtable ok newcount p =
     (if newcount > FDTABLE_LIMIT then Some (EMFILE, p)
      else if \<not> newcount > ft_fdcount p then None
      else if \<not> ok then Some (ENOMEM, p)
      else Some (E_OK, p\<lparr>ft_fd := ft_fd p @ replicate (nat newcount - length (ft_fd p)) \<lparr>fd_file = None, fd_flags = 0\<rparr>, ft_fdcount := newcount\<rparr>))"

text \<open>The file of a descriptor, if it is inside the table.\<close>

definition file_of :: "int \<Rightarrow> fdtable \<Rightarrow> fileid option option" where
  "file_of i p = (if below_count i p then map_option fd_file (fd_at p i) else Some None)"

definition fd_get :: "pid \<Rightarrow> int \<Rightarrow> fstate \<Rightarrow> (fileid option \<times> fstate) option" where
  "fd_get q i s = do {
     file \<leftarrow> file_of i (fs_procs s q);
     (case file of
        None \<Rightarrow> Some (None, s)
      | Some f \<Rightarrow> do { s \<leftarrow> FILE_HOLD f s; Some (file, s) })
   }"

definition fd_setflags :: "pid \<Rightarrow> int \<Rightarrow> 32 word \<Rightarrow> fstate \<Rightarrow> (errno \<times> fstate) option" where
  "fd_setflags q i flags s = do {
     e \<leftarrow> fd_at (fs_procs s q) i;
     if fd_file e \<noteq> None then do { p \<leftarrow> set_fd i (e\<lparr>fd_flags := flags\<rparr>) (fs_procs s q); Some (E_OK, set_table q p s) }
     else Some (EBADF, s)
   }"

definition fd_getflags :: "pid \<Rightarrow> int \<Rightarrow> fstate \<Rightarrow> (errno \<times> 32 word option) option" where
  "fd_getflags q i s = do {
     e \<leftarrow> fd_at (fs_procs s q) i;
     Some (if fd_file e \<noteq> None then (E_OK, Some (fd_flags e)) else (EBADF, None))
   }"

definition fd_new :: "pid \<Rightarrow> 32 word \<Rightarrow> fileid option \<Rightarrow> bool \<Rightarrow> fstate \<Rightarrow> (errno \<times> (fileid \<times> int) option \<times> fstate) option" where
  "fd_new q flags obj ok s = (case newfile obj s of
     (None, s) \<Rightarrow> Some (ENOMEM, None, s)
   | (Some f, s) \<Rightarrow> do {
       let p = fs_procs s q;
       i \<leftarrow> getfree (ft_fdfirst p) p;
       (e, i, p) \<leftarrow> (if i = -1
                   then do { (e, p') \<leftarrow> growtable ok (ft_fdcount p + 1) p; Some (e, ft_fdcount p, p') }
                   else Some (E_OK, i, p));
       if e \<noteq> E_OK then Some (e, None, cleanfile f s)
       else do {
         p \<leftarrow> set_fd i \<lparr>fd_file = Some f, fd_flags = flags\<rparr> (p\<lparr>ft_fdfirst := i + 1\<rparr>);
         Some (E_OK, Some (f, i), set_table q p s)
       }
     })"

definition fd_close :: "pid \<Rightarrow> int \<Rightarrow> fstate \<Rightarrow> (errno \<times> fstate) option" where
  "fd_close q i s = do {
     let p = fs_procs s q;
     file \<leftarrow> file_of i p;
     (case file of
        None \<Rightarrow> Some (EBADF, s)
      | Some f \<Rightarrow> do {
          e \<leftarrow> fd_at p i;
          p \<leftarrow> set_fd i (e\<lparr>fd_file := None\<rparr>) p;
          let p = (if ft_fdfirst p > i then p\<lparr>ft_fdfirst := i\<rparr> else p);
          s \<leftarrow> FILE_RELEASE f (set_table q p s);
          Some (E_OK, s)
        })
   }"

text \<open>The loop of \<open>fd_clone\<close> over the descriptors, which takes a reference to each file that is open.\<close>

fun clone_loop :: "fd_t list \<Rightarrow> fstate \<Rightarrow> fstate option" where
  "clone_loop [] s = Some s"
| "clone_loop (e # es) s = (case fd_file e of
     None \<Rightarrow> clone_loop es s
   | Some f \<Rightarrow> do { s \<leftarrow> FILE_HOLD f s; clone_loop es s })"

text \<open>The new table is cleared memory; a descriptor without a file is not copied.\<close>

definition copied :: "fd_t \<Rightarrow> fd_t" where
  "copied e = (if fd_file e = None then \<lparr>fd_file = None, fd_flags = 0\<rparr> else e)"

definition fd_clone :: "pid \<Rightarrow> pid \<Rightarrow> bool \<Rightarrow> fstate \<Rightarrow> (errno \<times> fstate) option" where
  "fd_clone q targ ok s =
     (let p = fs_procs s q
      in if \<not> ok then Some (ENOMEM, set_table targ \<lparr>ft_fd = [], ft_fdcount = ft_fdcount p, ft_fdfirst = ft_fdfirst p\<rparr> s)
         else do {
           s \<leftarrow> clone_loop (ft_fd p) (set_table targ (p\<lparr>ft_fd := map copied (ft_fd p)\<rparr>) s);
           Some (E_OK, s)
         })"

definition fd_insert :: "pid \<Rightarrow> fileid \<Rightarrow> bool \<Rightarrow> fstate \<Rightarrow> (errno \<times> int option \<times> fstate) option" where
  "fd_insert q f ok s = do {
     let p = fs_procs s q;
     i \<leftarrow> getfree 0 p;
     (e, i, p) \<leftarrow> (if i = -1
                 then do { (e, p') \<leftarrow> growtable ok (ft_fdcount p) p; Some (e, ft_fdcount p, p') }
                 else Some (E_OK, i, p));
     if e \<noteq> E_OK then Some (e, None, s)
     else do {
       p \<leftarrow> set_fd i \<lparr>fd_file = Some f, fd_flags = 0\<rparr> p;
       s \<leftarrow> FILE_HOLD f (set_table q p s);
       Some (E_OK, Some i, s)
     }
   }"

definition dup_exact :: "pid \<Rightarrow> fileid \<Rightarrow> int \<Rightarrow> 32 word \<Rightarrow> bool \<Rightarrow> fstate \<Rightarrow> (errno \<times> int option \<times> fstate) option" where
  "dup_exact q f newfd flags ok s = do {
     let p = fs_procs s q;
     (e, p) \<leftarrow> (if newfd \<ge> ft_fdcount p then growtable ok (newfd + 1) p else Some (E_OK, p));
     if e \<noteq> E_OK then Some (e, None, s)
     else do {
       old \<leftarrow> fd_at p newfd;
       s \<leftarrow> (case fd_file old of None \<Rightarrow> Some s | Some g \<Rightarrow> FILE_RELEASE g s);
       p \<leftarrow> set_fd newfd \<lparr>fd_file = Some f, fd_flags = flags\<rparr> p;
       s \<leftarrow> FILE_HOLD f (set_table q p s);
       Some (E_OK, Some newfd, s)
     }
   }"

definition dup_above :: "pid \<Rightarrow> fileid \<Rightarrow> int \<Rightarrow> 32 word \<Rightarrow> bool \<Rightarrow> fstate \<Rightarrow> (errno \<times> int option \<times> fstate) option" where
  "dup_above q f newfd flags ok s = do {
     let p = fs_procs s q;
     i \<leftarrow> getfree newfd p;
     (e, i, p) \<leftarrow> (if i = -1
                 then let newsize = (if newfd < ft_fdcount p then ft_fdcount p + 1 else newfd)
                      in do { (e, p') \<leftarrow> growtable ok newsize p; Some (e, newsize - 1, p') }
                 else Some (E_OK, i, p));
     if e \<noteq> E_OK then Some (e, None, s)
     else do {
       p \<leftarrow> set_fd i \<lparr>fd_file = Some f, fd_flags = flags\<rparr> p;
       s \<leftarrow> FILE_HOLD f (set_table q p s);
       Some (E_OK, Some i, s)
     }
   }"

definition fd_dup :: "pid \<Rightarrow> int \<Rightarrow> int \<Rightarrow> bool \<Rightarrow> 32 word \<Rightarrow> bool \<Rightarrow> fstate \<Rightarrow> (errno \<times> int option \<times> fstate) option" where
  "fd_dup q oldfd newfd exact flags ok s =
     (if newfd < 0 \<or> newfd \<ge> FDTABLE_LIMIT then Some (EBADF, None, s)
      else do {
        file \<leftarrow> file_of oldfd (fs_procs s q);
        (case file of
           None \<Rightarrow> Some (EBADF, None, s)
         | Some f \<Rightarrow> if exact then dup_exact q f newfd flags ok s else dup_above q f newfd flags ok s)
      })"

subsection \<open>System calls\<close>

text \<open>\<^verbatim>\<open>src/kernel-src/sys/syscalls/dup.c\<close> and \<^verbatim>\<open>fcntl.c\<close>: the error number, the value returned and the state.\<close>

definition dup_result :: "errno \<times> int option \<times> fstate \<Rightarrow> errno \<times> int \<times> fstate" where
  "dup_result = (\<lambda>(e, r, s). (e, case r of None \<Rightarrow> -1 | Some i \<Rightarrow> i, s))"

definition syscall_dup :: "pid \<Rightarrow> int \<Rightarrow> bool \<Rightarrow> fstate \<Rightarrow> (errno \<times> int \<times> fstate) option" where
  "syscall_dup q oldfd ok s = map_option dup_result (fd_dup q oldfd 0 False 0 ok s)"

definition syscall_dup2 :: "pid \<Rightarrow> int \<Rightarrow> int \<Rightarrow> bool \<Rightarrow> fstate \<Rightarrow> (errno \<times> int \<times> fstate) option" where
  "syscall_dup2 q oldfd newfd ok s =
     (if oldfd = newfd then Some (E_OK, newfd, s) else map_option dup_result (fd_dup q oldfd newfd True 0 ok s))"

definition syscall_dup3 :: "pid \<Rightarrow> int \<Rightarrow> int \<Rightarrow> 32 word \<Rightarrow> bool \<Rightarrow> fstate \<Rightarrow> (errno \<times> int \<times> fstate) option" where
  "syscall_dup3 q oldfd newfd flags ok s =
     (if oldfd = newfd then Some (EINVAL, -1, s) else map_option dup_result (fd_dup q oldfd newfd True flags ok s))"

text \<open>\<open>junk\<close> is the value of the variables that \<open>fd_dup\<close> and \<open>fd_getflags\<close> leave alone when they fail.\<close>

definition fcntl_command :: "pid \<Rightarrow> int \<Rightarrow> fileid \<Rightarrow> int \<Rightarrow> u64 \<Rightarrow> bool \<Rightarrow> int \<Rightarrow> fstate \<Rightarrow> (errno \<times> int \<times> fstate) option" where
  "fcntl_command q i f cmd arg ok junk s =
     (if cmd = 0 then do {
        (_, r, s) \<leftarrow> fd_dup q i (sint (ucast arg :: 32 word)) False 0 ok s;
        Some (E_OK, case r of None \<Rightarrow> junk | Some j \<Rightarrow> j, s)
      }
      else if cmd = 3 then Some (E_OK, sint (fl_flags (fs_files s f) - 1), s)
      else if cmd = 4 then
        let arg = arg AND NOT 0x3c3
        in Some (E_OK, 0, upd_file f (\<lambda>x. x\<lparr>fl_flags := (fl_flags x AND NOT (0x400 OR 0x2000 OR 0x40000 OR 0x800)) OR ucast arg\<rparr>) s)
      else if cmd = 2 then do { (_, s) \<leftarrow> fd_setflags q i (if arg AND 1 \<noteq> 0 then 0x80000 else 0) s; Some (E_OK, 0, s) }
      else if cmd = 1 then do {
        (_, flg) \<leftarrow> fd_getflags q i s;
        Some (E_OK, if (case flg of None \<Rightarrow> junk \<noteq> 0 | Some w \<Rightarrow> w \<noteq> 0) then 1 else 0, s)
      }
      else Some (EINVAL, -1, s))"

definition syscall_fcntl :: "pid \<Rightarrow> int \<Rightarrow> int \<Rightarrow> u64 \<Rightarrow> bool \<Rightarrow> int \<Rightarrow> fstate \<Rightarrow> (errno \<times> int \<times> fstate) option" where
  "syscall_fcntl q i cmd arg ok junk s = do {
     (file, s) \<leftarrow> fd_get q i s;
     (case file of
        None \<Rightarrow> Some (EBADF, -1, s)
      | Some f \<Rightarrow> do {
          (e, r, s) \<leftarrow> fcntl_command q i f cmd arg ok junk s;
          s \<leftarrow> fd_release f s;
          Some (e, if e \<noteq> E_OK then -1 else r, s)
        })
   }"

subsection \<open>References\<close>

text \<open>How often a table and a set of processes refer to a file, and the counts the file objects have to show for \<open>T\<close> references.\<close>

definition uses_of :: "fdtable \<Rightarrow> fileid \<Rightarrow> nat" where
  "uses_of p f = count_list (map fd_file (ft_fd p)) (Some f)"

definition descriptors :: "fstate \<Rightarrow> pid set \<Rightarrow> fileid \<Rightarrow> nat" where
  "descriptors s P f = (\<Sum>q\<in>P. uses_of (fs_procs s q) f)"

definition counts_ok :: "fstate \<Rightarrow> (fileid \<Rightarrow> int) \<Rightarrow> bool" where
  "counts_ok s T \<longleftrightarrow> (\<forall>f. if f \<in> fs_live s then fl_refcount (fs_files s f) = T f \<and> 0 < T f else T f = 0)"

text \<open>All descriptors below the hint are in use.\<close>

definition table_ok :: "fdtable \<Rightarrow> bool" where
  "table_ok p \<longleftrightarrow> ft_fdcount p = int (length (ft_fd p)) \<and> ft_fdcount p \<le> FDTABLE_LIMIT \<and> 0 \<le> ft_fdfirst p \<and> ft_fdfirst p \<le> ft_fdcount p
     \<and> (\<forall>i < nat (ft_fdfirst p). fd_file (ft_fd p ! i) \<noteq> None)"

text \<open>\<open>H f\<close> is the number of pointers to \<open>f\<close> that calls of \<open>fd_get\<close> and \<open>fd_allocate\<close> returned and \<open>fd_release\<close> did not give back.\<close>

definition files_ok :: "pid set \<Rightarrow> (fileid \<Rightarrow> nat) \<Rightarrow> fstate \<Rightarrow> bool" where
  "files_ok P H s \<longleftrightarrow> finite P \<and> (\<forall>q\<in>P. table_ok (fs_procs s q)) \<and> counts_ok s (\<lambda>f. int (descriptors s P f) + int (H f))"

lemma procs_same [simp]:
  "fs_procs (upd_file f g s) = fs_procs s" "fs_procs (cleanfile f s) = fs_procs s" "fs_procs (set_table q p s) = (fs_procs s)(q := p)"
  "fs_files (set_table q p s) = fs_files s" "fs_live (set_table q p s) = fs_live s" "fs_live (upd_file f g s) = fs_live s"
  "fs_live (cleanfile f s) = fs_live s - {f}" "fs_files (upd_file f g s) = (fs_files s)(f := g (fs_files s f))"
  by (simp_all add: upd_file_def cleanfile_def set_table_def Let_def split: option.split)

lemma clean_other [simp]: "g \<noteq> f \<Longrightarrow> fs_files (cleanfile f s) g = fs_files s g"
  by (simp add: upd_file_def cleanfile_def Let_def split: option.split)

lemma counts_set_table [simp]: "counts_ok (set_table q p s) T \<longleftrightarrow> counts_ok s T"
  by (simp add: counts_ok_def)

lemma hold_counts:
  assumes "counts_ok s T" and "0 < T f"
  shows "\<exists>s'. FILE_HOLD f s = Some s' \<and> counts_ok s' (T(f := T f + 1)) \<and> fs_procs s' = fs_procs s"
proof -
  have "f \<in> fs_live s" using assms unfolding counts_ok_def by (metis less_irrefl)
  moreover have "if g \<in> fs_live s then fl_refcount (fs_files s g) = T g \<and> 0 < T g else T g = 0" for g using assms(1) unfolding counts_ok_def by blast
  ultimately have "counts_ok (upd_file f (\<lambda>x. x\<lparr>fl_refcount := fl_refcount x + 1\<rparr>) s) (T(f := T f + 1))"
    unfolding counts_ok_def by (simp add: less_imp_le [OF assms(2)])
  then show ?thesis using \<open>f \<in> fs_live s\<close> by (simp add: FILE_HOLD_def)
qed

lemma release_counts:
  assumes "counts_ok s T" and "0 < T f"
  shows "\<exists>s'. FILE_RELEASE f s = Some s' \<and> counts_ok s' (T(f := T f - 1)) \<and> fs_procs s' = fs_procs s"
proof -
  have f: "f \<in> fs_live s" using assms unfolding counts_ok_def by (metis less_irrefl)
  let ?s = "upd_file f (\<lambda>x. x\<lparr>fl_refcount := fl_refcount x - 1\<rparr>) s"
  have c: "fl_refcount (fs_files s f) = T f" using assms(1) f unfolding counts_ok_def by metis
  then have r: "FILE_RELEASE f s = Some (if T f = 1 then cleanfile f ?s else ?s)" using f by (simp add: FILE_RELEASE_def)
  have "counts_ok (if T f = 1 then cleanfile f ?s else ?s) (T(f := T f - 1))"
    unfolding counts_ok_def
  proof
    fix g
    have "if g \<in> fs_live s then fl_refcount (fs_files s g) = T g \<and> 0 < T g else T g = 0" using assms(1) unfolding counts_ok_def by blast
    then show "if g \<in> fs_live (if T f = 1 then cleanfile f ?s else ?s) then fl_refcount (fs_files (if T f = 1 then cleanfile f ?s else ?s) g) = (T(f := T f - 1)) g \<and> 0 < (T(f := T f - 1)) g
        else (T(f := T f - 1)) g = 0"
      using c f assms(2) by (cases "g = f") (auto split: if_splits)
  qed
  then show ?thesis using r by simp
qed

lemma newfile_counts:
  assumes "counts_ok s T" and "f \<notin> fs_live s"
  shows "\<exists>s'. newfile (Some f) s = (Some f, s') \<and> counts_ok s' (T(f := 1)) \<and> fs_procs s' = fs_procs s \<and> counts_ok (cleanfile f s') T"
proof -
  let ?s = "(upd_file f ctor s)\<lparr>fs_live := insert f (fs_live s)\<rparr>"
  have a: "if g \<in> fs_live s then fl_refcount (fs_files s g) = T g \<and> 0 < T g else T g = 0" for g using assms(1) unfolding counts_ok_def by blast
  have "counts_ok ?s (T(f := 1))" unfolding counts_ok_def using a assms(2) by (auto simp: ctor_def)
  moreover have "counts_ok (cleanfile f ?s) T" unfolding counts_ok_def
  proof
    fix g
    show "if g \<in> fs_live (cleanfile f ?s) then fl_refcount (fs_files (cleanfile f ?s) g) = T g \<and> 0 < T g else T g = 0"
      using a [of g] assms(2) by (cases "g = f") (auto split: if_splits)
  qed
  ultimately show ?thesis by (simp add: newfile_def)
qed

lemma count_list_update:
  "i < length xs \<Longrightarrow> int (count_list (xs[i := y]) a) = int (count_list xs a) - (if xs ! i = a then 1 else 0) + (if y = a then 1 else 0)"
proof (induction xs arbitrary: i)
  case (Cons x xs)
  show ?case
  proof (cases i)
    case (Suc j)
    then show ?thesis using Cons.IH [of j] Cons.prems by (simp split: if_splits)
  qed simp
qed simp

lemma uses_set_fd:
  assumes "set_fd i e p = Some p'"
  obtains e0 where "fd_at p i = Some e0" and "\<And>f. int (uses_of p' f) = int (uses_of p f) - (if fd_file e0 = Some f then 1 else 0) + (if fd_file e = Some f then 1 else 0)"
    and "length (ft_fd p') = length (ft_fd p)" and "ft_fdcount p' = ft_fdcount p" and "ft_fdfirst p' = ft_fdfirst p"
    and "\<And>j. ft_fd p' ! j = (if j = nat i then e else ft_fd p ! j)"
proof -
  have i: "0 \<le> i" "nat i < length (ft_fd p)" and p': "p' = p\<lparr>ft_fd := (ft_fd p)[nat i := e]\<rparr>"
    using assms by (auto simp: set_fd_def split: if_splits)
  have "int (uses_of p' f) = int (uses_of p f) - (if fd_file (ft_fd p ! nat i) = Some f then 1 else 0) + (if fd_file e = Some f then 1 else 0)" for f
    using count_list_update [of "nat i" "map fd_file (ft_fd p)" "fd_file e" "Some f"] i by (simp add: uses_of_def p' map_update)
  then show ?thesis using i p' by (intro that [of "ft_fd p ! nat i"]) (auto simp: fd_at_def nth_list_update)
qed

lemma descriptors_set_table:
  assumes "finite P" and "q \<in> P"
  shows "int (descriptors (set_table q p s) P f) = int (descriptors s P f) - int (uses_of (fs_procs s q) f) + int (uses_of p f)"
proof -
  have "descriptors (set_table q p s) P f = uses_of p f + (\<Sum>x\<in>P - {q}. uses_of (fs_procs s x) f)"
    unfolding descriptors_def using assms by (simp add: sum.remove)
  moreover have "descriptors s P f = uses_of (fs_procs s q) f + (\<Sum>x\<in>P - {q}. uses_of (fs_procs s x) f)"
    unfolding descriptors_def using assms by (simp add: sum.remove)
  ultimately show ?thesis by simp
qed

lemma descriptors_cong: "fs_procs s' = fs_procs s \<Longrightarrow> descriptors s' P = descriptors s P"
  by (simp add: descriptors_def fun_eq_iff)

lemma uses_le_descriptors: "finite P \<Longrightarrow> q \<in> P \<Longrightarrow> uses_of (fs_procs s q) f \<le> descriptors s P f"
  unfolding descriptors_def by (rule member_le_sum) auto

lemma uses_pos:
  assumes "fd_at p i = Some e" and "fd_file e = Some f"
  shows "0 < uses_of p f"
proof -
  have "Some f \<in> set (map fd_file (ft_fd p))"
    using assms by (auto simp: fd_at_def image_iff split: if_splits) (metis nat_less_iff nth_mem)
  then show ?thesis unfolding uses_of_def by (simp add: count_list_0_iff flip: neq0_conv)
qed

subsection \<open>Descriptors\<close>

lemma fd_at_ok: "table_ok p \<Longrightarrow> below_count i p \<Longrightarrow> fd_at p i = Some (ft_fd p ! nat i)"
  by (simp add: table_ok_def below_count_def fd_at_def)

lemma getfree_first:
  assumes "table_ok p" and "0 \<le> start" and "start \<le> ft_fdcount p"
  shows "\<exists>i. getfree_loop p start = Some i \<and> start \<le> i \<and> i \<le> ft_fdcount p \<and> (\<forall>j. start \<le> j \<and> j < i \<longrightarrow> fd_file (ft_fd p ! nat j) \<noteq> None)
    \<and> (i < ft_fdcount p \<longrightarrow> fd_file (ft_fd p ! nat i) = None)"
  using assms
proof (induction p start rule: getfree_loop.induct)
  case (1 p start)
  show ?case
  proof (cases "below_count start p")
    case True
    note e = fd_at_ok [OF 1(2) True]
    show ?thesis
    proof (cases "fd_file (ft_fd p ! nat start) = None")
      case False
      then obtain i where i: "getfree_loop p (start + 1) = Some i" "start + 1 \<le> i" "i \<le> ft_fdcount p"
          "\<And>j. start + 1 \<le> j \<Longrightarrow> j < i \<Longrightarrow> fd_file (ft_fd p ! nat j) \<noteq> None" "i < ft_fdcount p \<longrightarrow> fd_file (ft_fd p ! nat i) = None"
        using 1(1) [OF True] 1(2,3) True e by (auto simp: below_count_def)
      have "getfree_loop p start = Some i" using i(1) True e False by (simp add: getfree_loop.simps [of p start])
      moreover have "fd_file (ft_fd p ! nat j) \<noteq> None" if "start \<le> j" "j < i" for j using i(4) [of j] that False by (cases "j = start") auto
      ultimately show ?thesis using i by auto
    qed (use True e in \<open>auto simp: getfree_loop.simps [of p start] below_count_def\<close>)
  next
    case False
    then have "getfree_loop p start = Some start" by (simp add: getfree_loop.simps [of p start])
    then show ?thesis using False 1(3,4) by (auto simp: below_count_def)
  qed
qed

lemma file_of_ok: "table_ok p \<Longrightarrow> file_of i p = Some (if below_count i p then fd_file (ft_fd p ! nat i) else None)"
  by (simp add: file_of_def fd_at_ok)

lemma getfree_ok:
  assumes "table_ok p" and "0 \<le> start" and "start \<le> ft_fdcount p"
  obtains i where "getfree start p = Some (if i < ft_fdcount p then i else -1)" and "start \<le> i" and "i \<le> ft_fdcount p"
    and "\<And>j. start \<le> j \<Longrightarrow> j < i \<Longrightarrow> fd_file (ft_fd p ! nat j) \<noteq> None" and "i < ft_fdcount p \<Longrightarrow> fd_file (ft_fd p ! nat i) = None"
proof -
  from getfree_first [OF assms] obtain i where "getfree_loop p start = Some i" "start \<le> i" "i \<le> ft_fdcount p"
      "\<And>j. start \<le> j \<Longrightarrow> j < i \<Longrightarrow> fd_file (ft_fd p ! nat j) \<noteq> None" "i < ft_fdcount p \<Longrightarrow> fd_file (ft_fd p ! nat i) = None"
    by blast
  then show ?thesis by (intro that [of i]) (simp_all add: getfree_def)
qed

text \<open>A file put into a free descriptor of a table of a process, and a reference taken for it.\<close>

lemma table_filled:
  assumes "table_ok p" and "0 \<le> i" and "i < ft_fdcount p" and "ff = ft_fdfirst p \<or> ff = i + 1 \<and> (\<forall>j<nat i. fd_file (ft_fd p ! j) \<noteq> None)"
  shows "\<exists>p'. set_fd i \<lparr>fd_file = Some f, fd_flags = fl\<rparr> (p\<lparr>ft_fdfirst := ff\<rparr>) = Some p' \<and> table_ok p'
    \<and> (\<forall>g. int (uses_of p' g) = int (uses_of p g) - (if fd_file (ft_fd p ! nat i) = Some g then 1 else 0) + (if g = f then 1 else 0))
    \<and> (\<forall>j. file_of j p' = (if j = i then Some (Some f) else file_of j p))"
proof -
  obtain p' where p': "set_fd i \<lparr>fd_file = Some f, fd_flags = fl\<rparr> (p\<lparr>ft_fdfirst := ff\<rparr>) = Some p'"
    using assms(1-3) by (auto simp: set_fd_def table_ok_def)
  obtain e0 where e0: "fd_at (p\<lparr>ft_fdfirst := ff\<rparr>) i = Some e0"
      "\<And>g. int (uses_of p' g) = int (uses_of (p\<lparr>ft_fdfirst := ff\<rparr>) g) - (if fd_file e0 = Some g then 1 else 0) + (if Some f = Some g then 1 else 0)"
      "length (ft_fd p') = length (ft_fd p)" "ft_fdcount p' = ft_fdcount p" "ft_fdfirst p' = ff"
      "\<And>j. ft_fd p' ! j = (if j = nat i then \<lparr>fd_file = Some f, fd_flags = fl\<rparr> else ft_fd p ! j)"
    by (rule uses_set_fd [OF p'], rule that) simp_all
  have "e0 = ft_fd p ! nat i" using e0(1) assms by (auto simp: fd_at_def table_ok_def)
  moreover have "uses_of (p\<lparr>ft_fdfirst := ff\<rparr>) g = uses_of p g" for g by (simp add: uses_of_def)
  moreover have ok: "table_ok p'" using assms e0(3-6) by (auto simp: table_ok_def less_Suc_eq nat_add_distrib)
  moreover have "file_of j p' = (if j = i then Some (Some f) else file_of j p)" for j
    using assms(2,3) e0(4,6) by (auto simp: file_of_ok [OF assms(1)] file_of_ok [OF ok] below_count_def)
  ultimately show ?thesis using p' e0(2) by auto
qed

lemma growtable_ok:
  assumes "table_ok p" and "ft_fdcount p < n"
  shows "\<exists>e p'. growtable ok n p = Some (e, p') \<and> (e = E_OK \<or> p' = p)
    \<and> (e = E_OK \<longrightarrow> table_ok p' \<and> ft_fdcount p' = n \<and> ft_fdfirst p' = ft_fdfirst p \<and> (\<forall>g. uses_of p' g = uses_of p g)
        \<and> (\<forall>j. file_of j p' = file_of j p))
    \<and> (e = E_OK \<or> e = ENOMEM \<and> \<not> ok \<or> e = EMFILE \<and> FDTABLE_LIMIT < n)"
proof -
  let ?p = "p\<lparr>ft_fd := ft_fd p @ replicate (nat n - length (ft_fd p)) \<lparr>fd_file = None, fd_flags = 0\<rparr>, ft_fdcount := n\<rparr>"
  have "count_list (replicate k None) (Some g) = 0" for k and g :: fileid by (induction k) auto
  then have "uses_of ?p g = uses_of p g" for g by (simp add: uses_of_def)
  moreover have ok: "table_ok ?p" if "n \<le> FDTABLE_LIMIT" using assms that by (auto simp: table_ok_def nth_append)
  then have "file_of j ?p = file_of j p" if "n \<le> FDTABLE_LIMIT" for j
    using assms that by (auto simp: file_of_ok below_count_def table_ok_def nth_append)
  ultimately show ?thesis using assms ok by (simp add: growtable_def)
qed

text \<open>What an operation on the table of one process keeps.\<close>

lemma files_okD:
  assumes "files_ok P H s"
  shows "finite P" "q \<in> P \<Longrightarrow> table_ok (fs_procs s q)" "counts_ok s (\<lambda>f. int (descriptors s P f) + int (H f))"
  using assms by (auto simp: files_ok_def)

lemma set_table_ok:
  assumes ok: "files_ok P H s" and q: "q \<in> P" and p: "table_ok p" and s': "fs_procs s' = (fs_procs s)(q := p)"
    and c: "counts_ok s' T" and T: "\<And>f. T f = int (descriptors s P f) - int (uses_of (fs_procs s q) f) + int (uses_of p f) + int (H' f)"
  shows "files_ok P H' s'"
proof -
  have "descriptors s' P = descriptors (set_table q p s) P" by (rule descriptors_cong) (simp add: s')
  then have "T = (\<lambda>f. int (descriptors s' P f) + int (H' f))"
    using descriptors_set_table [OF files_okD(1) [OF ok] q, of p s] by (auto simp: fun_eq_iff T)
  then show ?thesis using c p s' files_okD(1,2) [OF ok] by (auto simp: files_ok_def)
qed

lemma held_pos:
  assumes "files_ok P H s" and "0 < H f \<or> (\<exists>q\<in>P. 0 < uses_of (fs_procs s q) f)"
  shows "0 < int (descriptors s P f) + int (H f)"
  using assms(2)
proof
  assume "\<exists>q\<in>P. 0 < uses_of (fs_procs s q) f"
  then obtain q where "q \<in> P" "0 < uses_of (fs_procs s q) f" by blast
  then show ?thesis using uses_le_descriptors [OF files_okD(1) [OF assms(1)], of q s f] by simp
qed simp

lemma fd_get_ok:
  assumes ok: "files_ok P H s" and q: "q \<in> P"
  shows "\<exists>r s'. fd_get q i s = Some (r, s') \<and> fs_procs s' = fs_procs s \<and> file_of i (fs_procs s q) = Some r
    \<and> files_ok P (case r of None \<Rightarrow> H | Some f \<Rightarrow> H(f := H f + 1)) s'"
proof (cases "below_count i (fs_procs s q)")
  case True
  note e = fd_at_ok [OF files_okD(2) [OF ok q] True]
  show ?thesis
  proof (cases "fd_file (ft_fd (fs_procs s q) ! nat i)")
    case None
    then show ?thesis using True e ok by (simp add: fd_get_def file_of_def)
  next
    case (Some f)
    have pos: "0 < int (descriptors s P f) + int (H f)" by (rule held_pos [OF ok]) (use uses_pos [OF e Some] q in blast)
    obtain s' where s': "FILE_HOLD f s = Some s'" "counts_ok s' ((\<lambda>f. int (descriptors s P f) + int (H f))(f := int (descriptors s P f) + int (H f) + 1))"
        "fs_procs s' = fs_procs s" using hold_counts [OF files_okD(3) [OF ok] pos] by blast
    have "files_ok P (H(f := H f + 1)) s'"
      by (rule set_table_ok [OF ok q files_okD(2) [OF ok q] _ s'(2)]) (auto simp: s'(3))
    then show ?thesis using True e Some s'(1,3) by (simp add: fd_get_def file_of_def)
  qed
qed (use ok in \<open>simp add: fd_get_def file_of_def\<close>)

lemma fd_release_ok:
  assumes ok: "files_ok P H s" and f: "0 < H f"
  shows "\<exists>s'. fd_release f s = Some s' \<and> fs_procs s' = fs_procs s \<and> files_ok P (H(f := H f - 1)) s'"
proof -
  have pos: "0 < int (descriptors s P f) + int (H f)" by (rule held_pos [OF ok]) (use f in blast)
  obtain s' where s': "FILE_RELEASE f s = Some s'" "counts_ok s' ((\<lambda>f. int (descriptors s P f) + int (H f))(f := int (descriptors s P f) + int (H f) - 1))"
      "fs_procs s' = fs_procs s" using release_counts [OF files_okD(3) [OF ok] pos] by blast
  moreover have "(\<lambda>f. int (descriptors s P f) + int (H f))(f := int (descriptors s P f) + int (H f) - 1) = (\<lambda>g. int (descriptors s' P g) + int ((H(f := H f - 1)) g))"
    using f by (auto simp: fun_eq_iff descriptors_cong [OF s'(3)])
  ultimately show ?thesis using ok by (simp add: fd_release_def files_ok_def)
qed

text \<open>A new file put into a free descriptor below which all are open.\<close>

lemma put_new:
  assumes ok: "files_ok P H s" and q: "q \<in> P"
    and s1: "counts_ok s1 ((\<lambda>f. int (descriptors s P f) + int (H f))(f := 1))" "fs_procs s1 = fs_procs s" "int (descriptors s P f) + int (H f) = 0"
    and i: "0 \<le> i" "file_of i (fs_procs s q) = Some None" "\<forall>j. 0 \<le> j \<and> j < i \<longrightarrow> file_of j (fs_procs s q) \<noteq> Some None"
    and p1: "table_ok p1" "i < ft_fdcount p1" "\<forall>g. uses_of p1 g = uses_of (fs_procs s q) g" "\<forall>j. file_of j p1 = file_of j (fs_procs s q)"
  shows "\<exists>p'. set_fd i \<lparr>fd_file = Some f, fd_flags = flags\<rparr> (p1\<lparr>ft_fdfirst := i + 1\<rparr>) = Some p' \<and> files_ok P H (set_table q p' s1)
    \<and> (\<forall>j. file_of j p' = (if j = i then Some (Some f) else file_of j (fs_procs s q)))"
proof -
  have "file_of i p1 = Some None" using i(2) p1(4) by simp
  then have free: "fd_file (ft_fd p1 ! nat i) = None" using p1(2) i(1) by (simp add: file_of_ok [OF p1(1)] below_count_def)
  have "fd_file (ft_fd p1 ! j) \<noteq> None" if "j < nat i" for j
  proof -
    have "file_of (int j) p1 \<noteq> Some None" using i(3) p1(4) that by auto
    then show ?thesis using p1(2) that by (auto simp: file_of_ok [OF p1(1)] below_count_def split: if_splits)
  qed
  then obtain p' where p': "set_fd i \<lparr>fd_file = Some f, fd_flags = flags\<rparr> (p1\<lparr>ft_fdfirst := i + 1\<rparr>) = Some p'" "table_ok p'"
      "\<And>g. int (uses_of p' g) = int (uses_of (fs_procs s q) g) + (if g = f then 1 else 0)"
      "\<And>j. file_of j p' = (if j = i then Some (Some f) else file_of j (fs_procs s q))"
    using table_filled [OF p1(1) i(1) p1(2), of "i + 1" f flags] p1(3,4) free by auto
  have "files_ok P H (set_table q p' s1)"
    by (rule set_table_ok [OF ok q p'(2), where T = "(\<lambda>f. int (descriptors s P f) + int (H f))(f := 1)"]) (use s1 p'(3) in auto)
  with p' show ?thesis by blast
qed

lemma fd_new_ok:
  assumes ok: "files_ok P H s" and q: "q \<in> P" and obj: "\<forall>f. obj = Some f \<longrightarrow> f \<notin> fs_live s"
  shows "\<exists>e r s'. fd_new q flags obj alloc s = Some (e, r, s') \<and> files_ok P H s' \<and>
    (case r of
       None \<Rightarrow> fs_procs s' = fs_procs s \<and> (e = ENOMEM \<and> (obj = None \<or> \<not> alloc) \<or> e = EMFILE \<and> (\<forall>j. 0 \<le> j \<and> j < FDTABLE_LIMIT \<longrightarrow> file_of j (fs_procs s q) \<noteq> Some None))
     | Some (f, i) \<Rightarrow> e = E_OK \<and> obj = Some f \<and> 0 \<le> i \<and> i < FDTABLE_LIMIT \<and> file_of i (fs_procs s q) = Some None
         \<and> (\<forall>j. 0 \<le> j \<and> j < i \<longrightarrow> file_of j (fs_procs s q) \<noteq> Some None)
         \<and> (\<forall>j. file_of j (fs_procs s' q) = (if j = i then Some (Some f) else file_of j (fs_procs s q))))"
proof (cases obj)
  case None
  then show ?thesis using ok by (simp add: fd_new_def newfile_def)
next
  case (Some f)
  let ?p = "fs_procs s q" and ?T = "\<lambda>f. int (descriptors s P f) + int (H f)"
  note D = files_okD [OF ok]
  note t = D(2) [OF q]
  obtain s1 where s1: "newfile (Some f) s = (Some f, s1)" "counts_ok s1 (?T(f := 1))" "fs_procs s1 = fs_procs s" "counts_ok (cleanfile f s1) ?T"
    using newfile_counts [OF D(3), of f] obj Some by blast
  have T0: "?T f = 0" using D(3) obj Some unfolding counts_ok_def by presburger
  have first: "0 \<le> ft_fdfirst ?p" "ft_fdfirst ?p \<le> ft_fdcount ?p" using t by (auto simp: table_ok_def)
  obtain i where i: "getfree (ft_fdfirst ?p) ?p = Some (if i < ft_fdcount ?p then i else -1)" "ft_fdfirst ?p \<le> i" "i \<le> ft_fdcount ?p"
      "\<And>j. ft_fdfirst ?p \<le> j \<Longrightarrow> j < i \<Longrightarrow> fd_file (ft_fd ?p ! nat j) \<noteq> None" "i < ft_fdcount ?p \<Longrightarrow> fd_file (ft_fd ?p ! nat i) = None"
    by (rule getfree_ok [OF t first], rule that) auto
  have used: "file_of j ?p \<noteq> Some None" if "0 \<le> j" "j < i" for j
  proof -
    have "fd_file (ft_fd ?p ! nat j) \<noteq> None" using i(4) [of j] that t by (cases "j < ft_fdfirst ?p") (auto simp: table_ok_def)
    then show ?thesis using that i(3) by (simp add: file_of_ok [OF t] below_count_def)
  qed
  have free: "file_of i ?p = Some None" using i(5) by (auto simp: file_of_ok [OF t] below_count_def)
  have i0: "0 \<le> i" using first(1) i(2) by simp
  have put: "\<exists>p'. set_fd i \<lparr>fd_file = Some f, fd_flags = flags\<rparr> (p1\<lparr>ft_fdfirst := i + 1\<rparr>) = Some p' \<and> files_ok P H (set_table q p' s1)
      \<and> (\<forall>j. file_of j p' = (if j = i then Some (Some f) else file_of j ?p))"
    if "table_ok p1" "i < ft_fdcount p1" "\<forall>g. uses_of p1 g = uses_of ?p g" "\<forall>j. file_of j p1 = file_of j ?p" for p1
    by (rule put_new [OF ok q s1(2,3) T0 i0 free _ that]) (use used in blast)
  show ?thesis
  proof (cases "i < ft_fdcount ?p")
    case True
    then obtain p' where "set_fd i \<lparr>fd_file = Some f, fd_flags = flags\<rparr> (?p\<lparr>ft_fdfirst := i + 1\<rparr>) = Some p'" "files_ok P H (set_table q p' s1)"
        "\<And>j. file_of j p' = (if j = i then Some (Some f) else file_of j ?p)" using put [OF t] by auto
    moreover have "i < FDTABLE_LIMIT" "file_of i ?p = Some None" using True i(5) t by (auto simp: table_ok_def file_of_ok [OF t])
    moreover have "0 \<le> i" "i \<noteq> -1" using first i(2) by auto
    ultimately show ?thesis using True i(1) s1(1,3) used Some by (simp add: fd_new_def)
  next
    case False
    then have ie: "i = ft_fdcount ?p" using i(3) by simp
    obtain e p1 where g: "growtable alloc (ft_fdcount ?p + 1) ?p = Some (e, p1)" "e = E_OK \<or> p1 = ?p"
        "e = E_OK \<Longrightarrow> table_ok p1 \<and> ft_fdcount p1 = ft_fdcount ?p + 1 \<and> (\<forall>g. uses_of p1 g = uses_of ?p g) \<and> (\<forall>j. file_of j p1 = file_of j ?p)"
        "e = E_OK \<or> e = ENOMEM \<and> \<not> alloc \<or> e = EMFILE \<and> FDTABLE_LIMIT < ft_fdcount ?p + 1"
      using growtable_ok [OF t, of "ft_fdcount ?p + 1" alloc] by auto
    show ?thesis
    proof (cases "e = E_OK")
      case True
      then obtain p' where "set_fd i \<lparr>fd_file = Some f, fd_flags = flags\<rparr> (p1\<lparr>ft_fdfirst := i + 1\<rparr>) = Some p'" "files_ok P H (set_table q p' s1)"
          "\<And>j. file_of j p' = (if j = i then Some (Some f) else file_of j ?p)" using put [of p1] g(3) ie by auto
      moreover have "i < FDTABLE_LIMIT" "file_of i ?p = Some None" using True g(3) ie by (auto simp: table_ok_def file_of_ok [OF t] below_count_def)
      ultimately show ?thesis using ie i(1) g(1) True first s1(1,3) used Some by (simp add: fd_new_def)
    next
      case False
      then have "fd_new q flags obj alloc s = Some (e, None, cleanfile f s1)" using ie i(1) g(1) s1(1,3) Some by (simp add: fd_new_def)
      moreover have "files_ok P H (cleanfile f s1)"
        by (rule set_table_ok [OF ok q t, where T = ?T]) (use s1(3,4) in auto)
      moreover have "file_of j ?p \<noteq> Some None" if "0 \<le> j" "j < FDTABLE_LIMIT" "FDTABLE_LIMIT < ft_fdcount ?p + 1" for j
        using used [of j] that ie by simp
      ultimately show ?thesis using False g(4) s1(3) by auto
    qed
  qed
qed

lemma fd_close_ok:
  assumes ok: "files_ok P H s" and q: "q \<in> P"
  shows "\<exists>e s'. fd_close q i s = Some (e, s') \<and> files_ok P H s'
    \<and> (if file_of i (fs_procs s q) = Some None then e = EBADF \<and> s' = s
       else e = E_OK \<and> (\<forall>j. file_of j (fs_procs s' q) = (if j = i then Some None else file_of j (fs_procs s q))))"
proof -
  let ?p = "fs_procs s q" and ?T = "\<lambda>f. int (descriptors s P f) + int (H f)"
  note D = files_okD [OF ok]
  note t = D(2) [OF q]
  show ?thesis
  proof (cases "file_of i ?p = Some None")
    case True
    then show ?thesis using ok by (simp add: fd_close_def)
  next
    case False
    then obtain f where f: "below_count i ?p" "fd_file (ft_fd ?p ! nat i) = Some f" "file_of i ?p = Some (Some f)"
      by (auto simp: file_of_ok [OF t] split: if_splits)
    note e = fd_at_ok [OF t f(1)]
    define e' where "e' = (ft_fd ?p ! nat i)\<lparr>fd_file := None\<rparr>"
    obtain p1 where p1: "set_fd i e' ?p = Some p1" using e by (auto simp: fd_at_def set_fd_def split: if_splits)
    obtain e0 where e0: "fd_at ?p i = Some e0"
        "\<And>g. int (uses_of p1 g) = int (uses_of ?p g) - (if fd_file e0 = Some g then 1 else 0) + (if fd_file e' = Some g then 1 else 0)"
        "length (ft_fd p1) = length (ft_fd ?p)" "ft_fdcount p1 = ft_fdcount ?p" "ft_fdfirst p1 = ft_fdfirst ?p"
        "\<And>j. ft_fd p1 ! j = (if j = nat i then e' else ft_fd ?p ! j)"
      by (rule uses_set_fd [OF p1], rule that) simp_all
    define p2 where "p2 = (if ft_fdfirst p1 > i then p1\<lparr>ft_fdfirst := i\<rparr> else p1)"
    have i: "0 \<le> i" "i < ft_fdcount ?p" using f(1) by (auto simp: below_count_def)
    have u: "int (uses_of p2 g) = int (uses_of ?p g) - (if g = f then 1 else 0)" for g
      using e0(2) [of g] e e0(1) f(2) by (auto simp: p2_def uses_of_def e'_def)
    have t2: "table_ok p2" using t e0(3-6) i by (auto simp: table_ok_def p2_def e'_def)
    have "0 < ?T f" by (rule held_pos [OF ok]) (use uses_pos [OF e f(2)] q in blast)
    then obtain s' where s': "FILE_RELEASE f (set_table q p2 s) = Some s'" "counts_ok s' (?T(f := ?T f - 1))" "fs_procs s' = (fs_procs s)(q := p2)"
      using release_counts [of "set_table q p2 s" ?T f] D(3) by auto
    have "files_ok P H s'" by (rule set_table_ok [OF ok q t2 s'(3,2)]) (auto simp: u)
    moreover have "ft_fdcount p2 = ft_fdcount ?p" "ft_fd p2 ! j = (if j = nat i then e' else ft_fd ?p ! j)" for j
      using e0(4,6) by (simp_all add: p2_def)
    then have "file_of j p2 = (if j = i then Some None else file_of j ?p)" for j
      using i by (auto simp: file_of_ok [OF t2] file_of_ok [OF t] below_count_def e'_def)
    moreover have "fd_close q i s = Some (E_OK, s')" using f(3) e p1 s'(1) by (simp add: fd_close_def e'_def p2_def)
    ultimately show ?thesis using f(3) s'(3) by simp
  qed
qed

text \<open>A file put into a descriptor whose former file, if any, has been released.\<close>

lemma put_file:
  assumes ok: "files_ok P H s" and q: "q \<in> P" and p: "table_ok p" "below_count i p" "\<And>g. uses_of p g = uses_of (fs_procs s q) g"
    and s1: "counts_ok s1 T" "fs_procs s1 = fs_procs s" "0 < T f"
    and T: "\<And>g. T g = int (descriptors s P g) + int (H g) - (if fd_file (ft_fd p ! nat i) = Some g then 1 else 0)"
  shows "\<exists>p' s'. set_fd i \<lparr>fd_file = Some f, fd_flags = fl\<rparr> p = Some p' \<and> FILE_HOLD f (set_table q p' s1) = Some s' \<and> files_ok P H s'
    \<and> fs_procs s' = (fs_procs s)(q := p') \<and> (\<forall>j. file_of j p' = (if j = i then Some (Some f) else file_of j p))"
proof -
  obtain p' where p': "set_fd i \<lparr>fd_file = Some f, fd_flags = fl\<rparr> p = Some p'" "table_ok p'"
      "\<And>g. int (uses_of p' g) = int (uses_of (fs_procs s q) g) - (if fd_file (ft_fd p ! nat i) = Some g then 1 else 0) + (if g = f then 1 else 0)"
      "\<And>j. file_of j p' = (if j = i then Some (Some f) else file_of j p)"
    using table_filled [OF p(1), of i "ft_fdfirst p" f fl] p(2,3) by (auto simp: below_count_def)
  obtain s' where s': "FILE_HOLD f (set_table q p' s1) = Some s'" "counts_ok s' (T(f := T f + 1))" "fs_procs s' = (fs_procs s)(q := p')"
    using hold_counts [of "set_table q p' s1" T f] s1 by auto
  have "files_ok P H s'" by (rule set_table_ok [OF ok q p'(2) s'(3,2)]) (auto simp: T p'(3))
  with p' s' show ?thesis by blast
qed

lemma put_free:
  assumes ok: "files_ok P H s" and q: "q \<in> P" and f: "0 < H f \<or> (\<exists>q\<in>P. 0 < uses_of (fs_procs s q) f)"
    and i: "0 \<le> i" "file_of i (fs_procs s q) = Some None"
    and p: "table_ok p" "i < ft_fdcount p" "\<forall>g. uses_of p g = uses_of (fs_procs s q) g" "\<forall>j. file_of j p = file_of j (fs_procs s q)"
  shows "\<exists>p' s'. set_fd i \<lparr>fd_file = Some f, fd_flags = flags\<rparr> p = Some p' \<and> FILE_HOLD f (set_table q p' s) = Some s' \<and> files_ok P H s'
    \<and> fs_procs s' = (fs_procs s)(q := p') \<and> (\<forall>j. file_of j p' = (if j = i then Some (Some f) else file_of j (fs_procs s q)))"
proof -
  have b: "below_count i p" using p(2) i(1) by (simp add: below_count_def)
  then have "fd_file (ft_fd p ! nat i) = None" using i(2) p(4) file_of_ok [OF p(1), of i] by auto
  then show ?thesis using put_file [OF ok q p(1) b _ files_okD(3) [OF ok] refl held_pos [OF ok f], of flags] p(3,4) by auto
qed

lemma fd_insert_ok:
  assumes ok: "files_ok P H s" and q: "q \<in> P" and f: "0 < H f"
    and free: "0 \<le> j" "j < ft_fdcount (fs_procs s q)" "file_of j (fs_procs s q) = Some None"
  shows "\<exists>i s'. fd_insert q f alloc s = Some (E_OK, Some i, s') \<and> files_ok P H s' \<and> file_of i (fs_procs s q) = Some None
    \<and> (\<forall>j. file_of j (fs_procs s' q) = (if j = i then Some (Some f) else file_of j (fs_procs s q)))"
proof -
  let ?p = "fs_procs s q"
  note t = files_okD(2) [OF ok q]
  obtain i where i: "getfree 0 ?p = Some (if i < ft_fdcount ?p then i else -1)" "0 \<le> i" "i \<le> ft_fdcount ?p"
      "\<And>j. 0 \<le> j \<Longrightarrow> j < i \<Longrightarrow> fd_file (ft_fd ?p ! nat j) \<noteq> None" "i < ft_fdcount ?p \<Longrightarrow> fd_file (ft_fd ?p ! nat i) = None"
    by (rule getfree_ok [OF t, of 0], use free in simp, use free in simp, rule that) auto
  have "\<not> j < i" using i(4) [OF free(1)] free by (auto simp: file_of_ok [OF t] below_count_def)
  then have lt: "i < ft_fdcount ?p" using free(2) by simp
  have at: "file_of i ?p = Some None" using i(5) lt by (simp add: file_of_ok [OF t])
  obtain p' s' where "set_fd i \<lparr>fd_file = Some f, fd_flags = 0\<rparr> ?p = Some p'" "FILE_HOLD f (set_table q p' s) = Some s'" "files_ok P H s'"
      "fs_procs s' = (fs_procs s)(q := p')" "\<And>j. file_of j p' = (if j = i then Some (Some f) else file_of j ?p)"
    using put_free [OF ok q disjI1 [OF f] i(2) at t lt, of 0] by auto
  then show ?thesis using i(1,2) lt at by (auto simp: fd_insert_def)
qed

lemma dup_above_ok:
  assumes ok: "files_ok P H s" and q: "q \<in> P" and f: "0 < uses_of (fs_procs s q) f" and n: "0 \<le> newfd" "newfd < ft_fdcount (fs_procs s q)"
  shows "\<exists>e r s'. dup_above q f newfd flags alloc s = Some (e, r, s') \<and> files_ok P H s'
    \<and> (case r of None \<Rightarrow> e \<noteq> E_OK \<and> s' = s
       | Some i \<Rightarrow> e = E_OK \<and> newfd \<le> i \<and> file_of i (fs_procs s q) = Some None
           \<and> (\<forall>j. file_of j (fs_procs s' q) = (if j = i then Some (Some f) else file_of j (fs_procs s q))))"
proof -
  let ?p = "fs_procs s q"
  note t = files_okD(2) [OF ok q]
  obtain i where i: "getfree newfd ?p = Some (if i < ft_fdcount ?p then i else -1)" "newfd \<le> i" "i \<le> ft_fdcount ?p"
      "\<And>j. newfd \<le> j \<Longrightarrow> j < i \<Longrightarrow> fd_file (ft_fd ?p ! nat j) \<noteq> None" "i < ft_fdcount ?p \<Longrightarrow> fd_file (ft_fd ?p ! nat i) = None"
    by (rule getfree_ok [OF t n(1)], use n in simp, rule that) auto
  have free: "file_of i ?p = Some None" using i(5) by (auto simp: file_of_ok [OF t] below_count_def)
  have i0: "0 \<le> i" using n(1) i(2) by simp
  have put: "\<exists>p' s'. set_fd i \<lparr>fd_file = Some f, fd_flags = flags\<rparr> p = Some p' \<and> FILE_HOLD f (set_table q p' s) = Some s' \<and> files_ok P H s'
      \<and> fs_procs s' = (fs_procs s)(q := p') \<and> (\<forall>j. file_of j p' = (if j = i then Some (Some f) else file_of j ?p))"
    if "table_ok p" "i < ft_fdcount p" "\<forall>g. uses_of p g = uses_of ?p g" "\<forall>j. file_of j p = file_of j ?p" for p
    by (rule put_free [OF ok q _ i0 free that]) (use f q in blast)
  show ?thesis
  proof (cases "i < ft_fdcount ?p")
    case True
    then obtain p' s' where "set_fd i \<lparr>fd_file = Some f, fd_flags = flags\<rparr> ?p = Some p'" "FILE_HOLD f (set_table q p' s) = Some s'" "files_ok P H s'"
        "fs_procs s' = (fs_procs s)(q := p')" "\<And>j. file_of j p' = (if j = i then Some (Some f) else file_of j ?p)" using put [OF t] by auto
    then show ?thesis using True i(1,2) n(1) free by (simp add: dup_above_def)
  next
    case False
    then have ie: "i = ft_fdcount ?p" using i(3) by simp
    obtain e p1 where g: "growtable alloc (ft_fdcount ?p + 1) ?p = Some (e, p1)"
        "e = E_OK \<Longrightarrow> table_ok p1 \<and> ft_fdcount p1 = ft_fdcount ?p + 1 \<and> (\<forall>g. uses_of p1 g = uses_of ?p g) \<and> (\<forall>j. file_of j p1 = file_of j ?p)"
      using growtable_ok [OF t, of "ft_fdcount ?p + 1" alloc] by auto
    show ?thesis
    proof (cases "e = E_OK")
      case True
      then obtain p' s' where "set_fd i \<lparr>fd_file = Some f, fd_flags = flags\<rparr> p1 = Some p'" "FILE_HOLD f (set_table q p' s) = Some s'" "files_ok P H s'"
          "fs_procs s' = (fs_procs s)(q := p')" "\<And>j. file_of j p' = (if j = i then Some (Some f) else file_of j ?p)" using put [of p1] g(2) ie by auto
      then show ?thesis using True ie i(1,2) n g(1) free by (simp add: dup_above_def)
    qed (use ie i(1) n g(1) ok in \<open>simp add: dup_above_def\<close>)
  qed
qed

text \<open>A file put into a descriptor that may have one, which is released.\<close>

lemma replace_file:
  assumes ok: "files_ok P H s" and q: "q \<in> P" and f: "file_of oldfd (fs_procs s q) = Some (Some f)" "oldfd \<noteq> newfd" and n: "0 \<le> newfd"
    and p: "table_ok p" "newfd < ft_fdcount p" "\<forall>g. uses_of p g = uses_of (fs_procs s q) g" "\<forall>j. file_of j p = file_of j (fs_procs s q)"
  shows "\<exists>s1 p' s'. (case fd_file (ft_fd p ! nat newfd) of None \<Rightarrow> Some s | Some g \<Rightarrow> FILE_RELEASE g s) = Some s1
    \<and> set_fd newfd \<lparr>fd_file = Some f, fd_flags = flags\<rparr> p = Some p' \<and> FILE_HOLD f (set_table q p' s1) = Some s' \<and> files_ok P H s'
    \<and> fs_procs s' = (fs_procs s)(q := p') \<and> (\<forall>j. file_of j p' = (if j = newfd then Some (Some f) else file_of j (fs_procs s q)))"
proof -
  let ?p = "fs_procs s q" and ?T = "\<lambda>f. int (descriptors s P f) + int (H f)"
  note D = files_okD [OF ok]
  have b: "below_count newfd p" using p(2) n by (simp add: below_count_def)
  have o: "below_count oldfd p" "fd_file (ft_fd p ! nat oldfd) = Some f" using f(1) spec [OF p(4), of oldfd] by (auto simp: file_of_ok [OF p(1)] split: if_splits)
  let ?T' = "\<lambda>g. ?T g - (if fd_file (ft_fd p ! nat newfd) = Some g then 1 else 0)"
  have u: "uses_of ?p g \<le> descriptors s P g" for g by (rule uses_le_descriptors [OF D(1) q])
  obtain p0 where p0: "set_fd newfd \<lparr>fd_file = None, fd_flags = 0\<rparr> p = Some p0" using b p(1) by (auto simp: set_fd_def below_count_def table_ok_def)
  have "fd_at p0 oldfd = Some (ft_fd p ! nat oldfd)"
    using p0 fd_at_ok [OF p(1) o(1)] f(2) o(1) n by (auto simp: set_fd_def fd_at_def below_count_def split: if_splits)
  then have "0 < uses_of p0 f" by (rule uses_pos) (rule o(2))
  moreover have "int (uses_of p0 f) = int (uses_of p f) - (if fd_file (ft_fd p ! nat newfd) = Some f then 1 else 0)"
    by (rule uses_set_fd [OF p0]) (use fd_at_ok [OF p(1) b] in simp)
  ultimately have pos: "0 < ?T' f" using u [of f] spec [OF p(3), of f] by simp
  obtain s1 where s1: "(case fd_file (ft_fd p ! nat newfd) of None \<Rightarrow> Some s | Some g \<Rightarrow> FILE_RELEASE g s) = Some s1" "counts_ok s1 ?T'" "fs_procs s1 = fs_procs s"
  proof (cases "fd_file (ft_fd p ! nat newfd)")
    case (Some g)
    have "0 < ?T g" by (rule held_pos [OF ok]) (use uses_pos [OF fd_at_ok [OF p(1) b] Some] p(3) q in auto)
    then obtain s1 where "FILE_RELEASE g s = Some s1" "counts_ok s1 (?T(g := ?T g - 1))" "fs_procs s1 = fs_procs s"
      using release_counts [OF D(3), of g] by auto
    moreover have "?T(g := ?T g - 1) = ?T'" using Some by auto
    ultimately show ?thesis using Some that by simp
  qed (use D(3) that in simp)
  show ?thesis using put_file [OF ok q p(1) b spec [OF p(3)] s1(2,3) pos refl, of flags] s1(1) p(4) by auto
qed

lemma dup_exact_ok:
  assumes ok: "files_ok P H s" and q: "q \<in> P" and f: "file_of oldfd (fs_procs s q) = Some (Some f)" "oldfd \<noteq> newfd" and n: "0 \<le> newfd"
  shows "\<exists>e r s'. dup_exact q f newfd flags alloc s = Some (e, r, s') \<and> files_ok P H s'
    \<and> (case r of None \<Rightarrow> e \<noteq> E_OK \<and> s' = s
       | Some i \<Rightarrow> e = E_OK \<and> i = newfd \<and> (\<forall>j. file_of j (fs_procs s' q) = (if j = i then Some (Some f) else file_of j (fs_procs s q))))"
proof -
  let ?p = "fs_procs s q"
  note t = files_okD(2) [OF ok q]
  note put = replace_file [where flags = flags, OF ok q f n]
  show ?thesis
  proof (cases "newfd < ft_fdcount ?p")
    case True
    then obtain s1 p' s' where *: "(case fd_file (ft_fd ?p ! nat newfd) of None \<Rightarrow> Some s | Some g \<Rightarrow> FILE_RELEASE g s) = Some s1"
        "set_fd newfd \<lparr>fd_file = Some f, fd_flags = flags\<rparr> ?p = Some p'" "FILE_HOLD f (set_table q p' s1) = Some s'" "files_ok P H s'"
        "fs_procs s' = (fs_procs s)(q := p')" "\<And>j. file_of j p' = (if j = newfd then Some (Some f) else file_of j ?p)" using put [OF t] by auto
    have "fd_at ?p newfd = Some (ft_fd ?p ! nat newfd)" by (rule fd_at_ok [OF t]) (use True n in \<open>simp add: below_count_def\<close>)
    with * show ?thesis using True by (simp add: dup_exact_def)
  next
    case False
    obtain e p1 where g: "growtable alloc (newfd + 1) ?p = Some (e, p1)"
        "e = E_OK \<Longrightarrow> table_ok p1 \<and> ft_fdcount p1 = newfd + 1 \<and> (\<forall>g. uses_of p1 g = uses_of ?p g) \<and> (\<forall>j. file_of j p1 = file_of j ?p)"
      using growtable_ok [OF t, of "newfd + 1" alloc] False by auto
    show ?thesis
    proof (cases "e = E_OK")
      case True
      note p1 = g(2) [OF True]
      obtain s1 p' s' where *: "(case fd_file (ft_fd p1 ! nat newfd) of None \<Rightarrow> Some s | Some g \<Rightarrow> FILE_RELEASE g s) = Some s1"
          "set_fd newfd \<lparr>fd_file = Some f, fd_flags = flags\<rparr> p1 = Some p'" "FILE_HOLD f (set_table q p' s1) = Some s'" "files_ok P H s'"
          "fs_procs s' = (fs_procs s)(q := p')" "\<And>j. file_of j p' = (if j = newfd then Some (Some f) else file_of j ?p)" using put [of p1] p1 by auto
      have "fd_at p1 newfd = Some (ft_fd p1 ! nat newfd)" by (rule fd_at_ok) (use p1 n in \<open>simp_all add: below_count_def\<close>)
      with * show ?thesis using True False g(1) by (simp add: dup_exact_def)
    qed (use False g(1) ok in \<open>simp add: dup_exact_def\<close>)
  qed
qed

lemma fd_dup_ok:
  assumes ok: "files_ok P H s" and q: "q \<in> P" and n: "if exact then oldfd \<noteq> newfd else newfd < ft_fdcount (fs_procs s q)"
  shows "\<exists>e r s'. fd_dup q oldfd newfd exact flags alloc s = Some (e, r, s') \<and> files_ok P H s'
    \<and> (case r of None \<Rightarrow> e \<noteq> E_OK \<and> s' = s
       | Some i \<Rightarrow> e = E_OK \<and> file_of oldfd (fs_procs s q) \<noteq> Some None
           \<and> (if exact then i = newfd else newfd \<le> i \<and> file_of i (fs_procs s q) = Some None)
           \<and> (\<forall>j. file_of j (fs_procs s' q) = (if j = i then file_of oldfd (fs_procs s q) else file_of j (fs_procs s q))))"
proof -
  let ?p = "fs_procs s q"
  note t = files_okD(2) [OF ok q]
  have u: "0 < uses_of ?p f" if "file_of oldfd ?p = Some (Some f)" for f
  proof -
    have "below_count oldfd ?p" "fd_file (ft_fd ?p ! nat oldfd) = Some f" using that by (auto simp: file_of_ok [OF t] split: if_splits)
    then show ?thesis using uses_pos [OF fd_at_ok [OF t]] by blast
  qed
  show ?thesis
  proof (cases "newfd < 0 \<or> newfd \<ge> FDTABLE_LIMIT \<or> file_of oldfd ?p = Some None")
    case True
    then show ?thesis using ok by (auto simp: fd_dup_def)
  next
    case False
    then obtain f where f: "file_of oldfd ?p = Some (Some f)" "0 \<le> newfd" using file_of_ok [OF t, of oldfd] by (auto simp: not_less)
    then have "fd_dup q oldfd newfd exact flags alloc s = (if exact then dup_exact q f newfd flags alloc s else dup_above q f newfd flags alloc s)"
      using False by (simp add: fd_dup_def)
    note F = this
    show ?thesis
    proof (cases exact)
      case True
      then obtain e r s' where "dup_exact q f newfd flags alloc s = Some (e, r, s')" "files_ok P H s'" "case r of None \<Rightarrow> e \<noteq> E_OK \<and> s' = s
          | Some i \<Rightarrow> e = E_OK \<and> i = newfd \<and> (\<forall>j. file_of j (fs_procs s' q) = (if j = i then Some (Some f) else file_of j ?p))"
        using dup_exact_ok [OF ok q f(1) _ f(2), of flags alloc] n by auto
      then show ?thesis using F True f(1) by (cases r) auto
    next
      case False
      then obtain e r s' where "dup_above q f newfd flags alloc s = Some (e, r, s')" "files_ok P H s'" "case r of None \<Rightarrow> e \<noteq> E_OK \<and> s' = s
          | Some i \<Rightarrow> e = E_OK \<and> newfd \<le> i \<and> file_of i ?p = Some None \<and> (\<forall>j. file_of j (fs_procs s' q) = (if j = i then Some (Some f) else file_of j ?p))"
        using dup_above_ok [OF ok q u [OF f(1)] f(2), of flags alloc] n by auto
      then show ?thesis using F False f(1) by (cases r) auto
    qed
  qed
qed

lemma clone_loop_counts:
  assumes "counts_ok s T" and "\<forall>e\<in>set es. \<forall>f. fd_file e = Some f \<longrightarrow> 0 < T f"
  shows "\<exists>s'. clone_loop es s = Some s' \<and> counts_ok s' (\<lambda>f. T f + int (count_list (map fd_file es) (Some f))) \<and> fs_procs s' = fs_procs s"
  using assms
proof (induction es arbitrary: s T)
  case (Cons e es)
  show ?case
  proof (cases "fd_file e")
    case None
    then show ?thesis using Cons.IH [OF Cons.prems(1)] Cons.prems(2) by simp
  next
    case (Some f)
    then have "0 < T f" using Cons.prems(2) by simp
    then obtain s1 where s1: "FILE_HOLD f s = Some s1" "counts_ok s1 (T(f := T f + 1))" "fs_procs s1 = fs_procs s"
      using hold_counts [OF Cons.prems(1)] by blast
    have "\<forall>e'\<in>set es. \<forall>g. fd_file e' = Some g \<longrightarrow> 0 < (T(f := T f + 1)) g" using Cons.prems(2) \<open>0 < T f\<close> by auto
    from Cons.IH [OF s1(2) this] obtain s2 where "clone_loop es s1 = Some s2"
        "counts_ok s2 (\<lambda>g. (T(f := T f + 1)) g + int (count_list (map fd_file es) (Some g)))" "fs_procs s2 = fs_procs s1" by blast
    moreover have "(\<lambda>g. (T(f := T f + 1)) g + int (count_list (map fd_file es) (Some g))) = (\<lambda>g. T g + int (count_list (map fd_file (e # es)) (Some g)))"
      using Some by auto
    ultimately show ?thesis using s1 Some by auto
  qed
qed simp

lemma fd_clone_ok:
  assumes ok: "files_ok P H s" and q: "q \<in> P" and t: "t \<notin> P"
  shows "\<exists>e s'. fd_clone q t alloc s = Some (e, s') \<and> files_ok (if e = E_OK then insert t P else P) H s' \<and> (e = E_OK \<longleftrightarrow> alloc)
    \<and> (alloc \<longrightarrow> (\<forall>j. file_of j (fs_procs s' t) = file_of j (fs_procs s q)))"
proof -
  let ?p = "fs_procs s q" and ?T = "\<lambda>f. int (descriptors s P f) + int (H f)"
  note D = files_okD [OF ok]
  have same: "descriptors (set_table t p s) P = descriptors s P" for p
    unfolding descriptors_def fun_eq_iff using t by (auto intro!: sum.cong)
  have procs: "\<forall>x\<in>P. table_ok (((fs_procs s)(t := p)) x)" for p using D(2) t by auto
  show ?thesis
  proof (cases alloc)
    case True
    define p' where "p' = ?p\<lparr>ft_fd := map copied (ft_fd ?p)\<rparr>"
    have c: "map fd_file (ft_fd p') = map fd_file (ft_fd ?p)" by (simp add: p'_def copied_def)
    have t': "table_ok p'" using D(2) [OF q] by (auto simp: table_ok_def p'_def copied_def)
    have "0 < ?T f" if e: "e \<in> set (ft_fd ?p)" "fd_file e = Some f" for e f
    proof (rule held_pos [OF ok])
      have "0 < uses_of ?p f" unfolding uses_of_def using e by (simp add: image_iff count_list_0_iff flip: neq0_conv) metis
      then show "0 < H f \<or> (\<exists>q\<in>P. 0 < uses_of (fs_procs s q) f)" using q by blast
    qed
    then obtain s' where s': "clone_loop (ft_fd ?p) (set_table t p' s) = Some s'" "counts_ok s' (\<lambda>f. ?T f + int (uses_of ?p f))"
        "fs_procs s' = (fs_procs s)(t := p')"
      using clone_loop_counts [of "set_table t p' s" ?T "ft_fd ?p"] D(3) by (auto simp: uses_of_def)
    have "descriptors s' P f = descriptors s P f" for f using same [of p'] descriptors_cong [of s' "set_table t p' s"] s'(3) by (simp add: fun_eq_iff)
    then have "descriptors s' (insert t P) f = uses_of ?p f + descriptors s P f" for f
      using D(1) t c s'(3) by (simp add: descriptors_def uses_of_def)
    then have "files_ok (insert t P) H s'" using s'(2,3) D(1) t' procs [of p'] by (auto simp: files_ok_def add.commute add.left_commute)
    moreover have "file_of j p' = file_of j ?p" for j
      using D(2) [OF q] c by (auto simp: file_of_ok [OF t'] file_of_ok below_count_def p'_def copied_def table_ok_def)
    ultimately show ?thesis using True s'(1,3) by (simp add: fd_clone_def p'_def)
  next
    case False
    then show ?thesis using D same procs by (intro exI [of _ ENOMEM]) (simp add: fd_clone_def files_ok_def Let_def)
  qed
qed

lemma fd_allocate_ok:
  assumes ok: "files_ok P H s" and f: "f \<notin> fs_live s"
  shows "\<exists>s'. fd_allocate (Some f) s = (Some f, s') \<and> files_ok P (H(f := 1)) s' \<and> fs_procs s' = fs_procs s"
proof -
  let ?T = "\<lambda>f. int (descriptors s P f) + int (H f)"
  note D = files_okD [OF ok]
  obtain s1 where s1: "newfile (Some f) s = (Some f, s1)" "counts_ok s1 (?T(f := 1))" "fs_procs s1 = fs_procs s" using newfile_counts [OF D(3) f] by blast
  have "?T f = 0" using D(3) f unfolding counts_ok_def by presburger
  then have "?T(f := 1) = (\<lambda>g. int (descriptors s1 P g) + int ((H(f := 1)) g))" using descriptors_cong [OF s1(3)] by auto
  then show ?thesis using s1 D by (simp add: fd_allocate_def files_ok_def)
qed

lemma fd_setflags_ok:
  assumes ok: "files_ok P H s" and q: "q \<in> P" and i: "below_count i (fs_procs s q)"
  shows "\<exists>e s'. fd_setflags q i flags s = Some (e, s') \<and> files_ok P H s' \<and> (\<forall>j. file_of j (fs_procs s' q) = file_of j (fs_procs s q))"
proof -
  let ?p = "fs_procs s q" and ?T = "\<lambda>f. int (descriptors s P f) + int (H f)"
  note D = files_okD [OF ok]
  note t = D(2) [OF q]
  note e = fd_at_ok [OF t i]
  show ?thesis
  proof (cases "fd_file (ft_fd ?p ! nat i) = None")
    case True
    then show ?thesis using e ok by (simp add: fd_setflags_def)
  next
    case False
    let ?e = "(ft_fd ?p ! nat i)\<lparr>fd_flags := flags\<rparr>"
    obtain p1 where p1: "set_fd i ?e ?p = Some p1" "p1 = ?p\<lparr>ft_fd := (ft_fd ?p)[nat i := ?e]\<rparr>" using e by (auto simp: fd_at_def set_fd_def split: if_splits)
    have "nat i < length (ft_fd ?p)" using i t by (auto simp: below_count_def table_ok_def)
    then have n: "fd_file (ft_fd p1 ! j) = fd_file (ft_fd ?p ! j)" if "j < length (ft_fd ?p)" for j using that by (simp add: p1(2) nth_list_update)
    then have u: "map fd_file (ft_fd p1) = map fd_file (ft_fd ?p)" by (intro nth_equalityI) (auto simp: p1(2))
    have t1: "table_ok p1" using t n by (auto simp: table_ok_def p1(2))
    have "files_ok P H (set_table q p1 s)"
      by (rule set_table_ok [OF ok q t1, where T = ?T]) (use D(3) u in \<open>auto simp: uses_of_def\<close>)
    moreover have "ft_fdcount p1 = ft_fdcount ?p" by (simp add: p1(2))
    then have "file_of j p1 = file_of j ?p" for j using n [of "nat j"] t by (auto simp: file_of_ok [OF t] file_of_ok [OF t1] below_count_def table_ok_def)
    ultimately show ?thesis using e False p1(1) by (simp add: fd_setflags_def)
  qed
qed

subsection \<open>Sequences of calls\<close>

text \<open>
  The calls the system calls make. \<open>fy_holds\<close> counts the pointers a caller of \<open>fd_get\<close> or \<open>fd_allocate\<close> still has; \<open>fy_procs\<close> are the processes.
\<close>

record fsys =
  fy_state :: fstate
  fy_procs :: "pid set"
  fy_holds :: "fileid \<Rightarrow> nat"

datatype file_call =
    CallNew pid "32 word" "fileid option" bool
  | CallAllocate fileid
  | CallGet pid int
  | CallRelease fileid
  | CallClose pid int
  | CallSetflags pid int "32 word"
  | CallInsert pid fileid bool
  | CallDup pid int int bool "32 word" bool
  | CallClone pid pid bool

text \<open>
  What a caller has to see to: the slab allocator returns objects that are not in use, a pointer is given back at most as often as it was
  taken, and the target of a duplication is another descriptor, or for the lowest free one, a descriptor inside the table.
\<close>

fun allowed :: "file_call \<Rightarrow> fsys \<Rightarrow> bool" where
  "allowed (CallNew q _ obj _) y = (q \<in> fy_procs y \<and> (case obj of None \<Rightarrow> True | Some f \<Rightarrow> f \<notin> fs_live (fy_state y)))"
| "allowed (CallAllocate f) y = (f \<notin> fs_live (fy_state y))"
| "allowed (CallGet q _) y = (q \<in> fy_procs y)"
| "allowed (CallRelease f) y = (0 < fy_holds y f)"
| "allowed (CallClose q _) y = (q \<in> fy_procs y)"
| "allowed (CallSetflags q i _) y = (q \<in> fy_procs y \<and> below_count i (fs_procs (fy_state y) q))"
| "allowed (CallInsert q f _) y = (q \<in> fy_procs y \<and> 0 < fy_holds y f \<and> None \<in> fd_file ` set (ft_fd (fs_procs (fy_state y) q)))"
| "allowed (CallDup q old new exact _ _) y =
     (q \<in> fy_procs y \<and> (if exact then old \<noteq> new else new < ft_fdcount (fs_procs (fy_state y) q)))"
| "allowed (CallClone q t _) y = (q \<in> fy_procs y \<and> t \<notin> fy_procs y)"

fun do_call :: "file_call \<Rightarrow> fsys \<Rightarrow> fsys option" where
  "do_call (CallNew q flags obj ok) y = do { (e, r, s) \<leftarrow> fd_new q flags obj ok (fy_state y); Some (y\<lparr>fy_state := s\<rparr>) }"
| "do_call (CallAllocate f) y = Some (y\<lparr>fy_state := snd (fd_allocate (Some f) (fy_state y)), fy_holds := (fy_holds y)(f := 1)\<rparr>)"
| "do_call (CallGet q i) y = do {
     (r, s) \<leftarrow> fd_get q i (fy_state y);
     Some (y\<lparr>fy_state := s, fy_holds := (case r of None \<Rightarrow> fy_holds y | Some f \<Rightarrow> (fy_holds y)(f := fy_holds y f + 1))\<rparr>)
   }"
| "do_call (CallRelease f) y = do { s \<leftarrow> fd_release f (fy_state y); Some (y\<lparr>fy_state := s, fy_holds := (fy_holds y)(f := fy_holds y f - 1)\<rparr>) }"
| "do_call (CallClose q i) y = do { (e, s) \<leftarrow> fd_close q i (fy_state y); Some (y\<lparr>fy_state := s\<rparr>) }"
| "do_call (CallSetflags q i flags) y = do { (e, s) \<leftarrow> fd_setflags q i flags (fy_state y); Some (y\<lparr>fy_state := s\<rparr>) }"
| "do_call (CallInsert q f ok) y = do { (e, r, s) \<leftarrow> fd_insert q f ok (fy_state y); Some (y\<lparr>fy_state := s\<rparr>) }"
| "do_call (CallDup q old new exact flags ok) y = do { (e, r, s) \<leftarrow> fd_dup q old new exact flags ok (fy_state y); Some (y\<lparr>fy_state := s\<rparr>) }"
| "do_call (CallClone q t ok) y = do {
     (e, s) \<leftarrow> fd_clone q t ok (fy_state y);
     Some (y\<lparr>fy_state := s, fy_procs := (if e = E_OK then insert t (fy_procs y) else fy_procs y)\<rparr>)
   }"

inductive file_step :: "fsys \<Rightarrow> fsys \<Rightarrow> bool" where
  "allowed c y \<Longrightarrow> do_call c y = Some y' \<Longrightarrow> file_step y y'"

definition fsys_ok :: "fsys \<Rightarrow> bool" where
  "fsys_ok y \<longleftrightarrow> files_ok (fy_procs y) (fy_holds y) (fy_state y)"

lemma file_call_ok:
  assumes "fsys_ok y" and "allowed c y"
  shows "\<exists>y'. do_call c y = Some y' \<and> fsys_ok y'"
proof -
  have ok: "files_ok (fy_procs y) (fy_holds y) (fy_state y)" using assms(1) by (simp add: fsys_ok_def)
  show ?thesis
  proof (cases c)
    case (CallNew q flags obj alloc)
    then have "q \<in> fy_procs y" "\<forall>f. obj = Some f \<longrightarrow> f \<notin> fs_live (fy_state y)" using assms(2) by (auto split: option.splits)
    from fd_new_ok [OF ok this, of flags alloc] obtain e r s' where "fd_new q flags obj alloc (fy_state y) = Some (e, r, s')" "files_ok (fy_procs y) (fy_holds y) s'" by blast
    then show ?thesis using CallNew by (simp add: fsys_ok_def)
  next
    case (CallAllocate f)
    then show ?thesis using fd_allocate_ok [OF ok, of f] assms(2) by (auto simp: fsys_ok_def)
  next
    case (CallGet q i)
    then show ?thesis using fd_get_ok [OF ok, of q i] assms(2) by (auto simp: fsys_ok_def)
  next
    case (CallRelease f)
    then show ?thesis using fd_release_ok [OF ok, of f] assms(2) by (auto simp: fsys_ok_def)
  next
    case (CallClose q i)
    then show ?thesis using fd_close_ok [OF ok, of q i] assms(2) by (auto simp: fsys_ok_def)
  next
    case (CallSetflags q i flags)
    then show ?thesis using fd_setflags_ok [OF ok, of q i flags] assms(2) by (auto simp: fsys_ok_def)
  next
    case (CallInsert q f alloc)
    let ?p = "fs_procs (fy_state y) q"
    have q: "q \<in> fy_procs y" and "\<exists>j < length (ft_fd ?p). fd_file (ft_fd ?p ! j) = None"
      using assms(2) CallInsert by (auto simp: in_set_conv_nth image_iff) metis
    then obtain j where "j < length (ft_fd ?p)" "fd_file (ft_fd ?p ! j) = None" by blast
    then have "0 \<le> int j" "int j < ft_fdcount ?p" "file_of (int j) ?p = Some None"
      using files_okD(2) [OF ok q] by (auto simp: file_of_ok table_ok_def)
    note j = this
    have "0 < fy_holds y f" using assms(2) CallInsert by simp
    then show ?thesis using fd_insert_ok [OF ok q _ j, of f alloc] CallInsert by (auto simp: fsys_ok_def)
  next
    case (CallDup q old new exact flags alloc)
    then have "q \<in> fy_procs y" "if exact then old \<noteq> new else new < ft_fdcount (fs_procs (fy_state y) q)" using assms(2) by simp_all
    from fd_dup_ok [OF ok this, of flags alloc] obtain e r s' where "fd_dup q old new exact flags alloc (fy_state y) = Some (e, r, s')" "files_ok (fy_procs y) (fy_holds y) s'" by blast
    then show ?thesis using CallDup by (simp add: fsys_ok_def)
  next
    case (CallClone q t alloc)
    then show ?thesis using fd_clone_ok [OF ok, of q t alloc] assms(2) by (auto simp: fsys_ok_def)
  qed
qed


text \<open>
  C22: \<open>fd_new\<close> opens the lowest descriptor that is not open and changes no other one. It fails only when no file object or no memory
  for the table is to be had, or when all 256 descriptors are open, and then changes no table.
\<close>

theorem fd_new_lowest:
  assumes "files_ok P H s" and "q \<in> P" and "\<forall>f. obj = Some f \<longrightarrow> f \<notin> fs_live s"
  shows "\<exists>e r s'. fd_new q flags obj alloc s = Some (e, r, s') \<and>
    (case r of
       None \<Rightarrow> fs_procs s' = fs_procs s \<and> (e = ENOMEM \<and> (obj = None \<or> \<not> alloc) \<or> e = EMFILE \<and> (\<forall>j. 0 \<le> j \<and> j < 256 \<longrightarrow> file_of j (fs_procs s q) \<noteq> Some None))
     | Some (f, i) \<Rightarrow> e = E_OK \<and> obj = Some f \<and> 0 \<le> i \<and> i < 256 \<and> file_of i (fs_procs s q) = Some None
         \<and> (\<forall>j. 0 \<le> j \<and> j < i \<longrightarrow> file_of j (fs_procs s q) \<noteq> Some None)
         \<and> (\<forall>j. file_of j (fs_procs s' q) = (if j = i then Some (Some f) else file_of j (fs_procs s q))))"
  using fd_new_ok [OF assms, of flags alloc] unfolding FDTABLE_LIMIT_def by blast

text \<open>
  C33: Two calls a program can make stop the kernel or write outside the table. Duplicating an open descriptor to the lowest free one from a
  minimum on, when the minimum is at or above the size of the table, fails the assertion of \<open>growtable\<close> or assigns to a descriptor
  behind the table; and so does inserting a received file into a table in which every descriptor is open.
\<close>

theorem dup_beyond_table_fails:
  assumes "files_ok P H s" and "q \<in> P"
  shows "(file_of oldfd (fs_procs s q) \<noteq> Some None \<and> ft_fdcount (fs_procs s q) \<le> newfd \<and> newfd < 256 \<longrightarrow> fd_dup q oldfd newfd False flags alloc s = None)
    \<and> ((\<forall>j. 0 \<le> j \<and> j < ft_fdcount (fs_procs s q) \<longrightarrow> file_of j (fs_procs s q) \<noteq> Some None) \<longrightarrow> fd_insert q f alloc s = None)"
proof -
  let ?p = "fs_procs s q"
  note t = files_okD(2) [OF assms]
  have c: "0 \<le> ft_fdcount ?p" "ft_fdcount ?p \<le> FDTABLE_LIMIT" "ft_fdcount ?p = int (length (ft_fd ?p))" using t by (auto simp: table_ok_def)
  have "fd_dup q oldfd newfd False flags alloc s = None"
    if d: "file_of oldfd ?p \<noteq> Some None" "ft_fdcount ?p \<le> newfd" "newfd < 256"
  proof -
    obtain g where g: "file_of oldfd ?p = Some (Some g)" using d(1) file_of_ok [OF t, of oldfd] by auto
    have "getfree_loop ?p newfd = Some newfd" using d(2) by (simp add: getfree_loop.simps [of ?p newfd] below_count_def)
    then have "dup_above q g newfd flags alloc s = None"
      using d(2,3) c by (cases "newfd = ft_fdcount ?p") (simp_all add: dup_above_def getfree_def growtable_def set_fd_def FDTABLE_LIMIT_def Let_def)
    then show ?thesis using g d c(1) by (simp add: fd_dup_def FDTABLE_LIMIT_def)
  qed
  moreover have "fd_insert q f alloc s = None" if full: "\<forall>j. 0 \<le> j \<and> j < ft_fdcount ?p \<longrightarrow> file_of j ?p \<noteq> Some None"
  proof -
    obtain i where i: "getfree 0 ?p = Some (if i < ft_fdcount ?p then i else -1)" "0 \<le> i" "i < ft_fdcount ?p \<Longrightarrow> fd_file (ft_fd ?p ! nat i) = None"
      by (rule getfree_ok [OF t, of 0], simp, rule c(1), rule that) auto
    then have "\<not> i < ft_fdcount ?p" using full by (auto simp: file_of_ok [OF t] below_count_def)
    then show ?thesis using i(1) c(2) by (simp add: fd_insert_def growtable_def)
  qed
  ultimately show ?thesis by blast
qed

text \<open>The error of a failed \<open>F_DUPFD\<close> is lost: the call reports success and returns an uninitialised variable.\<close>

lemma fcntl_loses_error:
  assumes ok: "files_ok P H s" and q: "q \<in> P" and f: "file_of i (fs_procs s q) \<noteq> Some None" and arg: "sint (ucast arg :: 32 word) < 0"
  shows "\<exists>s'. syscall_fcntl q i 0 arg alloc junk s = Some (E_OK, junk, s') \<and> files_ok P H s'"
proof -
  obtain g where g: "file_of i (fs_procs s q) = Some (Some g)" using f file_of_ok [OF files_okD(2) [OF ok q], of i] by auto
  then obtain s1 where s1: "fd_get q i s = Some (Some g, s1)" "files_ok P (H(g := H g + 1)) s1" using fd_get_ok [OF ok q, of i] by auto
  moreover have "fcntl_command q i g 0 arg alloc junk s1 = Some (E_OK, junk, s1)" using arg by (simp add: fcntl_command_def fd_dup_def)
  moreover obtain s2 where "fd_release g s1 = Some s2" "files_ok P H s2" using fd_release_ok [OF s1(2), of g] by auto
  ultimately show ?thesis by (simp add: syscall_fcntl_def)
qed

subsection \<open>Concrete states\<close>

text \<open>A process with three descriptors for one terminal, as \<open>proc_init\<close> leaves the first one.\<close>

definition ex_files :: fstate where
  "ex_files = \<lparr>fs_files = \<lambda>_. \<lparr>fl_vnode = Some 1, fl_refcount = 1, fl_offset = 0, fl_flags = 3\<rparr>, fs_live = {1, 2, 3},
     fs_procs = \<lambda>_. \<lparr>ft_fd = map (\<lambda>f. \<lparr>fd_file = Some f, fd_flags = 0\<rparr>) [1, 2, 3], ft_fdcount = 3, ft_fdfirst = 3\<rparr>,
     fs_closed = [], fs_vrefs = \<lambda>_. 3\<rparr>"

lemma ex_files_ok: "files_ok {7} (\<lambda>_. 0) ex_files"
  by (auto simp: files_ok_def counts_ok_def descriptors_def uses_of_def table_ok_def FDTABLE_LIMIT_def ex_files_def less_Suc_eq numeral_nat)


theorem fd_new_lowest_witness:
  "\<exists>s'. fd_new 7 0 (Some 4) True ex_files = Some (E_OK, Some (4, 3), s') \<and> file_of 3 (fs_procs s' 7) = Some (Some 4) \<and> file_of 2 (fs_procs ex_files 7) \<noteq> Some None"
proof -
  have "\<exists>s'. fd_new 7 0 (Some 4) True ex_files = Some (E_OK, Some (4, 3), s')"
    by (simp add: fd_new_def newfile_def getfree_def getfree_loop.simps below_count_def growtable_def set_fd_def FDTABLE_LIMIT_def ex_files_def upd_file_def)
  then obtain s' where c: "fd_new 7 0 (Some 4) True ex_files = Some (E_OK, Some (4, 3), s')" by blast
  have "(7 :: pid) \<in> {7}" "\<forall>f. Some 4 = Some f \<longrightarrow> f \<notin> fs_live ex_files" by (simp_all add: ex_files_def)
  from fd_new_lowest [OF ex_files_ok this, of 0 True, unfolded c] c show ?thesis by auto
qed

theorem dup_beyond_table_fails_witness: "fd_dup 7 0 10 False 0 True ex_files = None \<and> fd_insert 7 1 True ex_files = None"
proof -
  have "file_of 0 (fs_procs ex_files 7) \<noteq> Some None" "ft_fdcount (fs_procs ex_files 7) \<le> 10"
    by (simp_all add: file_of_def below_count_def fd_at_def ex_files_def)
  moreover have "file_of j (fs_procs ex_files 7) \<noteq> Some None" if "0 \<le> j" "j < ft_fdcount (fs_procs ex_files 7)" for j
  proof -
    have "j \<in> {0, 1, 2}" using that by (auto simp: ex_files_def)
    then show ?thesis by (auto simp: file_of_def below_count_def fd_at_def ex_files_def)
  qed
  ultimately show ?thesis using dup_beyond_table_fails [OF ex_files_ok, of 7 0 10 0 True 1] by simp
qed

end
