(* ===== verification/Timer.thy ===== *)
theory Timer
  imports Dllist "HOL-Library.Monad_Syntax" "HOL-Library.Signed_Division"
begin

text \<open>
  Timers and deferred procedure calls: \<^verbatim>\<open>src/kernel-src/sys/timer.c\<close> and \<^verbatim>\<open>src/kernel-src/sys/dpc.c\<close>, for one CPU.

  An entry of the queue contains the deferred call it makes, so one number names both. Times are C longs: 64-bit words that are compared
  as signed numbers; sums wrap around, as the overflow check of \<open>insert\<close> expects. The hardware timer is known by what it was last armed with;
  how far it got when it is stopped is an argument of the operations that stop it. The lock of the timer and the raised interrupt level
  make an operation one step. \<open>None\<close> is a failed assertion or a walk that does not end.

  The lemmas show that the queue stays sorted and that an interrupt of the timer fires exactly the entries whose time has come,
  and that removing an entry that has fired leaves the hardware timer stopped.
\<close>

subsection \<open>Deferred calls\<close>

type_synonym time = "64 word"
type_synonym entryid = nat

record dpc =
  dp_next :: "entryid option"
  dp_prev :: "entryid option"
  dp_enqueued :: bool
  dp_fn :: nat
  dp_arg :: nat

record timerentry =
  te_next :: "entryid option"
  te_absolutetick :: time
  te_repeatus :: time
  te_fn :: nat
  te_arg :: nat
  te_fired :: bool

text \<open>
  The timer of a CPU, the entries, the queue of deferred calls of the CPU, the interrupt they are run by and whether it has been raised. \<open>tm_armed\<close> is \<open>None\<close> when
  the hardware timer is stopped.
\<close>

record timers =
  tm_entries :: "entryid \<Rightarrow> timerentry"
  tm_dpcs :: "entryid \<Rightarrow> dpc"
  tm_dpcqueue :: "entryid option"
  tm_dpcisr :: "nat option"
  tm_raised :: bool
  tm_tick_limit :: time
  tm_ticksperus :: time
  tm_tickcurrent :: time
  tm_current_target :: time
  tm_running :: bool
  tm_armed :: "time option"
  tm_queue :: "entryid option"

definition upd_entry :: "entryid \<Rightarrow> (timerentry \<Rightarrow> timerentry) \<Rightarrow> timers \<Rightarrow> timers" where
  "upd_entry e f s = s\<lparr>tm_entries := (tm_entries s)(e := f (tm_entries s e))\<rparr>"

definition upd_dpc :: "entryid \<Rightarrow> (dpc \<Rightarrow> dpc) \<Rightarrow> timers \<Rightarrow> timers" where
  "upd_dpc d f s = s\<lparr>tm_dpcs := (tm_dpcs s)(d := f (tm_dpcs s d))\<rparr>"

definition dnext :: "timers \<Rightarrow> entryid \<Rightarrow> entryid option" where "dnext s d = dp_next (tm_dpcs s d)"
definition dprev :: "timers \<Rightarrow> entryid \<Rightarrow> entryid option" where "dprev s d = dp_prev (tm_dpcs s d)"
definition set_dnext :: "entryid \<Rightarrow> entryid option \<Rightarrow> timers \<Rightarrow> timers" where "set_dnext d v = upd_dpc d (\<lambda>x. x\<lparr>dp_next := v\<rparr>)"
definition set_dprev :: "entryid \<Rightarrow> entryid option \<Rightarrow> timers \<Rightarrow> timers" where "set_dprev d v = upd_dpc d (\<lambda>x. x\<lparr>dp_prev := v\<rparr>)"

definition remove_dpc :: "entryid \<Rightarrow> timers \<Rightarrow> timers" where
  "remove_dpc d s =
     (let s1 = (case dprev s d of
                  Some p \<Rightarrow> set_dnext p (dnext s d) s
                | None \<Rightarrow> s\<lparr>tm_dpcqueue := dnext s d\<rparr>)
      in case dnext s d of None \<Rightarrow> s1 | Some n \<Rightarrow> set_dprev n (dprev s d) s1)"

definition insert_dpc :: "entryid \<Rightarrow> timers \<Rightarrow> timers" where
  "insert_dpc d s =
     (let s1 = set_dprev d None (set_dnext d (tm_dpcqueue s) s);
          s2 = (case tm_dpcqueue s of None \<Rightarrow> s1 | Some n \<Rightarrow> set_dprev n (Some d) s1)
      in s2\<lparr>tm_dpcqueue := Some d\<rparr>)"

definition dpc_enqueue :: "entryid \<Rightarrow> nat \<Rightarrow> nat \<Rightarrow> timers \<Rightarrow> timers" where
  "dpc_enqueue d fn arg s =
     (if dp_enqueued (tm_dpcs s d) then s
      else (insert_dpc d (upd_dpc d (\<lambda>x. x\<lparr>dp_fn := fn, dp_arg := arg, dp_enqueued := True\<rparr>) s))\<lparr>tm_raised := True\<rparr>)"

definition dpc_dequeue :: "entryid \<Rightarrow> timers \<Rightarrow> timers" where
  "dpc_dequeue d s = (if \<not> dp_enqueued (tm_dpcs s d) then s else remove_dpc d (upd_dpc d (\<lambda>x. x\<lparr>dp_enqueued := False\<rparr>) s))"

text \<open>The interrupt handler; \<open>run\<close> is what the functions do, with interrupts on.\<close>

partial_function (option) isrfn :: "(nat \<Rightarrow> nat \<Rightarrow> timers \<Rightarrow> timers) \<Rightarrow> timers \<Rightarrow> timers option" where
  "isrfn run s = (case tm_dpcqueue s of
     None \<Rightarrow> Some s
   | Some d \<Rightarrow>
       let s1 = remove_dpc d s
       in if \<not> dp_enqueued (tm_dpcs s1 d) then None
          else isrfn run (run (dp_fn (tm_dpcs s d)) (dp_arg (tm_dpcs s d)) (upd_dpc d (\<lambda>x. x\<lparr>dp_enqueued := False\<rparr>) s1)))"

declare isrfn.simps [code]

text \<open>\<open>isr\<close> is what \<open>interrupt_allocate\<close> returns.\<close>

definition dpc_init :: "nat option \<Rightarrow> timers \<Rightarrow> timers option" where
  "dpc_init isr s = (let s = s\<lparr>tm_dpcisr := isr\<rparr> in if tm_dpcisr s = None then None else Some s)"

subsection \<open>The queue of a timer\<close>

definition tnext :: "timers \<Rightarrow> entryid \<Rightarrow> entryid option" where "tnext s e = te_next (tm_entries s e)"
definition set_tnext :: "entryid \<Rightarrow> entryid option \<Rightarrow> timers \<Rightarrow> timers" where "set_tnext e v = upd_entry e (\<lambda>x. x\<lparr>te_next := v\<rparr>)"
definition tick_of :: "timers \<Rightarrow> entryid \<Rightarrow> time" where "tick_of s e = te_absolutetick (tm_entries s e)"

text \<open>A thousand years of 360 days, in ticks.\<close>

definition far_off :: "time \<Rightarrow> time" where
  "far_off ticksperus = ticksperus * 1000 * 1000 * 60 * 60 * 24 * 30 * 12 * 1000"

partial_function (option) insert_search :: "entryid \<Rightarrow> entryid \<Rightarrow> timers \<Rightarrow> timers option" where
  "insert_search entry search s =
     (if search = entry then None
      else case tnext s search of
        None \<Rightarrow> Some (set_tnext search (Some entry) (set_tnext entry None s))
      | Some n \<Rightarrow>
          if sint (tick_of s entry) \<ge> sint (tick_of s search) \<and> sint (tick_of s n) > sint (tick_of s entry)
          then Some (set_tnext search (Some entry) (set_tnext entry (Some n) s))
          else insert_search entry n s)"

declare insert_search.simps [code]

text \<open>The part of \<open>insert\<close> after the time has been set.\<close>

definition link_entry :: "entryid \<Rightarrow> timers \<Rightarrow> timers option" where
  "link_entry entry s = (case tm_queue s of
     None \<Rightarrow> Some ((set_tnext entry None s)\<lparr>tm_queue := Some entry\<rparr>)
   | Some h \<Rightarrow>
       if sint (tick_of s h) > sint (tick_of s entry)
       then (if tnext s entry \<noteq> None then None else Some ((set_tnext entry (Some h) s)\<lparr>tm_queue := Some entry\<rparr>))
       else insert_search entry h s)"

definition insert_timer :: "entryid \<Rightarrow> time \<Rightarrow> timers \<Rightarrow> timers option" where
  "insert_timer entry us s =
     (let t = tm_tickcurrent s + us * tm_ticksperus s;
          t = (if sint t < sint (tm_tickcurrent s) then far_off (tm_ticksperus s) else t)
      in link_entry entry (upd_entry entry (\<lambda>x. x\<lparr>te_absolutetick := t\<rparr>) s))"

definition arm_for_next_target :: "timers \<Rightarrow> timers" where
  "arm_for_next_target s =
     (let target = (case tm_queue s of
            Some h \<Rightarrow> min_long (tick_of s h - tm_tickcurrent s) (tm_tick_limit s)
          | None \<Rightarrow> tm_tick_limit s)
      in s\<lparr>tm_current_target := tm_tickcurrent s + target, tm_armed := Some target\<rparr>)"

text \<open>The head of the queue taken off, inserted again or marked as fired, and its call enqueued.\<close>

definition fire_head :: "entryid \<Rightarrow> timers \<Rightarrow> timers option" where
  "fire_head entry s = do {
     let s = set_tnext entry None (s\<lparr>tm_queue := tnext s entry\<rparr>);
     let x = tm_entries s entry;
     s \<leftarrow> (if te_repeatus x \<noteq> 0 then insert_timer entry (te_repeatus x) s else Some (upd_entry entry (\<lambda>x. x\<lparr>te_fired := True\<rparr>) s));
     Some (dpc_enqueue entry (te_fn x) (te_arg x) s)
   }"

partial_function (option) timercheck :: "timers \<Rightarrow> timers option" where
  "timercheck s = (case tm_queue s of
     None \<Rightarrow> Some s
   | Some entry \<Rightarrow>
       if tick_of s entry = tm_tickcurrent s then do { s \<leftarrow> fire_head entry s; timercheck s } else Some s)"

declare timercheck.simps [code]

definition stop_hardware :: "timers \<Rightarrow> timers" where
  "stop_hardware s = s\<lparr>tm_armed := None\<rparr>"

definition advance :: "time \<Rightarrow> timers \<Rightarrow> timers" where
  "advance passed s = (stop_hardware s)\<lparr>tm_tickcurrent := tm_tickcurrent s + passed\<rparr>"

definition check_and_arm :: "timers \<Rightarrow> timers option" where
  "check_and_arm s = do { s \<leftarrow> timercheck s; Some (arm_for_next_target s) }"

definition timer_isr :: "time \<Rightarrow> timers \<Rightarrow> timers option" where
  "timer_isr time_passed s = (case tm_queue s of
     None \<Rightarrow> None
   | Some oldentry \<Rightarrow>
       let s = stop_hardware s
       in if sint time_passed < sint (tm_current_target s - tm_tickcurrent s)
          then check_and_arm (s\<lparr>tm_tickcurrent := tm_tickcurrent s + time_passed\<rparr>)
          else do {
            s \<leftarrow> fire_head oldentry (s\<lparr>tm_tickcurrent := tm_current_target s\<rparr>);
            check_and_arm s
          })"

definition timer_get_ticks :: "time \<Rightarrow> timers \<Rightarrow> time" where
  "timer_get_ticks time_passed s = tm_tickcurrent s + time_passed"

definition timer_resume :: "timers \<Rightarrow> timers option" where
  "timer_resume s =
     (let s = s\<lparr>tm_running := True\<rparr>
      in if tm_queue s = None then Some s else check_and_arm s)"

definition timer_stop :: "time \<Rightarrow> timers \<Rightarrow> timers" where
  "timer_stop time_passed s = (advance time_passed s)\<lparr>tm_running := False\<rparr>"

definition timer_insert :: "time \<Rightarrow> entryid \<Rightarrow> nat \<Rightarrow> nat \<Rightarrow> time \<Rightarrow> bool \<Rightarrow> timers \<Rightarrow> timers option" where
  "timer_insert time_passed entry fn arg us repeating s = do {
     let s = (if tm_running s then advance time_passed s else s);
     let s = upd_dpc entry (\<lambda>_. \<lparr>dp_next = None, dp_prev = None, dp_enqueued = False, dp_fn = 0, dp_arg = 0\<rparr>) s;
     let s = upd_entry entry (\<lambda>_. \<lparr>te_next = None, te_absolutetick = 0, te_repeatus = (if repeating then us else 0), te_fn = fn, te_arg = arg, te_fired = False\<rparr>) s;
     s \<leftarrow> insert_timer entry us s;
     if tm_running s then check_and_arm s else Some s
   }"

text \<open>\<open>ROUND_UP\<close> on longs.\<close>

definition round_up_long :: "time \<Rightarrow> time \<Rightarrow> time" where
  "round_up_long v n = (let w = v + n - 1 in w - word_of_int (sint w smod sint n))"

text \<open>The search for an entry: its predecessor, when it has one.\<close>

partial_function (option) find_prev :: "timers \<Rightarrow> entryid \<Rightarrow> entryid option \<Rightarrow> entryid option \<Rightarrow> entryid option option" where
  "find_prev s entry prev it = do {
     x \<leftarrow> it;
     (if x = entry then Some prev else find_prev s entry (Some x) (tnext s x))
   }"

declare find_prev.simps [code]

definition timer_remove :: "time \<Rightarrow> entryid \<Rightarrow> timers \<Rightarrow> (time \<times> timers) option" where
  "timer_remove time_passed entry s = do {
     let s = (if tm_running s then advance time_passed s else s);
     if te_fired (tm_entries s entry) then Some (0, s)
     else do {
       prev \<leftarrow> find_prev s entry None (tm_queue s);
       let n = tnext s entry;
       let s = (case prev of None \<Rightarrow> s\<lparr>tm_queue := n\<rparr> | Some p \<Rightarrow> set_tnext p n s);
       let s = set_tnext entry None s;
       let timeremaining = word_of_int (sint (round_up_long (tick_of s entry - tm_tickcurrent s) (tm_ticksperus s)) sdiv sint (tm_ticksperus s));
       s \<leftarrow> (if tm_queue s \<noteq> None then check_and_arm s else Some s);
       Some (timeremaining, s)
     }
   }"

text \<open>\<open>ok\<close> says whether \<open>alloc\<close> succeeds; the memory it returns is cleared.\<close>

definition timer_new :: "bool \<Rightarrow> time \<Rightarrow> time \<Rightarrow> timers \<Rightarrow> bool \<times> timers" where
  "timer_new ok ticksperus tick_limit s =
     (if ok then (True, s\<lparr>tm_queue := None, tm_tickcurrent := 0, tm_current_target := 0, tm_ticksperus := ticksperus, tm_running := False, tm_tick_limit := tick_limit\<rparr>)
      else (False, s))"

subsection \<open>A sorted queue\<close>

text \<open>The time of an entry as a number, and the state without the links of the queue.\<close>

definition due :: "timers \<Rightarrow> entryid \<Rightarrow> int" where
  "due s e = sint (tick_of s e)"

definition unlinked_timers :: "timers \<Rightarrow> timers" where
  "unlinked_timers s = s\<lparr>tm_queue := None, tm_entries := (\<lambda>e. (tm_entries s e)\<lparr>te_next := None\<rparr>)\<rparr>"

definition timer_ok :: "timers \<Rightarrow> entryid list \<Rightarrow> bool" where
  "timer_ok s es \<longleftrightarrow> nchain (tnext s) (tm_queue s) es None \<and> distinct es \<and> sorted (map (due s) es) \<and> (\<forall>e\<in>set es. sint (tm_tickcurrent s) \<le> due s e)"

lemma unlinked_simps [simp]:
  "unlinked_timers (set_tnext e v s) = unlinked_timers s" "unlinked_timers (s\<lparr>tm_queue := q\<rparr>) = unlinked_timers s"
  by (auto simp: unlinked_timers_def set_tnext_def upd_entry_def fun_eq_iff)

lemma unlinked_timer_fields:
  assumes "unlinked_timers s' = unlinked_timers s"
  shows "due s' = due s" "te_fired (tm_entries s' x) = te_fired (tm_entries s x)" "te_repeatus (tm_entries s' x) = te_repeatus (tm_entries s x)"
    "te_fn (tm_entries s' x) = te_fn (tm_entries s x)" "te_arg (tm_entries s' x) = te_arg (tm_entries s x)"
    "tm_tickcurrent s' = tm_tickcurrent s" "tm_ticksperus s' = tm_ticksperus s" "tm_dpcs s' = tm_dpcs s" "tm_dpcqueue s' = tm_dpcqueue s"
    "tm_tick_limit s' = tm_tick_limit s" "tm_running s' = tm_running s" "tm_armed s' = tm_armed s"
proof -
  have "(tm_entries s' x)\<lparr>te_next := None\<rparr> = (tm_entries s x)\<lparr>te_next := None\<rparr>" for x
    using arg_cong [OF assms, of tm_entries] by (simp add: unlinked_timers_def fun_eq_iff)
  then show "due s' = due s" "te_fired (tm_entries s' x) = te_fired (tm_entries s x)" "te_repeatus (tm_entries s' x) = te_repeatus (tm_entries s x)"
    "te_fn (tm_entries s' x) = te_fn (tm_entries s x)" "te_arg (tm_entries s' x) = te_arg (tm_entries s x)"
    unfolding due_def tick_of_def fun_eq_iff by (metis timerentry.ext_inject timerentry.surjective timerentry.update_convs(1))+
  show "tm_tickcurrent s' = tm_tickcurrent s" "tm_ticksperus s' = tm_ticksperus s" "tm_dpcs s' = tm_dpcs s" "tm_dpcqueue s' = tm_dpcqueue s"
    "tm_tick_limit s' = tm_tick_limit s" "tm_running s' = tm_running s" "tm_armed s' = tm_armed s"
    using arg_cong [OF assms, of tm_tickcurrent] arg_cong [OF assms, of tm_ticksperus] arg_cong [OF assms, of tm_dpcs] arg_cong [OF assms, of tm_dpcqueue]
      arg_cong [OF assms, of tm_tick_limit] arg_cong [OF assms, of tm_running] arg_cong [OF assms, of tm_armed]
    by (simp_all add: unlinked_timers_def)
qed

lemma tnext_set [simp]: "tnext (set_tnext e v s) = (tnext s)(e := v)" "tm_queue (set_tnext e v s) = tm_queue s" "tnext (s\<lparr>tm_queue := q\<rparr>) = tnext s"
  by (auto simp: tnext_def set_tnext_def upd_entry_def fun_eq_iff)

text \<open>The search finds the last entry that is not later.\<close>

lemma insert_search_ok:
  assumes "nchain (tnext s) (Some x) (x # ys) None" and "e \<notin> set (x # ys)" and "due s x \<le> due s e"
  shows "\<exists>pre q post. x # ys = pre @ q # post \<and> (\<forall>z\<in>set (pre @ [q]). due s z \<le> due s e) \<and> (post \<noteq> [] \<longrightarrow> due s e < due s (hd post))
    \<and> insert_search e x s = Some (set_tnext q (Some e) (set_tnext e (if post = [] then None else Some (hd post)) s))"
  using assms
proof (induction ys arbitrary: x)
  case Nil
  then show ?case by (intro exI [of _ "[]"] exI [of _ x]) (simp add: insert_search.simps)
next
  case (Cons y ys)
  have n: "tnext s x = Some y" "x \<noteq> e" using Cons.prems by auto
  show ?case
  proof (cases "due s y > due s e")
    case True
    then have "insert_search e x s = Some (set_tnext x (Some e) (set_tnext e (Some y) s))"
      using n Cons.prems(3) by (simp add: insert_search.simps due_def)
    then show ?thesis using True Cons.prems(3) by (intro exI [of _ "[]"] exI [of _ x] exI [of _ "y # ys"]) simp
  next
    case False
    then have "insert_search e x s = insert_search e y s" using n by (subst insert_search.simps) (simp add: due_def)
    moreover obtain pre q post where "y # ys = pre @ q # post" "\<forall>z\<in>set (pre @ [q]). due s z \<le> due s e" "post \<noteq> [] \<longrightarrow> due s e < due s (hd post)"
        "insert_search e y s = Some (set_tnext q (Some e) (set_tnext e (if post = [] then None else Some (hd post)) s))"
      using Cons.IH [of y] Cons.prems False by auto
    ultimately show ?thesis using Cons.prems(3) by (intro exI [of _ "x # pre"] exI [of _ q] exI [of _ post]) auto
  qed
qed

lemma link_entry_ok:
  assumes ok: "timer_ok s es" and e: "e \<notin> set es" "tnext s e = None" "sint (tm_tickcurrent s) \<le> due s e"
  shows "\<exists>s' xs ys. link_entry e s = Some s' \<and> es = xs @ ys \<and> timer_ok s' (xs @ e # ys) \<and> unlinked_timers s' = unlinked_timers s"
proof -
  have ch: "nchain (tnext s) (tm_queue s) es None" "distinct es" "sorted (map (due s) es)" "\<And>x. x \<in> set es \<Longrightarrow> sint (tm_tickcurrent s) \<le> due s x"
    using ok by (auto simp: timer_ok_def)
  show ?thesis
  proof (cases es)
    case Nil
    then have "link_entry e s = Some ((set_tnext e None s)\<lparr>tm_queue := Some e\<rparr>)" using ch by (simp add: link_entry_def)
    moreover have "timer_ok ((set_tnext e None s)\<lparr>tm_queue := Some e\<rparr>) [e]"
      using e(3) unlinked_timer_fields [of "(set_tnext e None s)\<lparr>tm_queue := Some e\<rparr>" s] by (simp add: timer_ok_def)
    ultimately show ?thesis using Nil by (intro exI [of _ "(set_tnext e None s)\<lparr>tm_queue := Some e\<rparr>"] exI [of _ "[]"] exI [of _ "[]"]) simp
  next
    case (Cons h hs)
    have q: "tm_queue s = Some h" using ch(1) Cons by simp
    show ?thesis
    proof (cases "due s h > due s e")
      case True
      let ?s = "(set_tnext e (Some h) s)\<lparr>tm_queue := Some e\<rparr>"
      have "link_entry e s = Some ?s" using q True e(2) by (simp add: link_entry_def due_def)
      moreover have "nchain ((tnext s)(e := Some h)) (Some h) es None" by (rule nchain_frame [OF ch(1) [unfolded q]]) (use e(1) in auto)
      then have "timer_ok ?s (e # es)"
        using ch e True Cons unlinked_timer_fields [of ?s s] by (auto simp: timer_ok_def intro: order_trans [OF less_imp_le])
      ultimately show ?thesis by (intro exI [of _ ?s] exI [of _ "[]"] exI [of _ es]) simp
    next
      case False
      then have le: "link_entry e s = insert_search e h s" using q by (simp add: link_entry_def due_def)
      obtain pre x post where p: "es = pre @ x # post" "\<forall>z\<in>set (pre @ [x]). due s z \<le> due s e" "post \<noteq> [] \<longrightarrow> due s e < due s (hd post)"
          "insert_search e h s = Some (set_tnext x (Some e) (set_tnext e (if post = [] then None else Some (hd post)) s))"
        using insert_search_ok [of s h hs e] ch(1) [unfolded q] e(1) False unfolding Cons by (auto simp del: nchain.simps)
      let ?s = "set_tnext x (Some e) (set_tnext e (if post = [] then None else Some (hd post)) s)"
      have c: "nchain (tnext s) (tm_queue s) pre (Some x)" "nchain (tnext s) (tnext s x) post None" using ch(1) by (auto simp: p(1) nchain_append)
      have tn: "tnext s x = (if post = [] then None else Some (hd post))" using c(2) by (cases post) auto
      have "nchain (tnext ?s) (tm_queue s) pre (Some x)" by (rule nchain_frame [OF c(1)]) (use ch(2) e(1) p(1) in auto)
      moreover have "nchain (tnext ?s) (tnext s x) post None" by (rule nchain_frame [OF c(2)]) (use ch(2) e(1) p(1) in auto)
      ultimately have "nchain (tnext ?s) (tm_queue ?s) ((pre @ [x]) @ e # post) None" using tn e(1) p(1) by (auto simp: nchain_append)
      moreover have "\<forall>z\<in>set post. due s e \<le> due s z" using p(3) ch(3) by (cases post) (auto simp: p(1) sorted_append)
      then have "sorted (map (due s) ((pre @ [x]) @ e # post))" using ch(3) p(2) by (auto simp: p(1) sorted_append)
      ultimately have "timer_ok ?s ((pre @ [x]) @ e # post)"
        using ch(2,4) e(1,3) unlinked_timer_fields [of ?s s] by (auto simp: timer_ok_def p(1))
      then show ?thesis using le p(1,4) by (intro exI [of _ ?s] exI [of _ "pre @ [x]"] exI [of _ post]) simp
    qed
  qed
qed

lemma timer_ok_cong:
  assumes "tnext s' = tnext s" and "tm_queue s' = tm_queue s" and "\<And>e. e \<in> set es \<Longrightarrow> tick_of s' e = tick_of s e" and "tm_tickcurrent s' = tm_tickcurrent s"
  shows "timer_ok s' es = timer_ok s es"
proof -
  have "map (due s') es = map (due s) es" "\<And>e. e \<in> set es \<Longrightarrow> due s' e = due s e" using assms(3) by (auto simp: due_def)
  then show ?thesis unfolding timer_ok_def assms(1,2,4) by (simp only: cong: ball_cong)
qed

text \<open>The sum that gives the time of an entry, when it does not overflow.\<close>

definition fits :: "timers \<Rightarrow> time \<Rightarrow> bool" where
  "fits s us \<longleftrightarrow> 0 \<le> sint (tm_tickcurrent s) \<and> 0 \<le> sint us \<and> 0 < sint (tm_ticksperus s) \<and> sint (tm_tickcurrent s) + sint us * sint (tm_ticksperus s) < 2 ^ 63"

lemma sint_sum:
  assumes "fits s us"
  shows "sint (tm_tickcurrent s + us * tm_ticksperus s) = sint (tm_tickcurrent s) + sint us * sint (tm_ticksperus s)"
proof -
  have p: "0 \<le> sint us * sint (tm_ticksperus s)" "sint us * sint (tm_ticksperus s) < 2 ^ 63" using assms by (auto simp: fits_def)
  have *: "sint (word_of_int k :: 64 word) = k" if "0 \<le> k" "k < 2 ^ 63" for k
    using that by (simp add: sint_sbintrunc' signed_take_bit_int_eq_self)
  have "tm_tickcurrent s + us * tm_ticksperus s = word_of_int (sint (tm_tickcurrent s) + sint us * sint (tm_ticksperus s))" by simp
  then show ?thesis using * [of "sint (tm_tickcurrent s) + sint us * sint (tm_ticksperus s)"] assms p by (simp add: fits_def)
qed

lemma upd_entry_simps [simp]:
  "tm_entries (upd_entry e f s) = (tm_entries s)(e := f (tm_entries s e))" "tm_queue (upd_entry e f s) = tm_queue s" "tm_tickcurrent (upd_entry e f s) = tm_tickcurrent s"
  "tm_ticksperus (upd_entry e f s) = tm_ticksperus s" "tm_dpcs (upd_entry e f s) = tm_dpcs s" "tm_dpcqueue (upd_entry e f s) = tm_dpcqueue s"
  "tm_tick_limit (upd_entry e f s) = tm_tick_limit s" "tm_running (upd_entry e f s) = tm_running s" "tm_armed (upd_entry e f s) = tm_armed s"
  by (simp_all add: upd_entry_def)

lemma insert_timer_ok:
  assumes ok: "timer_ok s es" and e: "e \<notin> set es" "tnext s e = None" and us: "fits s us"
  shows "\<exists>s' xs ys. insert_timer e us s = Some s' \<and> es = xs @ ys \<and> timer_ok s' (xs @ e # ys)
    \<and> unlinked_timers s' = unlinked_timers (upd_entry e (\<lambda>x. x\<lparr>te_absolutetick := tm_tickcurrent s + us * tm_ticksperus s\<rparr>) s)"
proof -
  let ?t = "tm_tickcurrent s + us * tm_ticksperus s"
  let ?s = "upd_entry e (\<lambda>x. x\<lparr>te_absolutetick := ?t\<rparr>) s"
  have t: "sint ?t = sint (tm_tickcurrent s) + sint us * sint (tm_ticksperus s)" "sint (tm_tickcurrent s) \<le> sint ?t"
    using sint_sum [OF us] us by (simp_all add: fits_def)
  then have "insert_timer e us s = link_entry e ?s" by (simp add: insert_timer_def)
  moreover have "timer_ok ?s es" by (subst timer_ok_cong [of _ s]) (use ok e(1) in \<open>auto simp: tnext_def tick_of_def fun_eq_iff\<close>)
  moreover have "tnext ?s e = None" "sint (tm_tickcurrent ?s) \<le> due ?s e" using e(2) t(2) by (simp_all add: tnext_def due_def tick_of_def)
  ultimately show ?thesis using link_entry_ok [of ?s es e] e(1) by auto
qed

lemma dpc_enqueue_simps [simp]:
  "tm_entries (dpc_enqueue d fn arg s) = tm_entries s" "tm_queue (dpc_enqueue d fn arg s) = tm_queue s" "tm_tickcurrent (dpc_enqueue d fn arg s) = tm_tickcurrent s"
  "tm_ticksperus (dpc_enqueue d fn arg s) = tm_ticksperus s" "tm_tick_limit (dpc_enqueue d fn arg s) = tm_tick_limit s" "tm_armed (dpc_enqueue d fn arg s) = tm_armed s"
  "tm_running (dpc_enqueue d fn arg s) = tm_running s" "tm_current_target (dpc_enqueue d fn arg s) = tm_current_target s"
  "dp_enqueued (tm_dpcs (dpc_enqueue d fn arg s) x) \<longleftrightarrow> dp_enqueued (tm_dpcs s x) \<or> x = d"
  by (auto simp: dpc_enqueue_def insert_dpc_def set_dnext_def set_dprev_def upd_dpc_def Let_def split: option.split)

text \<open>What a step of the queue keeps of the entries, apart from the one it fires.\<close>

definition period :: "timers \<Rightarrow> entryid \<Rightarrow> time" where
  "period s e = te_repeatus (tm_entries s e)"

definition fired :: "timers \<Rightarrow> entryid \<Rightarrow> bool" where
  "fired s e = te_fired (tm_entries s e)"

definition enqueued :: "timers \<Rightarrow> entryid \<Rightarrow> bool" where
  "enqueued s e = dp_enqueued (tm_dpcs s e)"

definition next_due :: "timers \<Rightarrow> entryid \<Rightarrow> int" where
  "next_due s e = sint (tm_tickcurrent s) + sint (period s e) * sint (tm_ticksperus s)"

definition same_clock :: "timers \<Rightarrow> timers \<Rightarrow> bool" where
  "same_clock s s' \<longleftrightarrow> tm_tickcurrent s' = tm_tickcurrent s \<and> tm_ticksperus s' = tm_ticksperus s \<and> tm_tick_limit s' = tm_tick_limit s
     \<and> tm_running s' = tm_running s \<and> period s' = period s"

lemma fire_head_ok:
  assumes ok: "timer_ok s (e # es)" and p: "fits s (period s e)"
  shows "\<exists>s' es'. fire_head e s = Some s' \<and> timer_ok s' es' \<and> same_clock s s'
    \<and> set es' = (if period s e = 0 then set es else insert e (set es))
    \<and> due s' = (if period s e = 0 then due s else (due s)(e := next_due s e))
    \<and> fired s' = (if period s e = 0 then (fired s)(e := True) else fired s) \<and> enqueued s' = (enqueued s)(e := True)"
proof -
  define s1 where "s1 = set_tnext e None (s\<lparr>tm_queue := tnext s e\<rparr>)"
  have u: "unlinked_timers s1 = unlinked_timers s" by (simp add: s1_def)
  note U = unlinked_timer_fields [OF u]
  have "nchain (tnext s) (tnext s e) es None" and d: "e \<notin> set es" using ok by (auto simp: timer_ok_def)
  then have "nchain (tnext s1) (tm_queue s1) es None" unfolding s1_def by (auto elim!: nchain_frame)
  then have ok1: "timer_ok s1 es" using ok by (simp add: timer_ok_def U(1,6))
  have n: "tnext s1 e = None" by (simp add: s1_def)
  show ?thesis
  proof (cases "period s e = 0")
    case True
    let ?s = "upd_entry e (\<lambda>x. x\<lparr>te_fired := True\<rparr>) s1"
    let ?s' = "dpc_enqueue e (te_fn (tm_entries s1 e)) (te_arg (tm_entries s1 e)) ?s"
    have "fire_head e s = Some ?s'" using True U(3) by (simp add: fire_head_def period_def Let_def flip: s1_def)
    moreover have "timer_ok ?s' es" by (subst timer_ok_cong [of _ s1]) (use ok1 d in \<open>auto simp: tnext_def tick_of_def fun_eq_iff\<close>)
    moreover have "due ?s' = due s1" "fired ?s' = (fired s1)(e := True)" "enqueued ?s' = (enqueued s1)(e := True)" "period ?s' = period s1"
      by (auto simp: due_def tick_of_def fired_def enqueued_def period_def fun_eq_iff)
    moreover have "fired s1 = fired s" "enqueued s1 = enqueued s" "period s1 = period s" by (simp_all add: fired_def enqueued_def period_def U fun_eq_iff)
    ultimately show ?thesis using True U by (intro exI [of _ ?s'] exI [of _ es]) (simp add: same_clock_def)
  next
    case False
    have f1: "fits s1 (period s e)" using p by (simp add: fits_def U)
    obtain s2 xs ys where s2: "insert_timer e (period s e) s1 = Some s2" "es = xs @ ys" "timer_ok s2 (xs @ e # ys)"
        "unlinked_timers s2 = unlinked_timers (upd_entry e (\<lambda>x. x\<lparr>te_absolutetick := tm_tickcurrent s1 + period s e * tm_ticksperus s1\<rparr>) s1)"
      using insert_timer_ok [OF ok1 d n f1] by blast
    note W = unlinked_timer_fields [OF s2(4)]
    let ?s' = "dpc_enqueue e (te_fn (tm_entries s1 e)) (te_arg (tm_entries s1 e)) s2"
    have "fire_head e s = Some ?s'" using False U(3) s2(1) by (simp add: fire_head_def period_def Let_def flip: s1_def)
    moreover have "timer_ok ?s' (xs @ e # ys)" by (subst timer_ok_cong [of _ s2]) (use s2(3) in \<open>auto simp: tnext_def tick_of_def fun_eq_iff\<close>)
    moreover have "due ?s' = (due s)(e := next_due s e)"
    proof
      fix x
      have "due ?s' x = due s2 x" by (simp add: due_def tick_of_def)
      moreover have "due s1 x = due s x" by (simp add: U)
      ultimately show "due ?s' x = ((due s)(e := next_due s e)) x"
        using W(1) sint_sum [OF p] U(6,7) by (simp add: due_def tick_of_def next_due_def)
    qed
    moreover have "fired ?s' = fired s" "enqueued ?s' = (enqueued s)(e := True)" "period ?s' = period s"
      using U W by (auto simp: fired_def enqueued_def period_def fun_eq_iff)
    ultimately show ?thesis using False U W s2(2) by (intro exI [of _ ?s'] exI [of _ "xs @ e # ys"]) (auto simp: same_clock_def)
  qed
qed

lemma next_due_later: "fits s (period s e) \<Longrightarrow> period s e \<noteq> 0 \<Longrightarrow> sint (tm_tickcurrent s) < next_due s e"
proof -
  assume f: "fits s (period s e)" "period s e \<noteq> 0"
  have "sint (period s e) \<noteq> 0" using f(2) by (metis signed_0 signed_word_eqI)
  then show ?thesis using f(1) by (simp add: fits_def next_due_def)
qed

lemma fits_clock: "same_clock s s' \<Longrightarrow> fits s' us = fits s us" "same_clock s s' \<Longrightarrow> next_due s' = next_due s"
  by (auto simp: same_clock_def fits_def next_due_def fun_eq_iff)

text \<open>The entries whose time has come are fired, and put back when they repeat; the others stay.\<close>

definition fires :: "timers \<Rightarrow> entryid set \<Rightarrow> entryid \<Rightarrow> bool" where
  "fires s E x \<longleftrightarrow> x \<in> E \<and> due s x = sint (tm_tickcurrent s)"

definition fired_state :: "timers \<Rightarrow> entryid set \<Rightarrow> timers \<Rightarrow> entryid set \<Rightarrow> bool" where
  "fired_state s E s' E' \<longleftrightarrow> same_clock s s' \<and> E' = {x \<in> E. fires s E x \<longrightarrow> period s x \<noteq> 0}
     \<and> due s' = (\<lambda>x. if fires s E x \<and> period s x \<noteq> 0 then next_due s x else due s x)
     \<and> fired s' = (\<lambda>x. fired s x \<or> fires s E x \<and> period s x = 0) \<and> enqueued s' = (\<lambda>x. enqueued s x \<or> fires s E x)"

lemma fire_one:
  assumes ok: "timer_ok s (e # es)" and p: "\<forall>x\<in>set (e # es). fits s (period s x)" and e: "due s e = sint (tm_tickcurrent s)"
  shows "\<exists>s' es'. fire_head e s = Some s' \<and> timer_ok s' es' \<and> (\<forall>x\<in>set es'. fits s' (period s' x))
    \<and> {x \<in> set es'. due s' x = sint (tm_tickcurrent s')} = {x \<in> set (e # es). due s x = sint (tm_tickcurrent s)} - {e}
    \<and> (\<forall>s2 E2. fired_state s' (set es') s2 E2 \<longrightarrow> fired_state s (set (e # es)) s2 E2)"
proof -
  obtain s' es' where F: "fire_head e s = Some s'" "timer_ok s' es'" "same_clock s s'" "set es' = (if period s e = 0 then set es else insert e (set es))"
      "due s' = (if period s e = 0 then due s else (due s)(e := next_due s e))" "fired s' = (if period s e = 0 then (fired s)(e := True) else fired s)"
      "enqueued s' = (enqueued s)(e := True)"
    using fire_head_ok [OF ok] p by auto
  note C = fits_clock [OF F(3)]
  have per: "period s' = period s" "tm_tickcurrent s' = tm_tickcurrent s" using F(3) by (simp_all add: same_clock_def)
  have e0: "e \<notin> set es" using ok by (simp add: timer_ok_def)
  have later: "next_due s e \<noteq> sint (tm_tickcurrent s)" if "period s e \<noteq> 0" using next_due_later [of s e] p that by auto
  have fs: "fires s' (set es') x \<longleftrightarrow> fires s (set (e # es)) x \<and> x \<noteq> e" for x using F(4,5) e0 later per by (auto simp: fires_def)
  have fe: "fires s (set (e # es)) e" using e by (simp add: fires_def)
  have "fired_state s (set (e # es)) s2 E2" if G: "fired_state s' (set es') s2 E2" for s2 E2
  proof -
    have "same_clock s s2" using F(3) G by (simp add: same_clock_def fired_state_def)
    moreover have "E2 = {x \<in> set (e # es). fires s (set (e # es)) x \<longrightarrow> period s x \<noteq> 0}"
      using G F(4) fs fe e0 by (auto simp: fired_state_def per split: if_splits)
    moreover have "due s2 = (\<lambda>x. if fires s (set (e # es)) x \<and> period s x \<noteq> 0 then next_due s x else due s x)"
      using G F(5) fs fe C(2) by (auto simp: fired_state_def per fun_eq_iff)
    moreover have "fired s2 = (\<lambda>x. fired s x \<or> fires s (set (e # es)) x \<and> period s x = 0)" "enqueued s2 = (\<lambda>x. enqueued s x \<or> fires s (set (e # es)) x)"
      using G F(6,7) fs fe by (auto simp: fired_state_def per fun_eq_iff)
    ultimately show ?thesis by (simp add: fired_state_def)
  qed
  moreover have "\<forall>x\<in>set es'. fits s' (period s' x)" using p F(4) by (auto simp: C(1) per split: if_splits)
  moreover have "{x \<in> set es'. due s' x = sint (tm_tickcurrent s')} = {x \<in> set (e # es). due s x = sint (tm_tickcurrent s)} - {e}"
    using fs by (auto simp: fires_def)
  ultimately show ?thesis using F(1,2) by blast
qed

lemma timercheck_ok:
  assumes "timer_ok s es" and "\<forall>x\<in>set es. fits s (period s x)"
  shows "\<exists>s' es'. timercheck s = Some s' \<and> timer_ok s' es' \<and> fired_state s (set es) s' (set es') \<and> (\<forall>x\<in>set es'. sint (tm_tickcurrent s') < due s' x)"
  using assms
proof (induction "card {x \<in> set es. due s x = sint (tm_tickcurrent s)}" arbitrary: s es)
  case 0
  then have "{x \<in> set es. due s x = sint (tm_tickcurrent s)} = {}" by simp
  then have none: "due s x \<noteq> sint (tm_tickcurrent s)" if "x \<in> set es" for x using that by blast
  have "timercheck s = Some s"
  proof (cases es)
    case (Cons e es0)
    then have "tm_queue s = Some e" "tick_of s e \<noteq> tm_tickcurrent s" using 0(2) none [of e] by (auto simp: timer_ok_def due_def)
    then show ?thesis by (simp add: timercheck.simps)
  qed (use 0(2) in \<open>simp add: timer_ok_def timercheck.simps\<close>)
  moreover have "fired_state s (set es) s (set es)" using none by (auto simp: fired_state_def fires_def same_clock_def fun_eq_iff)
  moreover have "sint (tm_tickcurrent s) < due s x" if "x \<in> set es" for x using none [OF that] 0(2) that by (auto simp: timer_ok_def order_less_le)
  ultimately show ?case using 0(2) by blast
next
  case (Suc n)
  then obtain e0 where e0: "e0 \<in> set es" "due s e0 = sint (tm_tickcurrent s)" by (metis (mono_tags, lifting) Collect_empty_eq card.empty nat.distinct(1))
  then obtain e es1 where es: "es = e # es1" by (cases es) auto
  have e: "due s e = sint (tm_tickcurrent s)" using Suc.prems(1) e0 by (auto simp: es timer_ok_def intro: antisym)
  obtain s1 es' where F: "fire_head e s = Some s1" "timer_ok s1 es'" "\<forall>x\<in>set es'. fits s1 (period s1 x)"
      "{x \<in> set es'. due s1 x = sint (tm_tickcurrent s1)} = {x \<in> set (e # es1). due s x = sint (tm_tickcurrent s)} - {e}"
      "\<And>s2 E2. fired_state s1 (set es') s2 E2 \<Longrightarrow> fired_state s (set (e # es1)) s2 E2"
    using fire_one [OF Suc.prems [unfolded es] e] by blast
  have "card {x \<in> set es'. due s1 x = sint (tm_tickcurrent s1)} = n" using Suc.hyps(2) e by (simp add: F(4) es)
  then obtain s2 es2 where R: "timercheck s1 = Some s2" "timer_ok s2 es2" "fired_state s1 (set es') s2 (set es2)" "\<forall>x\<in>set es2. sint (tm_tickcurrent s2) < due s2 x"
    using Suc.hyps(1) [of es' s1] F(2,3) by blast
  have "tm_queue s = Some e" "tick_of s e = tm_tickcurrent s" using Suc.prems(1) e by (auto simp: es timer_ok_def due_def intro: signed_word_eqI)
  then have "timercheck s = Some s2" using F(1) R(1) by (subst timercheck.simps) simp
  then show ?case using R F(5) [OF R(3)] unfolding es by blast
qed

lemma arm_simps [simp]:
  "due (arm_for_next_target s) = due s" "fired (arm_for_next_target s) = fired s" "enqueued (arm_for_next_target s) = enqueued s"
  "tm_tickcurrent (arm_for_next_target s) = tm_tickcurrent s" "tm_armed (arm_for_next_target s) \<noteq> None"
  by (simp_all add: arm_for_next_target_def Let_def due_def tick_of_def fired_def enqueued_def fun_eq_iff)

lemma arm_ok [simp]: "timer_ok (arm_for_next_target s) es = timer_ok s es"
  by (rule timer_ok_cong) (simp_all add: arm_for_next_target_def Let_def tick_of_def tnext_def fun_eq_iff)

text \<open>
  C21: When the hardware timer has run down to the time of the first entry, the interrupt handler advances the clock to that time and fires
  exactly the entries that have this time: the calls of all of them are enqueued; the ones that repeat are put
  back one period later and the others leave the queue. Every other entry stays with its time, nothing that is due remains in the queue, the queue is
  sorted, and the hardware timer is armed again.
\<close>

theorem timer_isr_fires_due:
  assumes ok: "timer_ok s (e # es)" and t: "tm_current_target s = tick_of s e" and el: "sint (tm_current_target s - tm_tickcurrent s) \<le> sint time_passed"
    and p: "\<forall>x\<in>set (e # es). fits (s\<lparr>tm_tickcurrent := tick_of s e\<rparr>) (period s x)"
  shows "\<exists>s' es'. timer_isr time_passed s = Some s' \<and> timer_ok s' es' \<and> tm_tickcurrent s' = tick_of s e \<and> tm_armed s' \<noteq> None \<and> (\<forall>x\<in>set es'. due s e < due s' x)
    \<and> (\<forall>x\<in>set (e # es).
         if due s x = due s e
         then enqueued s' x \<and> (if period s x = 0 then fired s' x \<and> x \<notin> set es' else x \<in> set es' \<and> due s' x = due s e + sint (period s x) * sint (tm_ticksperus s))
         else x \<in> set es' \<and> due s' x = due s x \<and> fired s' x = fired s x \<and> enqueued s' x = enqueued s x)"
proof -
  define s0 where "s0 = (stop_hardware s)\<lparr>tm_tickcurrent := tick_of s e\<rparr>"
  have same: "due s0 = due s" "fired s0 = fired s" "enqueued s0 = enqueued s" "period s0 = period s" "tm_ticksperus s0 = tm_ticksperus s" "tnext s0 = tnext s"
      "tm_queue s0 = tm_queue s"
    by (simp_all add: s0_def stop_hardware_def due_def tick_of_def fired_def enqueued_def period_def tnext_def fun_eq_iff)
  have tc: "sint (tm_tickcurrent s0) = due s e" by (simp add: s0_def due_def)
  have ok0: "timer_ok s0 (e # es)" using ok unfolding timer_ok_def same tc by auto
  have "\<forall>x\<in>set (e # es). fits s0 (period s0 x)" using p by (simp add: fits_def s0_def stop_hardware_def period_def)
  then obtain s1 es1 where F: "fire_head e s0 = Some s1" "timer_ok s1 es1" "\<forall>x\<in>set es1. fits s1 (period s1 x)"
      "\<And>s2 E2. fired_state s1 (set es1) s2 E2 \<Longrightarrow> fired_state s0 (set (e # es)) s2 E2"
    using fire_one [OF ok0] tc same(1) by auto
  obtain s2 es2 where R: "timercheck s1 = Some s2" "timer_ok s2 es2" "fired_state s1 (set es1) s2 (set es2)" "\<forall>x\<in>set es2. sint (tm_tickcurrent s2) < due s2 x"
    using timercheck_ok [OF F(2,3)] by blast
  note G = F(4) [OF R(3)]
  have tc2: "tm_tickcurrent s2 = tick_of s e" using G by (simp add: fired_state_def same_clock_def s0_def)
  have "tm_queue s = Some e" using ok by (simp add: timer_ok_def)
  then have "timer_isr time_passed s = Some (arm_for_next_target s2)"
    using el t F(1) R(1) by (simp add: timer_isr_def check_and_arm_def s0_def stop_hardware_def not_less Let_def)
  moreover have "fires s0 (set (e # es)) x \<longleftrightarrow> due s x = due s e" if "x \<in> set (e # es)" for x using that by (auto simp: fires_def same tc)
  then have "\<forall>x\<in>set (e # es). if due s x = due s e
      then enqueued s2 x \<and> (if period s x = 0 then fired s2 x \<and> x \<notin> set es2 else x \<in> set es2 \<and> due s2 x = due s e + sint (period s x) * sint (tm_ticksperus s))
      else x \<in> set es2 \<and> due s2 x = due s x \<and> fired s2 x = fired s x \<and> enqueued s2 x = enqueued s x"
    using G by (auto simp: fired_state_def same next_due_def tc)
  moreover have "due s e < due s2 x" if "x \<in> set es2" for x using R(4) that tc2 by (simp add: due_def)
  ultimately show ?thesis using R(2) tc2 by (intro exI [of _ "arm_for_next_target s2"] exI [of _ es2]) simp
qed

text \<open>A new entry is put into its place; entries whose time has come with the ticks that have passed are fired on the way.\<close>

lemma timer_insert_ok:
  assumes ok: "timer_ok s es" and e: "e \<notin> set es" and run: "tm_running s"
    and el: "0 \<le> sint time_passed" "\<forall>x\<in>set es. sint (tm_tickcurrent (advance time_passed s)) \<le> due s x"
    and p: "fits (advance time_passed s) us" "us \<noteq> 0" "\<forall>x\<in>set es. fits (advance time_passed s) (period s x)"
  shows "\<exists>s' es'. timer_insert time_passed e fn arg us repeating s = Some s' \<and> timer_ok s' es' \<and> tm_armed s' \<noteq> None \<and> e \<in> set es' \<and> \<not> fired s' e
    \<and> due s' e = sint (tm_tickcurrent s') + sint us * sint (tm_ticksperus s)"
proof -
  define c where "c = \<lparr>te_next = None, te_absolutetick = 0, te_repeatus = (if repeating then us else 0), te_fn = fn, te_arg = arg, te_fired = False\<rparr>"
  define s1 where "s1 = upd_entry e (\<lambda>_. c) (upd_dpc e (\<lambda>_. \<lparr>dp_next = None, dp_prev = None, dp_enqueued = False, dp_fn = 0, dp_arg = 0\<rparr>) (advance time_passed s))"
  have f: "tm_queue s1 = tm_queue s" "tm_tickcurrent s1 = tm_tickcurrent (advance time_passed s)" "tm_ticksperus s1 = tm_ticksperus s" "tm_running s1"
      "tm_entries s1 = (tm_entries s)(e := c)"
    using run by (simp_all add: s1_def upd_dpc_def advance_def stop_hardware_def)
  have "nchain (tnext s1) (tm_queue s) es None" by (rule nchain_frame [of "tnext s"]) (use ok e in \<open>auto simp: timer_ok_def tnext_def f(5)\<close>)
  moreover have d: "due s1 x = due s x" if "x \<in> set es" for x using that e by (auto simp: due_def tick_of_def f(5))
  then have m: "map (due s1) es = map (due s) es" by simp
  ultimately have ok1: "timer_ok s1 es" using ok el(2) d unfolding timer_ok_def m by (simp add: f)
  have n: "tnext s1 e = None" by (simp add: tnext_def f(5) c_def)
  have us: "fits s1 us" using p(1) by (simp add: fits_def f advance_def stop_hardware_def)
  obtain s2 xs ys where s2: "insert_timer e us s1 = Some s2" "es = xs @ ys" "timer_ok s2 (xs @ e # ys)"
      "unlinked_timers s2 = unlinked_timers (upd_entry e (\<lambda>x. x\<lparr>te_absolutetick := tm_tickcurrent s1 + us * tm_ticksperus s1\<rparr>) s1)"
    using insert_timer_ok [OF ok1 e n us] by blast
  note W = unlinked_timer_fields [OF s2(4)]
  have due: "due s2 e = sint (tm_tickcurrent s1) + sint us * sint (tm_ticksperus s1)" unfolding W(1) using sint_sum [OF us] by (simp add: due_def tick_of_def)
  have pe: "period s2 x = (if x = e then if repeating then us else 0 else period s x)" for x using W(3) [of x] by (simp add: period_def f(5) c_def)
  have fit: "fits s2 u = fits (advance time_passed s) u" for u using W(6,7) f(2,3) by (simp add: fits_def advance_def stop_hardware_def)
  have "fits (advance time_passed s) 0" using p(1) mult_nonneg_nonneg [of "sint us" "sint (tm_ticksperus (advance time_passed s))"]
    unfolding fits_def signed_0 mult_zero_left add_0_right by linarith
  then have "\<forall>x\<in>set (xs @ e # ys). fits s2 (period s2 x)" using p(1,3) s2(2) by (auto simp: fit pe)
  then obtain s3 es3 where R: "timercheck s2 = Some s3" "timer_ok s3 es3" "fired_state s2 (set (xs @ e # ys)) s3 (set es3)"
    using timercheck_ok [OF s2(3)] by blast
  have "sint us \<noteq> 0" using p(2) by (metis signed_0 signed_word_eqI)
  then have "\<not> fires s2 (set (xs @ e # ys)) e" using due us W(6) by (simp add: fires_def fits_def)
  then have "e \<in> set es3" "due s3 e = due s2 e" "fired s3 e = fired s2 e" "tm_tickcurrent s3 = tm_tickcurrent s2" using R(3) by (auto simp: fired_state_def same_clock_def)
  moreover have "\<not> fired s2 e" using W(2) by (simp add: fired_def f(5) c_def)
  moreover have "timer_insert time_passed e fn arg us repeating s = Some (arm_for_next_target s3)"
    using run s2(1) R(1) f(4) W(11) by (simp add: timer_insert_def check_and_arm_def s1_def c_def)
  ultimately show ?thesis using R(2) due W(6) f(3) by (intro exI [of _ "arm_for_next_target s3"] exI [of _ es3]) simp
qed

text \<open>Removing an entry that has fired stops the hardware timer and does not arm it again, whatever else is in the queue.\<close>

lemma timer_remove_fired_stops:
  assumes "tm_running s" and "fired s e"
  shows "\<exists>s'. timer_remove time_passed e s = Some (0, s') \<and> tm_running s' \<and> tm_queue s' = tm_queue s \<and> tm_armed s' = None"
  using assms by (simp add: timer_remove_def advance_def stop_hardware_def fired_def)

text \<open>When the hardware was armed for its limit, because the first entry is further away, the handler fires this entry too early.\<close>

lemma timer_isr_fires_early:
  assumes ok: "timer_ok s (e # es)" and t: "sint (tm_current_target s) < due s e" and el: "sint (tm_current_target s - tm_tickcurrent s) \<le> sint time_passed"
    and p: "period s e = 0" "0 \<le> sint (tm_current_target s)" "0 < sint (tm_ticksperus s)"
  shows "\<exists>s'. fire_head e ((stop_hardware s)\<lparr>tm_tickcurrent := tm_current_target s\<rparr>) = Some s' \<and> fired s' e
    \<and> timer_isr time_passed s = check_and_arm s' \<and> sint (tm_tickcurrent s') < due s e"
proof -
  define s0 where "s0 = (stop_hardware s)\<lparr>tm_tickcurrent := tm_current_target s\<rparr>"
  have q: "tm_queue s = Some e" using ok by (simp add: timer_ok_def)
  have "\<exists>s'. fire_head e s0 = Some s' \<and> fired s' e \<and> tm_tickcurrent s' = tm_current_target s"
    using p(1) by (simp add: fire_head_def period_def s0_def stop_hardware_def set_tnext_def Let_def fired_def)
  then obtain s' where "fire_head e s0 = Some s'" "fired s' e" "tm_tickcurrent s' = tm_current_target s" by blast
  then show ?thesis using q el t by (simp add: timer_isr_def s0_def stop_hardware_def not_less Let_def)
qed

subsection \<open>The queue of deferred calls\<close>

interpretation dpcq: dll_heap dnext dprev set_dnext set_dprev
  by unfold_locales (auto simp: dnext_def dprev_def set_dnext_def set_dprev_def upd_dpc_def fun_eq_iff)

definition dpc_ok :: "timers \<Rightarrow> entryid list \<Rightarrow> bool" where
  "dpc_ok s ds \<longleftrightarrow> dchain (dnext s) (dprev s) (tm_dpcqueue s) ds \<and> (\<forall>d. dp_enqueued (tm_dpcs s d) \<longleftrightarrow> d \<in> set ds)"

lemma dpc_fields [simp]:
  "dnext (s\<lparr>tm_dpcqueue := q\<rparr>) = dnext s" "dprev (s\<lparr>tm_dpcqueue := q\<rparr>) = dprev s" "dnext (s\<lparr>tm_raised := b\<rparr>) = dnext s" "dprev (s\<lparr>tm_raised := b\<rparr>) = dprev s"
  "tm_dpcqueue (set_dnext d v s) = tm_dpcqueue s" "tm_dpcqueue (set_dprev d v s) = tm_dpcqueue s"
  "dp_enqueued (tm_dpcs (set_dnext d v s) x) = dp_enqueued (tm_dpcs s x)" "dp_enqueued (tm_dpcs (set_dprev d v s) x) = dp_enqueued (tm_dpcs s x)"
  "dp_fn (tm_dpcs (set_dnext d v s) x) = dp_fn (tm_dpcs s x)" "dp_fn (tm_dpcs (set_dprev d v s) x) = dp_fn (tm_dpcs s x)"
  "dp_arg (tm_dpcs (set_dnext d v s) x) = dp_arg (tm_dpcs s x)" "dp_arg (tm_dpcs (set_dprev d v s) x) = dp_arg (tm_dpcs s x)"
  by (auto simp: dnext_def dprev_def set_dnext_def set_dprev_def upd_dpc_def fun_eq_iff)

lemma dpc_enqueue_ok:
  assumes "dpc_ok s ds"
  shows "dpc_ok (dpc_enqueue d fn arg s) (if d \<in> set ds then ds else d # ds)"
proof (cases "d \<in> set ds")
  case False
  let ?s = "upd_dpc d (\<lambda>x. x\<lparr>dp_fn := fn, dp_arg := arg, dp_enqueued := True\<rparr>) s"
  have l: "dnext ?s = dnext s" "dprev ?s = dprev s" "tm_dpcqueue ?s = tm_dpcqueue s" by (auto simp: dnext_def dprev_def upd_dpc_def fun_eq_iff)
  define h2 where "h2 = (case tm_dpcqueue s of None \<Rightarrow> set_dprev d None (set_dnext d (tm_dpcqueue s) ?s)
    | Some q \<Rightarrow> set_dprev q (Some d) (set_dprev d None (set_dnext d (tm_dpcqueue s) ?s)))"
  have c: "dchain (dnext h2) (dprev h2) (Some d) (d # ds)"
    by (rule dpcq.chain_push(1) [OF _ False refl]) (use assms l in \<open>auto simp: dpc_ok_def h2_def\<close>)
  have i: "dpc_enqueue d fn arg s = h2\<lparr>tm_dpcqueue := Some d, tm_raised := True\<rparr>"
    using assms False l(3) by (simp add: dpc_enqueue_def insert_dpc_def dpc_ok_def h2_def Let_def)
  have "dchain (dnext (dpc_enqueue d fn arg s)) (dprev (dpc_enqueue d fn arg s)) (tm_dpcqueue (dpc_enqueue d fn arg s)) (d # ds)" unfolding i using c by simp
  then show ?thesis using assms False by (auto simp: dpc_ok_def)
qed (use assms in \<open>simp add: dpc_ok_def dpc_enqueue_def\<close>)

lemma remove_dpc_simps [simp]:
  "dp_enqueued (tm_dpcs (remove_dpc d s) x) = dp_enqueued (tm_dpcs s x)" "dp_fn (tm_dpcs (remove_dpc d s) x) = dp_fn (tm_dpcs s x)"
  "dp_arg (tm_dpcs (remove_dpc d s) x) = dp_arg (tm_dpcs s x)"
  by (simp_all add: remove_dpc_def Let_def split: option.split)

lemma remove_dpc_chain:
  assumes "dchain (dnext s) (dprev s) (tm_dpcqueue s) (xs @ d # ys)"
  shows "dchain (dnext (remove_dpc d s)) (dprev (remove_dpc d s)) (tm_dpcqueue (remove_dpc d s)) (xs @ ys)"
proof -
  define h1 where "h1 = (case dprev s d of None \<Rightarrow> s | Some q \<Rightarrow> set_dnext q (dnext s d) s)"
  define h2 where "h2 = (case dnext s d of None \<Rightarrow> h1 | Some q \<Rightarrow> set_dprev q (dprev s d) h1)"
  have "remove_dpc d s = h2\<lparr>tm_dpcqueue := (if dprev s d = None then dnext s d else tm_dpcqueue s)\<rparr>"
    by (auto simp: remove_dpc_def Let_def h2_def h1_def set_dnext_def set_dprev_def upd_dpc_def split: option.split)
  then show ?thesis using dpcq.chain_unlink(1) [OF assms h1_def h2_def] by simp
qed

lemma dpc_dequeue_eq: "dp_enqueued (tm_dpcs s d) \<Longrightarrow> dpc_dequeue d s = upd_dpc d (\<lambda>x. x\<lparr>dp_enqueued := False\<rparr>) (remove_dpc d s)"
  by (auto simp: dpc_dequeue_def remove_dpc_def Let_def set_dnext_def set_dprev_def upd_dpc_def dnext_def dprev_def fun_eq_iff split: option.split)

lemma dpc_dequeue_ok:
  assumes "dpc_ok s ds"
  shows "dpc_ok (dpc_dequeue d s) (removeAll d ds)"
proof (cases "d \<in> set ds")
  case True
  then obtain xs ys where ds: "ds = xs @ d # ys" by (auto simp: in_set_conv_decomp)
  then have r: "removeAll d ds = xs @ ys" using assms dchain_distinct [of "dnext s" "dprev s" "tm_dpcqueue s" ds] by (auto simp: dpc_ok_def)
  have f: "dnext (upd_dpc d (\<lambda>x. x\<lparr>dp_enqueued := False\<rparr>) h) = dnext h" "dprev (upd_dpc d (\<lambda>x. x\<lparr>dp_enqueued := False\<rparr>) h) = dprev h"
      "tm_dpcqueue (upd_dpc d (\<lambda>x. x\<lparr>dp_enqueued := False\<rparr>) h) = tm_dpcqueue h" for h
    by (auto simp: dnext_def dprev_def upd_dpc_def fun_eq_iff)
  have "dp_enqueued (tm_dpcs (upd_dpc d (\<lambda>x. x\<lparr>dp_enqueued := False\<rparr>) (remove_dpc d s)) x) \<longleftrightarrow> x \<in> set (removeAll d ds)" for x
    using assms by (auto simp: dpc_ok_def upd_dpc_def)
  then show ?thesis using assms True remove_dpc_chain [of s xs d ys] unfolding r by (simp add: dpc_ok_def dpc_dequeue_eq f ds)
qed (use assms in \<open>simp add: dpc_ok_def dpc_dequeue_def\<close>)

text \<open>
  The interrupt handler takes every call off the queue once and runs it, in the order of the queue, when the functions it runs neither
  enqueue nor dequeue calls themselves.
\<close>

definition run_call :: "(nat \<Rightarrow> nat \<Rightarrow> timers \<Rightarrow> timers) \<Rightarrow> entryid \<Rightarrow> timers \<Rightarrow> timers" where
  "run_call run d s = run (dp_fn (tm_dpcs s d)) (dp_arg (tm_dpcs s d)) (dpc_dequeue d s)"

lemma isrfn_runs_all:
  assumes run: "\<forall>fn arg s. tm_dpcs (run fn arg s) = tm_dpcs s \<and> tm_dpcqueue (run fn arg s) = tm_dpcqueue s" and ok: "dpc_ok s ds"
  shows "isrfn run s = Some (fold (run_call run) ds s) \<and> dpc_ok (fold (run_call run) ds s) []"
  using ok
proof (induction ds arbitrary: s)
  case Nil
  then show ?case by (simp add: dpc_ok_def isrfn.simps)
next
  case (Cons d ds)
  have q: "tm_dpcqueue s = Some d" "dp_enqueued (tm_dpcs s d)" using Cons.prems by (auto simp: dpc_ok_def dest: dchain_head)
  have d: "d \<notin> set ds" using Cons.prems dchain_distinct [of "dnext s" "dprev s" "tm_dpcqueue s" "d # ds"] by (auto simp: dpc_ok_def)
  have "dpc_ok (dpc_dequeue d s) ds" using dpc_dequeue_ok [OF Cons.prems, of d] d by simp
  moreover have "dnext (run fn arg h) = dnext h" "dprev (run fn arg h) = dprev h" for fn arg h using run by (simp_all add: dnext_def dprev_def fun_eq_iff)
  ultimately have "dpc_ok (run_call run d s) ds" using run by (simp add: dpc_ok_def run_call_def)
  moreover have "isrfn run s = isrfn run (run_call run d s)"
    by (subst isrfn.simps) (simp add: q Let_def run_call_def dpc_dequeue_eq)
  ultimately show ?case using Cons.IH by simp
qed

subsection \<open>A concrete timer\<close>

text \<open>Three entries: two are due at tick 10, one of them every five ticks, and the third one at tick 20.\<close>

definition sample_timers :: timers where
  "sample_timers = \<lparr>
     tm_entries = (\<lambda>e. \<lparr>te_next = (if e = 2 then Some 3 else if e = 3 then Some 4 else None), te_absolutetick = (if e = 4 then 20 else 10),
       te_repeatus = (if e = 3 then 5 else 0), te_fn = e, te_arg = 0, te_fired = False\<rparr>),
     tm_dpcs = (\<lambda>_. \<lparr>dp_next = None, dp_prev = None, dp_enqueued = False, dp_fn = 0, dp_arg = 0\<rparr>), tm_dpcqueue = None, tm_dpcisr = Some 32, tm_raised = False,
     tm_tick_limit = 1000, tm_ticksperus = 1, tm_tickcurrent = 4, tm_current_target = 10, tm_running = True, tm_armed = Some 6, tm_queue = Some 2\<rparr>"

theorem timer_isr_fires_due_witness:
  "\<exists>s' es'. timer_isr 6 sample_timers = Some s' \<and> timer_ok s' es' \<and> tm_tickcurrent s' = 10 \<and> tm_armed s' \<noteq> None
    \<and> fired s' 2 \<and> 2 \<notin> set es' \<and> 3 \<in> set es' \<and> due s' 3 = 15 \<and> 4 \<in> set es' \<and> due s' 4 = 20 \<and> \<not> enqueued s' 4"
proof -
  have "timer_ok sample_timers [2, 3, 4]" by (simp add: timer_ok_def tnext_def due_def tick_of_def sample_timers_def)
  moreover have "tm_current_target sample_timers = tick_of sample_timers 2" by (simp add: sample_timers_def tick_of_def)
  moreover have "sint (tm_current_target sample_timers - tm_tickcurrent sample_timers) \<le> sint (6 :: time)" by (simp add: sample_timers_def)
  moreover have "\<forall>x\<in>set [2, 3, 4]. fits (sample_timers\<lparr>tm_tickcurrent := tick_of sample_timers 2\<rparr>) (period sample_timers x)"
    by (simp add: fits_def period_def sample_timers_def tick_of_def)
  ultimately obtain s' es' where R: "timer_isr 6 sample_timers = Some s'" "timer_ok s' es'" "tm_tickcurrent s' = tick_of sample_timers 2" "tm_armed s' \<noteq> None"
    "\<forall>x\<in>set [2, 3, 4]. if due sample_timers x = due sample_timers 2
       then enqueued s' x \<and> (if period sample_timers x = 0 then fired s' x \<and> x \<notin> set es'
         else x \<in> set es' \<and> due s' x = due sample_timers 2 + sint (period sample_timers x) * sint (tm_ticksperus sample_timers))
       else x \<in> set es' \<and> due s' x = due sample_timers x \<and> fired s' x = fired sample_timers x \<and> enqueued s' x = enqueued sample_timers x"
    using timer_isr_fires_due [of sample_timers 2 "[3, 4]" 6] by auto
  have d: "due sample_timers 2 = 10" "due sample_timers 3 = 10" "due sample_timers 4 = 20" "period sample_timers 2 = 0" "period sample_timers 3 = 5"
      "tm_ticksperus sample_timers = 1" "\<not> enqueued sample_timers 4" "tick_of sample_timers 2 = 10"
    by (simp_all add: due_def tick_of_def period_def enqueued_def sample_timers_def)
  have "fired s' 2 \<and> 2 \<notin> set es'" using R(5) by (simp add: d)
  moreover have "3 \<in> set es' \<and> due s' 3 = 15" using R(5) by (simp add: d)
  moreover have "4 \<in> set es' \<and> due s' 4 = 20 \<and> \<not> enqueued s' 4" using R(5) by (simp add: d)
  ultimately show ?thesis using R(1-4) d(8) by (intro exI [of _ s'] exI [of _ es']) simp
qed

end
